(* ===== verification/Prelude.thy ===== *)
theory Prelude
  imports "HOL-Library.Word" "HOL-Library.Monad_Syntax"
begin

unbundle bit_operations_syntax

text \<open>
  Shared vocabulary of the development: the C integer types of the board (32-bit ARM, \<open>char\<close>
  handled as an unsigned byte), array stores that fail outside the array, and the facts on words
  and lists that several components use. Throughout the development a C function that may fail to
  produce a defined result (a busy-wait that never ends, an access outside an array) is a function
  into an option type, and \<open>None\<close> is that outcome.
\<close>

type_synonym u8 = "8 word"
type_synonym u16 = "16 word"
type_synonym u32 = "32 word"
type_synonym u64 = "64 word"

text \<open>A string as the list of its bytes, without the terminating NUL.\<close>

type_synonym str = "u8 list"

named_theorems board_simps

text \<open>Bytes of a string literal.\<close>

definition bytes_of :: "string \<Rightarrow> u8 list" where
  "bytes_of s = map of_char s"

text \<open>A store \<open>a[i] = v\<close> into a C array of the length of the list.\<close>

definition arr_set :: "'a list \<Rightarrow> nat \<Rightarrow> 'a \<Rightarrow> 'a list option" where
  "arr_set xs i v = (if i < length xs then Some (xs[i := v]) else None)"

text \<open>A load \<open>a[i]\<close>.\<close>

definition arr_get :: "'a list \<Rightarrow> nat \<Rightarrow> 'a option" where
  "arr_get xs i = (if i < length xs then Some (xs ! i) else None)"

text \<open>Stores of consecutive elements, one at a time from index \<open>i\<close>.\<close>

fun arr_blit :: "'a list \<Rightarrow> nat \<Rightarrow> 'a list \<Rightarrow> 'a list option" where
  "arr_blit xs i [] = Some xs"
| "arr_blit xs i (v # vs) =
     (case arr_set xs i v of None \<Rightarrow> None | Some xs' \<Rightarrow> arr_blit xs' (Suc i) vs)"

lemma arr_set_Some_iff [simp]: "arr_set xs i v = Some ys \<longleftrightarrow> i < length xs \<and> ys = xs[i := v]"
  by (auto simp: arr_set_def)

lemma arr_set_in [simp]: "i < length xs \<Longrightarrow> arr_set xs i v = Some (xs[i := v])"
  by (simp add: arr_set_def)

lemma arr_get_in [simp]: "i < length xs \<Longrightarrow> arr_get xs i = Some (xs ! i)"
  by (simp add: arr_get_def)

lemma arr_get_Some_iff: "arr_get xs i = Some v \<longleftrightarrow> i < length xs \<and> v = xs ! i"
  by (auto simp: arr_get_def)

lemma arr_blit_eq:
  "i + length vs \<le> length xs \<Longrightarrow>
   arr_blit xs i vs = Some (take i xs @ vs @ drop (i + length vs) xs)"
proof (induction vs arbitrary: xs i)
  case Nil
  then show ?case by simp
next
  case (Cons v vs)
  then have "i < length xs" by simp
  then have "take (Suc i) (xs[i := v]) = take i xs @ [v]"
    by (simp add: take_Suc_conv_app_nth)
  moreover have "drop (Suc i + length vs) (xs[i := v]) = drop (Suc i + length vs) xs"
    by (rule drop_update_cancel) simp
  ultimately show ?case using Cons \<open>i < length xs\<close> by simp
qed

lemma arr_blit_overrun:
  "length xs < i + length vs \<Longrightarrow> vs \<noteq> [] \<Longrightarrow> arr_blit xs i vs = None"
proof (induction vs arbitrary: xs i)
  case Nil
  then show ?case by simp
next
  case (Cons v vs)
  show ?case
  proof (cases "i < length xs")
    case True
    with Cons.prems have "vs \<noteq> []" and "length (xs[i := v]) < Suc i + length vs" by auto
    with Cons.IH True show ?thesis by simp
  next
    case False
    then show ?thesis by (simp add: arr_set_def)
  qed
qed

lemma arr_blit_length: "arr_blit xs i vs = Some ys \<Longrightarrow> length ys = length xs"
  by (induction vs arbitrary: xs i) (auto split: option.splits)

text \<open>Case splits over the bits of short words.\<close>

lemma nat_less_8_cases: "n < 8 \<Longrightarrow> n \<in> {0, 1, 2, 3, 4, 5, 6, 7 :: nat}"
  by auto

lemma nat_less_16_cases:
  "n < 16 \<Longrightarrow> n \<in> {0, 1, 2, 3, 4, 5, 6, 7, 8, 9, 10, 11, 12, 13, 14, 15 :: nat}"
  by (simp only: insert_iff empty_iff) arith

lemma bit_u16_ge [simp]: "16 \<le> n \<Longrightarrow> \<not> bit (w :: u16) n"
  by (auto dest: bit_imp_le_length)

lemma bit_u8_ge [simp]: "8 \<le> n \<Longrightarrow> \<not> bit (w :: u8) n"
  by (auto dest: bit_imp_le_length)

lemma unat_u8_less [simp]: "unat (w :: u8) < 256"
  using unsigned_less [of w, where ?'a = nat] by simp

lemma unat_u16_less: "unat (w :: u16) < 65536"
  using unsigned_less [of w, where ?'a = nat] by simp

lemma unat_u32_less: "unat (w :: u32) < 4294967296"
  using unsigned_less [of w, where ?'a = nat] by simp

lemma ucast_u8_u32_u8 [simp]: "ucast (ucast (c :: u8) :: u32) = c"
  by (rule bit_word_eqI) (auto simp: bit_simps)

lemma unat_drop_bit_div: "unat (drop_bit k w) = unat w div 2 ^ k"
  by (subst unat_drop_bit_eq) (simp only: drop_bit_eq_div)

lemma unat_and_mask_mod: "unat (w AND mask k) = unat w mod 2 ^ k"
  by (simp only: take_bit_eq_mask [symmetric] unsigned_take_bit_eq) (simp add: take_bit_eq_mod)

lemma unat_and_7: "unat (w AND 7) = unat (w :: 'a::len word) mod 8"
  using unat_and_mask_mod [of w 3] by (simp add: mask_eq_exp_minus_1)

lemma unat_and_0xF: "unat (w AND 0xF) = unat (w :: 'a::len word) mod 16"
  using unat_and_mask_mod [of w 4] by (simp add: mask_eq_exp_minus_1)

lemma unat_and_0xFF: "unat (w AND 0xFF) = unat (w :: 'a::len word) mod 256"
  using unat_and_mask_mod [of w 8] by (simp add: mask_eq_exp_minus_1)

lemma sint_of_nat_small: "n < 2 ^ 31 \<Longrightarrow> sint (of_nat n :: u32) = int n"
  by (simp add: sint_uint uint_nat unat_of_nat signed_take_bit_int_eq_self take_bit_eq_mod)

lemma sint_small: "unat w < 2 ^ 31 \<Longrightarrow> sint w = int (unat w)" for w :: u32
  using sint_of_nat_small [of "unat w"] by simp

lemma unat_of_nat_u32: "n < 2 ^ 32 \<Longrightarrow> unat (of_nat n :: u32) = n"
  by (simp add: unat_of_nat take_bit_nat_eq_self)

lemma word_eq_0_unat: "w = 0 \<longleftrightarrow> unat w = 0"
  by (simp add: unat_eq_zero)

lemma unat_ucast_u32_u8: "unat (ucast (w :: u32) :: u8) = unat w mod 256"
  by (simp add: unsigned_ucast_eq take_bit_eq_mod)

text \<open>Clearing a bit field and writing a value into it.\<close>

definition set_field :: "nat \<Rightarrow> nat \<Rightarrow> 'a::len word \<Rightarrow> 'a word \<Rightarrow> 'a word" where
  "set_field k n w v = (v AND NOT (push_bit k (mask n))) OR push_bit k w"

lemma set_field_get:
  fixes v w :: "'a::len word"
  assumes "k + n \<le> LENGTH('a)"
  shows "drop_bit k (set_field k n w v) AND mask n = w AND mask n"
  using assms by (intro bit_word_eqI) (auto simp: set_field_def bit_simps)

lemma set_field_other:
  fixes v w :: "'a::len word"
  assumes "w AND mask n = w"
  shows "set_field k n w v AND NOT (push_bit k (mask n)) = v AND NOT (push_bit k (mask n))"
proof (rule bit_word_eqI)
  fix i assume "i < LENGTH('a)"
  have "bit w j \<Longrightarrow> j < n" for j
    using assms by (metis bit_and_iff bit_mask_iff)
  then show "bit (set_field k n w v AND NOT (push_bit k (mask n))) i =
      bit (v AND NOT (push_bit k (mask n))) i"
    using \<open>i < LENGTH('a)\<close> by (auto simp: set_field_def bit_simps)
qed

lemma bind_Some_iff [board_simps]:
  "Option.bind m f = Some y \<longleftrightarrow> (\<exists>x. m = Some x \<and> f x = Some y)"
  by (cases m) auto

end
