(* ===== verification/Hw_Bus.thy ===== *)
theory Hw_Bus
  imports Prelude
begin

text \<open>
  The memory-mapped hardware of the S5PV210 as the drivers see it. The state of the bus is the
  history of the accesses the program has made, newest first; what a read returns is decided by the
  hardware, a parameter of every driver function, from that history and the address. Nothing about
  the devices is fixed here: a theorem that relies on a device states what it relies on.
  Volatile reads and writes are \<open>rd\<close> and \<open>wr\<close>, a compound assignment on a register is \<open>rmw\<close>, and
  the busy-wait \<^verbatim>\<open>while (!(REG & mask));\<close> is \<open>poll\<close>, which is \<open>None\<close> when it never ends.
\<close>

text \<open>
  \<open>Rom b p\<close> is a call of the page reader in the boot ROM of the chip, at the address the headers
  of the program take from 0xD0037F90; its code is not part of the program.
\<close>

datatype access = Rd u32 u32 | Wr u32 u32 | Rom u32 u32

type_synonym bus = "access list"

record hw =
  mmio :: "bus \<Rightarrow> u32 \<Rightarrow> u32"
  irom :: "bus \<Rightarrow> u32 \<Rightarrow> u32 \<Rightarrow> u32 \<times> u8 list"

definition rd :: "hw \<Rightarrow> u32 \<Rightarrow> bus \<Rightarrow> u32 \<times> bus" where
  "rd hw a h = (let v = mmio hw h a in (v, Rd a v # h))"

definition wr :: "u32 \<Rightarrow> u32 \<Rightarrow> bus \<Rightarrow> bus" where
  "wr a v h = Wr a v # h"

definition rmw :: "hw \<Rightarrow> u32 \<Rightarrow> (u32 \<Rightarrow> u32) \<Rightarrow> bus \<Rightarrow> bus" where
  "rmw hw a f h = (let (v, h) = rd hw a h in wr a (f v) h)"

partial_function (option) poll :: "hw \<Rightarrow> u32 \<Rightarrow> (u32 \<Rightarrow> bool) \<Rightarrow> bus \<Rightarrow> bus option" where
  "poll hw a p h = (let (v, h') = rd hw a h in if p v then Some h' else poll hw a p h')"

text \<open>The writes of a history to one register, oldest first.\<close>

fun writes_to :: "u32 \<Rightarrow> bus \<Rightarrow> u32 list" where
  "writes_to a [] = []"
| "writes_to a (Wr b v # h) = (if b = a then writes_to a h @ [v] else writes_to a h)"
| "writes_to a (Rd b v # h) = writes_to a h"
| "writes_to a (Rom b p # h) = writes_to a h"

text \<open>The writes of a history to a set of registers, newest first, with their addresses.\<close>

fun bus_writes :: "u32 set \<Rightarrow> bus \<Rightarrow> (u32 \<times> u32) list" where
  "bus_writes A [] = []"
| "bus_writes A (Wr b v # h) = (if b \<in> A then (b, v) # bus_writes A h else bus_writes A h)"
| "bus_writes A (Rd b v # h) = bus_writes A h"
| "bus_writes A (Rom b p # h) = bus_writes A h"

lemma bus_writes_append [simp]: "bus_writes A (xs @ h) = bus_writes A xs @ bus_writes A h"
  by (induction A xs rule: bus_writes.induct) auto

lemma writes_to_append [simp]: "writes_to a (xs @ h) = writes_to a h @ writes_to a xs"
  by (induction a xs rule: writes_to.induct) auto

lemma writes_to_wr [simp]:
  "writes_to a (wr b v h) = (if b = a then writes_to a h @ [v] else writes_to a h)"
  by (simp add: wr_def)

lemma bus_writes_wr [simp]:
  "bus_writes A (wr b v h) = (if b \<in> A then (b, v) # bus_writes A h else bus_writes A h)"
  by (simp add: wr_def)

lemma rd_bus [simp]: "writes_to a (snd (rd hw b h)) = writes_to a h"
    "bus_writes A (snd (rd hw b h)) = bus_writes A h"
  by (simp_all add: rd_def Let_def)

lemma writes_to_rmw [simp]:
  "writes_to a (rmw hw b f h) =
     (if b = a then writes_to a h @ [f (mmio hw h b)] else writes_to a h)"
  by (simp add: rmw_def rd_def Let_def)

lemma bus_writes_rmw [simp]:
  "bus_writes A (rmw hw b f h) =
     (if b \<in> A then (b, f (mmio hw h b)) # bus_writes A h else bus_writes A h)"
  by (simp add: rmw_def rd_def Let_def)

text \<open>
  A poll makes only reads of the polled register. It ends exactly when some number of further
  reads ends in a value that satisfies the condition.
\<close>

fun idle_reads :: "hw \<Rightarrow> u32 \<Rightarrow> nat \<Rightarrow> bus \<Rightarrow> bus" where
  "idle_reads hw a 0 h = h"
| "idle_reads hw a (Suc n) h = idle_reads hw a n (snd (rd hw a h))"

definition responsive :: "hw \<Rightarrow> u32 \<Rightarrow> (u32 \<Rightarrow> bool) \<Rightarrow> bool" where
  "responsive hw a p \<longleftrightarrow> (\<forall>h. \<exists>n. p (mmio hw (idle_reads hw a n h) a))"

lemma writes_to_idle_reads [simp]: "writes_to b (idle_reads hw a n h) = writes_to b h"
  by (induction n arbitrary: h) auto

lemma bus_writes_idle_reads [simp]: "bus_writes A (idle_reads hw a n h) = bus_writes A h"
  by (induction n arbitrary: h) auto

lemma poll_idle_reads:
  assumes "p (mmio hw (idle_reads hw a n h) a)"
  shows "\<exists>m. poll hw a p h = Some (idle_reads hw a (Suc m) h)
    \<and> p (mmio hw (idle_reads hw a m h) a)"
  using assms
proof (induction n arbitrary: h)
  case 0
  then have "poll hw a p h = Some (idle_reads hw a (Suc 0) h)"
    by (subst poll.simps) (simp add: rd_def Let_def)
  with 0 show ?case by (intro exI [of _ 0]) simp
next
  case (Suc n)
  show ?case
  proof (cases "p (mmio hw h a)")
    case True
    then have "poll hw a p h = Some (idle_reads hw a (Suc 0) h)"
      by (subst poll.simps) (simp add: rd_def Let_def)
    with True show ?thesis by (intro exI [of _ 0]) simp
  next
    case False
    from Suc.prems have "p (mmio hw (idle_reads hw a n (snd (rd hw a h))) a)" by simp
    from Suc.IH [OF this] obtain m where
      "poll hw a p (snd (rd hw a h)) = Some (idle_reads hw a (Suc m) (snd (rd hw a h)))"
      "p (mmio hw (idle_reads hw a m (snd (rd hw a h))) a)" by blast
    moreover from False have "poll hw a p h = poll hw a p (snd (rd hw a h))"
      by (subst poll.simps) (simp add: rd_def Let_def)
    ultimately show ?thesis by (intro exI [of _ "Suc m"]) simp
  qed
qed

lemma poll_returns:
  assumes "responsive hw a p"
  obtains m where "poll hw a p h = Some (idle_reads hw a m h)"
proof -
  from assms obtain n where "p (mmio hw (idle_reads hw a n h) a)"
    by (auto simp: responsive_def)
  from poll_idle_reads [of p hw a n h, OF this] show thesis using that by blast
qed

lemma poll_Some_idle_reads:
  assumes "poll hw a p h = Some h'"
  shows "\<exists>m. h' = idle_reads hw a m h"
proof (rule poll.raw_induct
    [where P = "\<lambda>hw a p h h'. \<exists>m. h' = idle_reads hw a m h", OF _ assms])
  fix poll' hw a p h h'
  assume IH: "\<And>hw a p h h'. poll' hw a p h = Some h' \<Longrightarrow> \<exists>m. h' = idle_reads hw a m h"
    and eq: "(let (v, h') = rd hw a h in if p v then Some h' else poll' hw a p h') = Some h'"
  show "\<exists>m. h' = idle_reads hw a m h"
  proof (cases "p (fst (rd hw a h))")
    case True
    with eq have "h' = idle_reads hw a 1 h" by (simp add: case_prod_unfold Let_def)
    then show ?thesis ..
  next
    case False
    with eq have "poll' hw a p (snd (rd hw a h)) = Some h'" by (simp add: case_prod_unfold Let_def)
    from IH [OF this] obtain m where "h' = idle_reads hw a (Suc m) h" by auto
    then show ?thesis ..
  qed
qed

lemma poll_writes:
  assumes "poll hw a p h = Some h'"
  shows "writes_to b h' = writes_to b h" "bus_writes A h' = bus_writes A h"
  using poll_Some_idle_reads [OF assms] by auto


text \<open>
  Two hypotheses on registers that theorems use: a register that holds what was last written to
  it, and a register whose value the program's accesses do not change.
\<close>

definition plain_reg :: "hw \<Rightarrow> u32 \<Rightarrow> bool" where
  "plain_reg hw a \<longleftrightarrow> (\<forall>h v. mmio hw (Wr a v # h) a = v) \<and>
     (\<forall>h x. (\<forall>v. x \<noteq> Wr a v) \<longrightarrow> mmio hw (x # h) a = mmio hw h a)"

definition fixed_reg :: "hw \<Rightarrow> u32 \<Rightarrow> u32 \<Rightarrow> bool" where
  "fixed_reg hw a v \<longleftrightarrow> (\<forall>h. mmio hw h a = v)"

lemma plain_reg_simps:
  assumes "plain_reg hw a"
  shows "mmio hw (Wr a v # h) a = v"
    and "b \<noteq> a \<Longrightarrow> mmio hw (Wr b v # h) a = mmio hw h a"
    and "mmio hw (Rd b v # h) a = mmio hw h a"
    and "mmio hw (Rom p q # h) a = mmio hw h a"
  using assms by (auto simp: plain_reg_def)

lemma plain_reg_ops:
  assumes "plain_reg hw a"
  shows "mmio hw (rmw hw b f h) a = (if b = a then f (mmio hw h a) else mmio hw h a)"
    and "mmio hw (wr b v h) a = (if b = a then v else mmio hw h a)"
    and "mmio hw (snd (rd hw b h)) a = mmio hw h a"
  using plain_reg_simps [OF assms] by (auto simp: rmw_def rd_def wr_def Let_def)

lemma fixed_regD: "fixed_reg hw a v \<Longrightarrow> mmio hw h a = v"
  by (simp add: fixed_reg_def)

text \<open>A register file that starts at \<open>f\<close> and holds what is written, for witnesses.\<close>

fun reg_file :: "(u32 \<Rightarrow> u32) \<Rightarrow> bus \<Rightarrow> u32 \<Rightarrow> u32" where
  "reg_file f [] a = f a"
| "reg_file f (Wr b v # h) a = (if b = a then v else reg_file f h a)"
| "reg_file f (Rd b v # h) a = reg_file f h a"
| "reg_file f (Rom p q # h) a = reg_file f h a"

definition hw_regs :: "(u32 \<Rightarrow> u32) \<Rightarrow> hw" where
  "hw_regs f = \<lparr>mmio = reg_file f, irom = (\<lambda>h b p. (0, replicate 2048 0))\<rparr>"

lemma hw_regs_plain [simp]: "plain_reg (hw_regs f) a"
proof -
  have "mmio (hw_regs f) (x # h) a = mmio (hw_regs f) h a" if "\<forall>v. x \<noteq> Wr a v" for x h
    using that by (cases x) (auto simp: hw_regs_def)
  then show ?thesis by (auto simp: plain_reg_def hw_regs_def)
qed


text \<open>Registers that never change, for witnesses.\<close>

definition hw_fixed :: "(u32 \<Rightarrow> u32) \<Rightarrow> hw" where
  "hw_fixed f = \<lparr>mmio = (\<lambda>h a. f a), irom = (\<lambda>h b p. (0, replicate 2048 0))\<rparr>"

lemma hw_fixed_reg [simp]: "fixed_reg (hw_fixed f) a v \<longleftrightarrow> f a = v"
  by (simp add: fixed_reg_def hw_fixed_def)

lemma hw_fixed_responsive: "p (f a) \<Longrightarrow> responsive (hw_fixed f) a p"
  by (simp add: responsive_def hw_fixed_def)

end
