(* ===== verification/Spl_Uart.thy ===== *)
theory Spl_Uart
  imports Hw_Bus
begin

text \<open>
  The UART driver of the second program loader, \<^verbatim>\<open>board/samsung/smdkv210/spl/uart.c\<close>: polled input
  and output on UART 2 and the formatted output \<open>uart_printf\<close>. The lemmas show that on a
  transmitter that keeps draining its buffer every output function returns and sends exactly the
  bytes of its specification: decimal digits, pairs of hexadecimal digits, the rendered format.
\<close>

unbundle bit_operations_syntax

abbreviation GPA1CON :: u32 where "GPA1CON \<equiv> 0xE0200020"
abbreviation ULCON2 :: u32 where "ULCON2 \<equiv> 0xE2900800"
abbreviation UCON2 :: u32 where "UCON2 \<equiv> 0xE2900804"
abbreviation UFCON2 :: u32 where "UFCON2 \<equiv> 0xE2900808"
abbreviation UTRSTAT2 :: u32 where "UTRSTAT2 \<equiv> 0xE2900810"
abbreviation UTXH2 :: u32 where "UTXH2 \<equiv> 0xE2900820"
abbreviation URXH2 :: u32 where "URXH2 \<equiv> 0xE2900824"
abbreviation UBRDIV2 :: u32 where "UBRDIV2 \<equiv> 0xE2900828"
abbreviation UDIVSLOT2 :: u32 where "UDIVSLOT2 \<equiv> 0xE290082C"
abbreviation UINTP2 :: u32 where "UINTP2 \<equiv> 0xE2900830"
abbreviation UINTSP2 :: u32 where "UINTSP2 \<equiv> 0xE2900834"
abbreviation UINTM2 :: u32 where "UINTM2 \<equiv> 0xE2900838"

definition uart_init :: "hw \<Rightarrow> bus \<Rightarrow> bus" where
  "uart_init hw h =
     (let h = rmw hw GPA1CON (\<lambda>v. v AND NOT 0xFF) h;
          h = rmw hw GPA1CON (\<lambda>v. v OR 0x22) h;
          h = wr ULCON2 (0x3 OR push_bit 2 0 OR push_bit 3 0 OR push_bit 6 0) h;
          h = wr UCON2 (1 OR push_bit 2 1 OR push_bit 10 0) h;
          h = wr UFCON2 0 h;
          h = wr UBRDIV2 34 h;
          h = wr UDIVSLOT2 0xDDDD h;
          h = wr UINTM2 0xF h;
          h = rmw hw UINTP2 (\<lambda>v. v OR 0xF) h
      in rmw hw UINTSP2 (\<lambda>v. v OR 0xF) h)"

definition uart_get :: "hw \<Rightarrow> bus \<Rightarrow> (u8 \<times> bus) option" where
  "uart_get hw h = do {
     h \<leftarrow> poll hw UTRSTAT2 (\<lambda>v. v AND 0x1 \<noteq> 0) h;
     let (v, h) = rd hw URXH2 h;
     Some (ucast v, h)
   }"

definition uart_put :: "hw \<Rightarrow> u8 \<Rightarrow> bus \<Rightarrow> bus option" where
  "uart_put hw c h = do {
     h \<leftarrow> poll hw UTRSTAT2 (\<lambda>v. v AND push_bit 2 0x1 \<noteq> 0) h;
     Some (wr UTXH2 (ucast c) h)
   }"

definition get_char :: "hw \<Rightarrow> bus \<Rightarrow> (u8 \<times> bus) option" where
  "get_char hw h = uart_get hw h"

text \<open>The pointer argument is \<open>dst\<close>: whether it is not NULL; the byte stored through it is returned.\<close>

definition try_get_char :: "hw \<Rightarrow> bool \<Rightarrow> bus \<Rightarrow> bool \<times> u8 option \<times> bus" where
  "try_get_char hw dst h =
     (let (st, h) = rd hw UTRSTAT2 h in
      if st AND 0x1 = 0 then (False, None, h)
      else if dst then (let (v, h) = rd hw URXH2 h in (True, Some (ucast v), h))
      else (True, None, h))"

definition put_char :: "hw \<Rightarrow> u8 \<Rightarrow> bus \<Rightarrow> bus option" where
  "put_char hw c h = uart_put hw c h"

fun put_chars :: "hw \<Rightarrow> u8 list \<Rightarrow> bus \<Rightarrow> bus option" where
  "put_chars hw [] h = Some h"
| "put_chars hw (c # cs) h = do { h \<leftarrow> uart_put hw c h; put_chars hw cs h }"

text \<open>A C string is the list of its bytes before the terminator; \<open>None\<close> is a NULL pointer.\<close>

fun put_string_loop :: "hw \<Rightarrow> u8 list \<Rightarrow> bus \<Rightarrow> bus option" where
  "put_string_loop hw [] h = Some h"
| "put_string_loop hw (c # p) h = do { h \<leftarrow> put_char hw c h; put_string_loop hw p h }"

definition put_string :: "hw \<Rightarrow> u8 list option \<Rightarrow> bus \<Rightarrow> bus option" where
  "put_string hw str h = (case str of None \<Rightarrow> Some h | Some p \<Rightarrow> put_string_loop hw p h)"

text \<open>
  \<open>put_int\<close> collects the digits, least significant first, in \<open>u8 a[10]\<close>; the list is the
  part of the array filled so far.
\<close>

function put_int_digits :: "u32 \<Rightarrow> u8 list \<Rightarrow> u8 list option" where
  "put_int_digits v a =
     (if v = 0 then Some a
      else if length a < 10 then put_int_digits (v div 10) (a @ [ucast (v mod 10)])
      else None)"
  by pat_completeness auto
termination
  by (relation "measure (\<lambda>(v, a). 10 - length a)") auto

fun put_int_out :: "hw \<Rightarrow> u8 list \<Rightarrow> nat \<Rightarrow> bus \<Rightarrow> bus option" where
  "put_int_out hw a 0 h = Some h"
| "put_int_out hw a (Suc i) h = do { h \<leftarrow> put_char hw (a ! i + 0x30) h; put_int_out hw a i h }"

definition put_int :: "hw \<Rightarrow> u32 \<Rightarrow> bus \<Rightarrow> bus option" where
  "put_int hw v h =
     (if v = 0 then put_char hw 0x30 h
      else do { a \<leftarrow> put_int_digits v []; put_int_out hw a (length a) h })"

definition put_hex :: "hw \<Rightarrow> u8 \<Rightarrow> u8 \<Rightarrow> bus \<Rightarrow> bus option" where
  "put_hex hw v small h =
     (let hex1 = bytes_of ''0123456789abcdef'';
          hex2 = bytes_of ''0123456789ABCDEF'';
          hi = unat (drop_bit 4 v);
          lo = unat (v AND 0x0F)
      in if small \<noteq> 0 then do { h \<leftarrow> put_char hw (hex1 ! hi) h; put_char hw (hex1 ! lo) h }
         else do { h \<leftarrow> put_char hw (hex2 ! hi) h; put_char hw (hex2 ! lo) h })"

definition put_int_hex :: "hw \<Rightarrow> u32 \<Rightarrow> u8 \<Rightarrow> bus \<Rightarrow> bus option" where
  "put_int_hex hw v small h =
     (if drop_bit 24 v \<noteq> 0 then do {
        h \<leftarrow> put_hex hw (ucast (drop_bit 24 v)) small h;
        h \<leftarrow> put_hex hw (ucast (drop_bit 16 v AND 0xFF)) small h;
        h \<leftarrow> put_hex hw (ucast (drop_bit 8 v AND 0xFF)) small h;
        put_hex hw (ucast (v AND 0xFF)) small h
      }
      else if drop_bit 16 v AND 0xFF \<noteq> 0 then do {
        h \<leftarrow> put_hex hw (ucast (drop_bit 16 v AND 0xFF)) small h;
        h \<leftarrow> put_hex hw (ucast (drop_bit 8 v AND 0xFF)) small h;
        put_hex hw (ucast (v AND 0xFF)) small h
      }
      else if drop_bit 8 v AND 0xFF \<noteq> 0 then do {
        h \<leftarrow> put_hex hw (ucast (drop_bit 8 v AND 0xFF)) small h;
        put_hex hw (ucast (v AND 0xFF)) small h
      }
      else put_hex hw (ucast (v AND 0xFF)) small h)"

text \<open>
  The variable arguments of \<open>uart_printf\<close>. Taking an argument that is missing or of the other
  kind, and a format that ends in a percent sign (the loop would run past the terminator), have no
  defined result.
\<close>

datatype va_arg = VInt u32 | VStr "u8 list option"

fun uart_printf :: "hw \<Rightarrow> u8 list \<Rightarrow> va_arg list \<Rightarrow> bus \<Rightarrow> bus option" where
  "uart_printf hw [] ap h = Some h"
| "uart_printf hw [c] ap h = (if c = 0x25 then None else put_char hw c h)"
| "uart_printf hw (c # d # fmt) ap h =
     (if c = 0x25 then
        (if d = 0x63 then
           (case ap of VInt i # ap \<Rightarrow> do { h \<leftarrow> put_char hw (ucast i) h; uart_printf hw fmt ap h }
            | _ \<Rightarrow> None)
         else if d = 0x73 then
           (case ap of VStr s # ap \<Rightarrow> do { h \<leftarrow> put_string hw s h; uart_printf hw fmt ap h }
            | _ \<Rightarrow> None)
         else if d = 0x64 \<or> d = 0x75 then
           (case ap of VInt i # ap \<Rightarrow> do { h \<leftarrow> put_int hw i h; uart_printf hw fmt ap h }
            | _ \<Rightarrow> None)
         else if d = 0x78 \<or> d = 0x58 then
           (case ap of VInt i # ap \<Rightarrow>
              do { h \<leftarrow> put_int_hex hw i (if d = 0x78 then 1 else 0) h; uart_printf hw fmt ap h }
            | _ \<Rightarrow> None)
         else uart_printf hw fmt ap h)
      else do { h \<leftarrow> put_char hw c h; uart_printf hw (d # fmt) ap h })"

subsection \<open>Specifications of the output functions\<close>

definition tx_bytes :: "bus \<Rightarrow> u8 list" where
  "tx_bytes h = map ucast (writes_to UTXH2 h)"

definition tx_drains :: "hw \<Rightarrow> bool" where
  "tx_drains hw \<longleftrightarrow> responsive hw UTRSTAT2 (\<lambda>v. v AND 4 \<noteq> 0)"

fun decimal :: "nat \<Rightarrow> u8 list" where
  "decimal n = (if n < 10 then [of_nat (48 + n)] else decimal (n div 10) @ [of_nat (48 + n mod 10)])"

declare decimal.simps [simp del] put_int_digits.simps [simp del]

definition hex_digit :: "bool \<Rightarrow> nat \<Rightarrow> u8" where
  "hex_digit small d = (if d < 10 then of_nat (48 + d)
     else if small then of_nat (87 + d) else of_nat (55 + d))"

definition hex_byte :: "bool \<Rightarrow> nat \<Rightarrow> u8 list" where
  "hex_byte small b = [hex_digit small (b div 16), hex_digit small (b mod 16)]"

fun hex_bytes :: "bool \<Rightarrow> nat \<Rightarrow> u8 list" where
  "hex_bytes small n =
     (if n < 256 then hex_byte small n
      else hex_bytes small (n div 256) @ hex_byte small (n mod 256))"

declare hex_bytes.simps [simp del]

text \<open>The text a format stands for, or \<open>None\<close> where the arguments do not fit it.\<close>

fun render :: "u8 list \<Rightarrow> va_arg list \<Rightarrow> u8 list option" where
  "render [] ap = Some []"
| "render [c] ap = (if c = 0x25 then None else Some [c])"
| "render (c # d # fmt) ap =
     (if c \<noteq> 0x25 then map_option ((#) c) (render (d # fmt) ap)
      else if d = 0x63 then
        (case ap of VInt i # ap \<Rightarrow> map_option ((#) (ucast i)) (render fmt ap) | _ \<Rightarrow> None)
      else if d = 0x73 then
        (case ap of VStr s # ap \<Rightarrow>
           map_option ((@) (case s of None \<Rightarrow> [] | Some p \<Rightarrow> p)) (render fmt ap) | _ \<Rightarrow> None)
      else if d \<in> {0x64, 0x75} then
        (case ap of VInt i # ap \<Rightarrow> map_option ((@) (decimal (unat i))) (render fmt ap) | _ \<Rightarrow> None)
      else if d \<in> {0x78, 0x58} then
        (case ap of VInt i # ap \<Rightarrow>
           map_option ((@) (hex_bytes (d = 0x78) (unat i))) (render fmt ap) | _ \<Rightarrow> None)
      else render fmt ap)"

text \<open>
  \<open>emits f bs\<close>: from every history \<open>f\<close> returns, has sent \<open>bs\<close>, and has written no other register.
  All its accesses are reads of the status and writes of the transmit register.
\<close>

fun tx_access :: "access \<Rightarrow> bool" where
  "tx_access (Rd a v) \<longleftrightarrow> a = UTRSTAT2"
| "tx_access (Wr a v) \<longleftrightarrow> a = UTXH2"
| "tx_access (Rom b p) \<longleftrightarrow> False"

definition tx_ext :: "bus \<Rightarrow> bus \<Rightarrow> bool" where
  "tx_ext h h' \<longleftrightarrow> (\<exists>xs. h' = xs @ h \<and> (\<forall>x \<in> set xs. tx_access x))"

lemma tx_ext_refl [simp]: "tx_ext h h"
  by (simp add: tx_ext_def)

lemma tx_ext_trans: "tx_ext h h1 \<Longrightarrow> tx_ext h1 h2 \<Longrightarrow> tx_ext h h2"
  by (auto simp: tx_ext_def)

lemma tx_ext_idle_reads: "tx_ext h (idle_reads hw UTRSTAT2 n h)"
proof (induction n arbitrary: h)
  case (Suc n)
  have "tx_ext h (snd (rd hw UTRSTAT2 h))" by (auto simp: tx_ext_def rd_def Let_def)
  with Suc.IH [of "snd (rd hw UTRSTAT2 h)"] show ?case by (auto intro: tx_ext_trans)
qed simp

lemma tx_ext_wr:
  assumes "tx_ext h h1"
  shows "tx_ext h (wr UTXH2 v h1)"
proof -
  have "tx_ext h1 (wr UTXH2 v h1)"
    unfolding tx_ext_def wr_def by (rule exI [of _ "[Wr UTXH2 v]"]) simp
  with assms show ?thesis by (rule tx_ext_trans)
qed

definition emits :: "(bus \<Rightarrow> bus option) \<Rightarrow> u8 list \<Rightarrow> bool" where
  "emits f bs \<longleftrightarrow> (\<forall>h. \<exists>h'. f h = Some h' \<and> tx_bytes h' = tx_bytes h @ bs \<and>
     (\<forall>A. UTXH2 \<notin> A \<longrightarrow> bus_writes A h' = bus_writes A h) \<and> tx_ext h h')"

lemma emitsD:
  assumes "emits f bs"
  obtains h' where "f h = Some h'" "tx_bytes h' = tx_bytes h @ bs"
    "\<And>A. UTXH2 \<notin> A \<Longrightarrow> bus_writes A h' = bus_writes A h" "tx_ext h h'"
  using assms unfolding emits_def by blast

lemma emits_Some [simp]: "emits Some []"
  by (simp add: emits_def)

lemma emits_bind:
  assumes "emits f xs" and "emits g ys"
  shows "emits (\<lambda>h. Option.bind (f h) g) (xs @ ys)"
  unfolding emits_def
proof (intro allI)
  fix h
  from assms(1) obtain h1 where h1: "f h = Some h1" "tx_bytes h1 = tx_bytes h @ xs"
      "\<And>A. UTXH2 \<notin> A \<Longrightarrow> bus_writes A h1 = bus_writes A h" "tx_ext h h1" by (rule emitsD [of f xs h]) blast
  from assms(2) obtain h2 where h2: "g h1 = Some h2" "tx_bytes h2 = tx_bytes h1 @ ys"
      "\<And>A. UTXH2 \<notin> A \<Longrightarrow> bus_writes A h2 = bus_writes A h1" "tx_ext h1 h2" by (rule emitsD [of g ys h1]) blast
  from h1 h2 show "\<exists>h'. Option.bind (f h) g = Some h' \<and> tx_bytes h' = tx_bytes h @ xs @ ys \<and>
     (\<forall>A. UTXH2 \<notin> A \<longrightarrow> bus_writes A h' = bus_writes A h) \<and> tx_ext h h'" by (auto intro: tx_ext_trans)
qed

lemma emits_put_char:
  assumes "tx_drains hw"
  shows "emits (put_char hw c) [c]"
  unfolding emits_def
proof (intro allI)
  fix h
  from assms have "responsive hw UTRSTAT2 (\<lambda>v. v AND push_bit 2 1 \<noteq> 0)"
    by (simp add: tx_drains_def)
  then obtain m where
    "poll hw UTRSTAT2 (\<lambda>v. v AND push_bit 2 1 \<noteq> 0) h = Some (idle_reads hw UTRSTAT2 m h)"
    by (rule poll_returns)
  then have "put_char hw c h = Some (wr UTXH2 (ucast c) (idle_reads hw UTRSTAT2 m h))"
    by (simp add: put_char_def uart_put_def)
  then show "\<exists>h'. put_char hw c h = Some h' \<and> tx_bytes h' = tx_bytes h @ [c] \<and>
      (\<forall>A. UTXH2 \<notin> A \<longrightarrow> bus_writes A h' = bus_writes A h) \<and> tx_ext h h'"
    by (simp add: tx_bytes_def tx_ext_wr tx_ext_idle_reads)
qed

lemma emits_put_string_loop: "tx_drains hw \<Longrightarrow> emits (put_string_loop hw p) p"
proof (induction p)
  case Nil
  have "put_string_loop hw [] = Some" by (rule ext) simp
  then show ?case by simp
next
  case (Cons c p)
  then have "emits (\<lambda>h. Option.bind (put_char hw c h) (put_string_loop hw p)) ([c] @ p)"
    by (intro emits_bind emits_put_char)
  moreover have "put_string_loop hw (c # p) = (\<lambda>h. Option.bind (put_char hw c h) (put_string_loop hw p))"
    by (rule ext) simp
  ultimately show ?case by simp
qed

lemma put_chars_eq: "put_chars hw cs h = put_string_loop hw cs h"
proof (induction cs arbitrary: h)
  case (Cons c cs)
  then have "put_chars hw cs = put_string_loop hw cs" by (rule ext)
  then show ?case by (simp add: put_char_def)
qed simp

lemma emits_put_chars: "tx_drains hw \<Longrightarrow> emits (put_chars hw cs) cs"
  using emits_put_string_loop [of hw cs] by (simp add: put_chars_eq [abs_def])

subsection \<open>Numbers\<close>

lemma put_int_digits_decimal:
  "v \<noteq> 0 \<Longrightarrow> length a \<le> 10 \<Longrightarrow> unat v < 10 ^ (10 - length a) \<Longrightarrow>
   \<exists>ds. put_int_digits v a = Some (a @ ds) \<and> map (\<lambda>d. d + 0x30) (rev ds) = decimal (unat v)"
proof (induction v a rule: put_int_digits.induct)
  case (1 v a)
  have digit: "ucast (v mod 10) + 0x30 = (of_nat (48 + unat v mod 10) :: u8)"
    using of_nat_unat [of "v mod 10", where ?'a = u8] by (simp add: unat_mod)
  from "1.prems" have pos: "0 < unat v" and len: "length a < 10"
    by (cases "length a = 10"; simp add: word_eq_0_unat)+
  have div: "unat (v div 10) = unat v div 10" by (simp add: unat_div)
  show ?case
  proof (cases "v div 10 = 0")
    case True
    then have "unat v < 10" using div by (metis div_eq_0_iff unat_0 zero_neq_numeral)
    with digit have "map (\<lambda>d. d + 0x30) (rev [ucast (v mod 10)]) = decimal (unat v)"
      by (subst decimal.simps) simp
    moreover have "put_int_digits v a = Some (a @ [ucast (v mod 10)])"
      using True len "1.prems"(1)
      by (simp add: put_int_digits.simps [of v a] put_int_digits.simps [of 0])
    ultimately show ?thesis by blast
  next
    case False
    have "10 - length a = Suc (10 - length (a @ [ucast (v mod 10) :: u8]))" using len by simp
    with "1.prems"(3) div have "unat (v div 10) < 10 ^ (10 - length (a @ [ucast (v mod 10) :: u8]))"
      by (simp add: less_mult_imp_div_less mult.commute)
    with "1.IH" False "1.prems"(1) len obtain ds where
      ds: "put_int_digits (v div 10) (a @ [ucast (v mod 10)]) = Some ((a @ [ucast (v mod 10)]) @ ds)"
        "map (\<lambda>d. d + 0x30) (rev ds) = decimal (unat v div 10)"
      using div by auto
    have "\<not> unat v < 10" using False div by (auto simp: word_eq_0_unat)
    with ds(2) digit have
      "map (\<lambda>d. d + 0x30) (rev (ucast (v mod 10) # ds)) = decimal (unat v)"
      by (subst decimal.simps) simp
    moreover have "put_int_digits v a = Some (a @ ucast (v mod 10) # ds)"
      using ds(1) len "1.prems"(1) by (simp add: put_int_digits.simps [of v a])
    ultimately show ?thesis by blast
  qed
qed

lemma emits_put_int_out:
  "tx_drains hw \<Longrightarrow> n \<le> length a \<Longrightarrow>
   emits (put_int_out hw a n) (map (\<lambda>d. d + 0x30) (rev (take n a)))"
proof (induction n)
  case 0
  have "put_int_out hw a 0 = Some" by (rule ext) simp
  then show ?case by simp
next
  case (Suc n)
  then have "emits (\<lambda>h. Option.bind (put_char hw (a ! n + 0x30) h) (put_int_out hw a n))
      ([a ! n + 0x30] @ map (\<lambda>d. d + 0x30) (rev (take n a)))"
    by (intro emits_bind emits_put_char) auto
  moreover have "put_int_out hw a (Suc n) =
      (\<lambda>h. Option.bind (put_char hw (a ! n + 0x30) h) (put_int_out hw a n))"
    by (rule ext) simp
  ultimately show ?case using Suc.prems by (simp add: take_Suc_conv_app_nth)
qed

lemma emits_put_int:
  assumes "tx_drains hw"
  shows "emits (put_int hw v) (decimal (unat v))"
proof (cases "v = 0")
  case True
  then show ?thesis
    using emits_put_char [OF assms, of "0x30"] by (simp add: put_int_def [abs_def] decimal.simps)
next
  case False
  have "unat v < 10 ^ (10 - length ([] :: u8 list))" using unat_u32_less [of v] by simp
  with False obtain ds where ds: "put_int_digits v [] = Some ds"
      "map (\<lambda>d. d + 0x30) (rev ds) = decimal (unat v)"
    using put_int_digits_decimal [of v "[]"] by auto
  have "put_int hw v = put_int_out hw ds (length ds)"
    by (rule ext) (simp add: put_int_def ds(1) False)
  then show ?thesis using emits_put_int_out [OF assms, of "length ds" ds] ds(2) by simp
qed

lemma hex_table:
  "d < 16 \<Longrightarrow> bytes_of ''0123456789abcdef'' ! d = hex_digit True d"
  "d < 16 \<Longrightarrow> bytes_of ''0123456789ABCDEF'' ! d = hex_digit False d"
  by (drule nat_less_16_cases, elim insertE, simp_all add: bytes_of_def hex_digit_def)+

lemma emits_put_hex:
  assumes "tx_drains hw"
  shows "emits (put_hex hw v small) (hex_byte (small \<noteq> 0) (unat v))"
proof -
  have lt: "unat v div 16 < 16" by (simp add: less_mult_imp_div_less)
  have "put_hex hw v small = (\<lambda>h. Option.bind (put_char hw (hex_digit (small \<noteq> 0) (unat v div 16)) h)
      (put_char hw (hex_digit (small \<noteq> 0) (unat v mod 16))))"
    by (rule ext) (simp add: put_hex_def Let_def unat_drop_bit_div unat_and_0xF hex_table lt)
  moreover have "emits \<dots> ([hex_digit (small \<noteq> 0) (unat v div 16)] @ [hex_digit (small \<noteq> 0) (unat v mod 16)])"
    by (intro emits_bind emits_put_char assms)
  ultimately show ?thesis by (simp add: hex_byte_def)
qed

lemma hex_bytes_split:
  "256 \<le> n \<Longrightarrow> hex_bytes s n = hex_bytes s (n div 256) @ hex_byte s (n mod 256)"
  "n < 256 \<Longrightarrow> hex_bytes s n = hex_byte s n"
  by (simp_all add: hex_bytes.simps [of s n])

lemma emits_put_int_hex:
  assumes "tx_drains hw"
  shows "emits (put_int_hex hw v small) (hex_bytes (small \<noteq> 0) (unat v))"
proof -
  let ?n = "unat v" and ?s = "small \<noteq> 0"
  let ?b = "\<lambda>k. ucast (drop_bit k v AND 0xFF) :: u8"
  have b: "unat (?b k) = ?n div 2 ^ k mod 256" for k
    by (simp add: unat_ucast_u32_u8 unat_and_0xFF unat_drop_bit_div)
  have b0: "unat (ucast (v AND 0xFF) :: u8) = ?n mod 256"
    using b [of 0] by simp
  have top: "unat (ucast (drop_bit 24 v) :: u8) = ?n div 2 ^ 24"
    using unat_u32_less [of v] by (simp add: unat_ucast_u32_u8 unat_drop_bit_div)
  have z: "drop_bit 24 v = 0 \<longleftrightarrow> ?n div 2 ^ 24 = 0"
      "drop_bit k v AND 0xFF = 0 \<longleftrightarrow> ?n div 2 ^ k mod 256 = 0" for k
    by (simp_all add: word_eq_0_unat unat_and_0xFF unat_drop_bit_div)
  note hx = emits_put_hex [OF assms, of _ small]
  note e1 = hx [of "ucast (v AND 0xFF)", unfolded b0]
  note e2 = emits_bind [OF hx [of "?b 8", unfolded b] e1]
  note e3 = emits_bind [OF hx [of "?b 16", unfolded b] e2]
  note e4 = emits_bind [OF hx [of "ucast (drop_bit 24 v)", unfolded top] e3]
  consider "?n div 2 ^ 24 \<noteq> 0" | "?n div 2 ^ 24 = 0" "?n div 2 ^ 16 mod 256 \<noteq> 0"
    | "?n div 2 ^ 24 = 0" "?n div 2 ^ 16 mod 256 = 0" "?n div 2 ^ 8 mod 256 \<noteq> 0"
    | "?n div 2 ^ 24 = 0" "?n div 2 ^ 16 mod 256 = 0" "?n div 2 ^ 8 mod 256 = 0"
    by blast
  then show ?thesis
  proof cases
    case 1
    then have "hex_bytes ?s ?n = hex_byte ?s (?n div 2 ^ 24) @ hex_byte ?s (?n div 2 ^ 16 mod 256)
        @ hex_byte ?s (?n div 2 ^ 8 mod 256) @ hex_byte ?s (?n mod 256)"
      using unat_u32_less [of v] by (simp add: hex_bytes_split div_mult2_eq [symmetric])
    with 1 e4 show ?thesis by (simp add: put_int_hex_def [abs_def] z)
  next
    case 2
    then have "hex_bytes ?s ?n = hex_byte ?s (?n div 2 ^ 16 mod 256)
        @ hex_byte ?s (?n div 2 ^ 8 mod 256) @ hex_byte ?s (?n mod 256)"
      by (simp add: hex_bytes_split div_mult2_eq [symmetric])
    with 2 e3 show ?thesis by (simp add: put_int_hex_def [abs_def] z)
  next
    case 3
    then have "hex_bytes ?s ?n = hex_byte ?s (?n div 2 ^ 8 mod 256) @ hex_byte ?s (?n mod 256)"
      by (simp add: hex_bytes_split div_mult2_eq [symmetric])
    with 3 e2 show ?thesis by (simp add: put_int_hex_def [abs_def] z)
  next
    case 4
    then have "hex_bytes ?s ?n = hex_byte ?s (?n mod 256)"
      by (simp add: hex_bytes_split)
    with 4 e1 show ?thesis by (simp add: put_int_hex_def [abs_def] z)
  qed
qed


subsection \<open>Reading the digits back\<close>

definition dec_value :: "u8 list \<Rightarrow> nat" where
  "dec_value cs = foldl (\<lambda>n c. 10 * n + (unat c - 48)) 0 cs"

definition hex_digit_value :: "u8 \<Rightarrow> nat" where
  "hex_digit_value c = (let n = unat c in
     if n < 58 then n - 48 else if n < 71 then n - 55 else n - 87)"

definition hex_value :: "u8 list \<Rightarrow> nat" where
  "hex_value cs = foldl (\<lambda>n c. 16 * n + hex_digit_value c) 0 cs"

lemma unat_of_nat_u8: "n < 256 \<Longrightarrow> unat (of_nat n :: u8) = n"
  by (simp add: unat_of_nat)

lemma dec_value_decimal: "dec_value (decimal n) = n"
proof (induction n rule: decimal.induct)
  case (1 n)
  show ?case
  proof (cases "n < 10")
    case True
    then have "unat (of_nat (48 + n) :: u8) = 48 + n" by (intro unat_of_nat_u8) simp
    with True show ?thesis by (subst decimal.simps) (simp only: if_True dec_value_def, simp)
  next
    case False
    have "unat (of_nat (48 + n mod 10) :: u8) = 48 + n mod 10" by (intro unat_of_nat_u8) simp
    moreover have "dec_value (decimal (n div 10)) = n div 10" using 1 False by simp
    ultimately show ?thesis using False
      by (subst decimal.simps) (simp only: if_False dec_value_def foldl_append, simp)
  qed
qed

lemma decimal_length: "n < 10 ^ Suc k \<Longrightarrow> length (decimal n) \<le> Suc k"
proof (induction k arbitrary: n)
  case 0
  then show ?case by (simp add: decimal.simps)
next
  case (Suc k)
  then have "n div 10 < 10 ^ Suc k" by (simp add: less_mult_imp_div_less)
  with Suc.IH show ?case by (simp add: decimal.simps [of n])
qed

lemma decimal_not_Nil [simp]: "decimal n \<noteq> []"
  by (simp add: decimal.simps)

lemma of_nat_u8_eq_48: "n < 10 \<Longrightarrow> (of_nat (48 + n) :: u8) = 48 \<longleftrightarrow> n = 0"
proof -
  assume "n < 10"
  then have "unat (of_nat (48 + n) :: u8) = 48 + n" by (intro unat_of_nat_u8) simp
  moreover have "unat (48 :: u8) = 48" by simp
  ultimately show ?thesis by (metis add_cancel_left_right unsigned_word_eqI)
qed

lemma decimal_no_leading_zero: "hd (decimal n) = 48 \<Longrightarrow> n = 0"
proof (induction n rule: decimal.induct)
  case (1 n)
  show ?case
  proof (cases "n < 10")
    case True
    with "1.prems" have "(of_nat (48 + n) :: u8) = 48" by (subst (asm) decimal.simps) simp
    with True of_nat_u8_eq_48 show ?thesis by blast
  next
    case False
    with "1.prems" have "hd (decimal (n div 10)) = 48" by (subst (asm) decimal.simps) simp
    with "1.IH" False show ?thesis by auto
  qed
qed

lemma hex_digit_value_hex_digit: "d < 16 \<Longrightarrow> hex_digit_value (hex_digit s d) = d"
  by (drule nat_less_16_cases, elim insertE, simp_all add: hex_digit_def hex_digit_value_def)

lemma hex_value_append_byte:
  "b < 256 \<Longrightarrow> hex_value (cs @ hex_byte s b) = 256 * hex_value cs + b"
proof -
  assume "b < 256"
  then have "b div 16 < 16" "b mod 16 < 16" by auto
  then show ?thesis
    by (simp add: hex_value_def hex_byte_def hex_digit_value_hex_digit)
qed

lemma hex_value_hex_bytes: "hex_value (hex_bytes s n) = n"
proof (induction s n rule: hex_bytes.induct)
  case (1 s n)
  show ?case
  proof (cases "n < 256")
    case True
    then show ?thesis using hex_value_append_byte [of n "[]" s]
      by (simp add: hex_bytes.simps [of s n] hex_value_def)
  next
    case False
    with 1 show ?thesis by (simp add: hex_bytes.simps [of s n] hex_value_append_byte)
  qed
qed

lemma hex_bytes_length: "n < 256 ^ Suc k \<Longrightarrow> even (length (hex_bytes s n)) \<and> length (hex_bytes s n) \<le> 2 * Suc k"
proof (induction k arbitrary: n)
  case 0
  then show ?case by (simp add: hex_bytes.simps hex_byte_def)
next
  case (Suc k)
  then have "n div 256 < 256 ^ Suc k" by (simp add: less_mult_imp_div_less)
  with Suc.IH [of "n div 256"] show ?case by (simp add: hex_bytes.simps [of s n] hex_byte_def)
qed

subsection \<open>Formatted output\<close>

lemma emits_put_string:
  "tx_drains hw \<Longrightarrow> emits (put_string hw s) (case s of None \<Rightarrow> [] | Some p \<Rightarrow> p)"
  using emits_put_string_loop by (cases s) (auto simp: put_string_def [abs_def])

lemma emits_uart_printf:
  "tx_drains hw \<Longrightarrow> render fmt ap = Some out \<Longrightarrow> emits (uart_printf hw fmt ap) out"
proof (induction fmt ap arbitrary: out rule: render.induct)
  case (1 ap)
  have "uart_printf hw [] ap = Some" by (rule ext) simp
  with 1 show ?case by simp
next
  case (2 c ap)
  have "uart_printf hw [c] ap = put_char hw c" if "c \<noteq> 0x25" by (rule ext) (simp add: that)
  with 2 emits_put_char show ?case by (auto split: if_splits)
next
  case (3 c d fmt ap)
  note tx = "3.prems"(1) and ren = "3.prems"(2) and IH = "3.IH"
  note step = emits_bind [OF emits_put_char [OF tx]] emits_bind [OF emits_put_string [OF tx]]
    emits_bind [OF emits_put_int [OF tx]] emits_bind [OF emits_put_int_hex [OF tx]]
  consider (lit) "c \<noteq> 0x25" | (chr) "c = 0x25" "d = 0x63" | (str) "c = 0x25" "d = 0x73"
    | (dec) "c = 0x25" "d = 0x64 \<or> d = 0x75" | (hex) "c = 0x25" "d = 0x78 \<or> d = 0x58"
    | (other) "c = 0x25" "d \<notin> {0x63, 0x73, 0x64, 0x75, 0x78, 0x58}" by auto
  then show ?case
  proof cases
    case lit
    with ren obtain r where "render (d # fmt) ap = Some r" "out = [c] @ r" by auto
    with step(1) IH(1) lit tx show ?thesis by (simp add: fun_eq_iff emits_def)
  next
    case chr
    with ren obtain i ap' r where "ap = VInt i # ap'" "render fmt ap' = Some r"
        "out = [ucast i] @ r" by (auto split: list.splits va_arg.splits)
    with step(1) IH(2) chr tx show ?thesis by (simp add: fun_eq_iff emits_def)
  next
    case str
    with ren obtain p ap' r where "ap = VStr p # ap'" "render fmt ap' = Some r"
        "out = (case p of None \<Rightarrow> [] | Some q \<Rightarrow> q) @ r" by (auto split: list.splits va_arg.splits)
    with step(2) IH(3) str tx show ?thesis by (simp add: fun_eq_iff emits_def)
  next
    case dec
    with ren obtain i ap' r where "ap = VInt i # ap'" "render fmt ap' = Some r"
        "out = decimal (unat i) @ r" by (auto split: list.splits va_arg.splits)
    with step(3) IH(4) dec tx show ?thesis by (elim disjE) (simp_all add: fun_eq_iff emits_def)
  next
    case hex
    with ren obtain i ap' r where "ap = VInt i # ap'" "render fmt ap' = Some r"
        "out = hex_bytes (d = 0x78) (unat i) @ r" by (auto split: list.splits va_arg.splits)
    with step(4) [of "uart_printf hw fmt ap'" r i "if d = 0x78 then 1 else 0"] IH(5) hex tx
    show ?thesis by (elim disjE) (simp_all add: fun_eq_iff emits_def)
  next
    case other
    then have "uart_printf hw (c # d # fmt) ap = uart_printf hw fmt ap" by (intro ext) simp
    with ren IH(6) other tx show ?thesis by simp
  qed
qed

lemma render_append:
  "0x25 \<notin> set l \<Longrightarrow> render (l @ fmt) ap = map_option ((@) l) (render fmt ap)"
proof (induction l)
  case Nil
  then show ?case by (simp add: option.map_id0 [unfolded id_def])
next
  case (Cons c l)
  then show ?case by (cases "l @ fmt") (auto simp: option.map_comp comp_def)
qed

lemma render_decimal_line:
  assumes "0x25 \<notin> set l" "0x25 \<notin> set r"
  shows "render (l @ 0x25 # 0x64 # r) [VInt v] = Some (l @ decimal (unat v) @ r)"
  using assms render_append [of r "[]" "[]"] by (simp add: render_append)

lemma uart_printf_undefined: "render fmt ap = None \<Longrightarrow> uart_printf hw fmt ap h = None"
proof (induction fmt ap arbitrary: h rule: render.induct)
  case (3 c d fmt ap)
  have bind_None: "(\<And>h. f h = None) \<Longrightarrow> Option.bind m f = None" for m and f :: "bus \<Rightarrow> bus option"
    by (cases m) auto
  from 3 show ?case
    by (auto split: list.splits va_arg.splits if_splits intro!: bind_None)
qed (auto split: if_splits)


subsection \<open>Properties\<close>

text \<open>
  C20. On a transmitter that drains, \<open>uart_printf\<close> returns exactly when the arguments fit the format,
  and then it has sent the rendered text and nothing else; when they do not fit, it has no defined
  result.
\<close>

theorem uart_printf_renders:
  assumes "tx_drains hw"
  shows "case render fmt ap of
      None \<Rightarrow> uart_printf hw fmt ap h = None
    | Some out \<Rightarrow> (\<exists>h'. uart_printf hw fmt ap h = Some h' \<and> tx_bytes h' = tx_bytes h @ out)"
proof (cases "render fmt ap")
  case None
  then show ?thesis by (simp add: uart_printf_undefined)
next
  case (Some out)
  with assms have "emits (uart_printf hw fmt ap) out" by (rule emits_uart_printf)
  then obtain h' where "uart_printf hw fmt ap h = Some h'" "tx_bytes h' = tx_bytes h @ out"
    by (rule emitsD)
  with Some show ?thesis by simp
qed

theorem uart_printf_renders_witness:
  "tx_drains (hw_fixed (\<lambda>a. 4)) \<and>
   (\<exists>h'. uart_printf (hw_fixed (\<lambda>a. 4)) (bytes_of ''ret = %d'') [VInt 42] [] = Some h' \<and>
         tx_bytes h' = bytes_of ''ret = 42'')"
proof -
  have ok: "tx_drains (hw_fixed (\<lambda>a. 4))" by (simp add: tx_drains_def hw_fixed_responsive)
  have "render (bytes_of ''ret = %d'') [VInt 42] = Some (bytes_of ''ret = 42'')"
    by (simp add: bytes_of_def decimal.simps [of 42] decimal.simps [of 4])
  with ok uart_printf_renders [OF ok, of "bytes_of ''ret = %d''" "[VInt 42]" "[]"]
  show ?thesis by (simp add: tx_bytes_def)
qed

text \<open>
  \<open>put_int\<close> never overruns its array of ten digits, returns, and sends a decimal numeral without
  leading zeros that reads back as the number.
\<close>

theorem put_int_readback:
  assumes "tx_drains hw"
  shows "\<exists>h' out. put_int hw v h = Some h' \<and> tx_bytes h' = tx_bytes h @ out \<and>
    dec_value out = unat v \<and> (hd out = 0x30 \<longrightarrow> out = [0x30]) \<and> length out \<le> 10"
proof -
  from emits_put_int [OF assms, of v] obtain h' where
    "put_int hw v h = Some h'" "tx_bytes h' = tx_bytes h @ decimal (unat v)" by (rule emitsD)
  moreover have "hd (decimal (unat v)) = 0x30 \<longrightarrow> decimal (unat v) = [0x30]"
    using decimal_no_leading_zero [of "unat v"] by (auto simp: decimal.simps [of 0])
  moreover have "length (decimal (unat v)) \<le> 10"
    using decimal_length [of "unat v" 9] unat_u32_less [of v] by simp
  ultimately show ?thesis using dec_value_decimal by blast
qed

theorem put_int_readback_witness:
  "tx_drains (hw_fixed (\<lambda>a. 4)) \<and>
   (\<exists>h' out. put_int (hw_fixed (\<lambda>a. 4)) 4294967295 [] = Some h' \<and> tx_bytes h' = out \<and>
     dec_value out = 4294967295 \<and> length out \<le> 10)"
proof -
  have ok: "tx_drains (hw_fixed (\<lambda>a. 4))" by (simp add: tx_drains_def hw_fixed_responsive)
  from put_int_readback [OF ok, of 4294967295 "[]"] show ?thesis
    using ok by (auto simp: tx_bytes_def)
qed

text \<open>
  \<open>put_int_hex\<close> returns and sends an even number of at most eight hexadecimal digits, in the case
  asked for, that read back as the number.
\<close>

theorem put_int_hex_readback:
  assumes "tx_drains hw"
  shows "\<exists>h' out. put_int_hex hw v small h = Some h' \<and> tx_bytes h' = tx_bytes h @ out \<and>
    hex_value out = unat v \<and> even (length out) \<and> length out \<le> 8"
proof -
  from emits_put_int_hex [OF assms, of v small] obtain h' where
    "put_int_hex hw v small h = Some h'" "tx_bytes h' = tx_bytes h @ hex_bytes (small \<noteq> 0) (unat v)"
    by (rule emitsD)
  moreover have "even (length (hex_bytes (small \<noteq> 0) (unat v))) \<and>
      length (hex_bytes (small \<noteq> 0) (unat v)) \<le> 8"
    using hex_bytes_length [of "unat v" 3 "small \<noteq> 0"] unat_u32_less [of v] by simp
  ultimately show ?thesis using hex_value_hex_bytes by blast
qed

theorem put_int_hex_readback_witness:
  "tx_drains (hw_fixed (\<lambda>a. 4)) \<and>
   (\<exists>h' out. put_int_hex (hw_fixed (\<lambda>a. 4)) 0x20000000 0 [] = Some h' \<and> tx_bytes h' = out \<and>
     hex_value out = 0x20000000 \<and> length out \<le> 8)"
proof -
  have ok: "tx_drains (hw_fixed (\<lambda>a. 4))" by (simp add: tx_drains_def hw_fixed_responsive)
  from put_int_hex_readback [OF ok, of "0x20000000" 0 "[]"] show ?thesis
    using ok by (auto simp: tx_bytes_def)
qed

end
