(* ===== verification/Spl_Clock.thy ===== *)
theory Spl_Clock
  imports Spl_Uart
begin

text \<open>
  The small drivers of the loader: the LEDs (\<^verbatim>\<open>spl/led.c\<close>), the millisecond timer
  (\<^verbatim>\<open>spl/tim4.c\<close>) and the clock report (\<^verbatim>\<open>spl/clock_c.c\<close>). The report is shown to print the PLL
  formulas of its comments for the divider settings where the program's power function computes a
  power, and the settings where it does not are characterised.
\<close>

unbundle bit_operations_syntax

subsection \<open>LEDs\<close>

abbreviation GPH2CON :: u32 where "GPH2CON \<equiv> 0xE0200C40"
abbreviation GPH2DAT :: u32 where "GPH2DAT \<equiv> 0xE0200C44"

definition led_on :: "hw \<Rightarrow> bus \<Rightarrow> bus" where
  "led_on hw h =
     (let h = rmw hw GPH2CON (\<lambda>v. v AND push_bit 16 0xFFFF) h;
          h = rmw hw GPH2CON (\<lambda>v. v OR push_bit 16 0x1111) h
      in rmw hw GPH2DAT (\<lambda>v. v OR 0xFF) h)"

definition led_off :: "hw \<Rightarrow> bus \<Rightarrow> bus" where
  "led_off hw h =
     (let h = rmw hw GPH2CON (\<lambda>v. v AND push_bit 16 0xFFFF) h;
          h = rmw hw GPH2CON (\<lambda>v. v OR push_bit 16 0x1111) h
      in rmw hw GPH2DAT (\<lambda>v. v AND NOT 0xFF) h)"

definition led_inv :: "hw \<Rightarrow> bus \<Rightarrow> bus" where
  "led_inv hw h =
     (let h = rmw hw GPH2CON (\<lambda>v. v AND push_bit 16 0xFFFF) h;
          h = rmw hw GPH2CON (\<lambda>v. v OR push_bit 16 0x1111) h
      in rmw hw GPH2DAT (\<lambda>v. v XOR 0xFF) h)"

text \<open>The delays between the two calls only count local variables.\<close>

fun led_init_loop :: "hw \<Rightarrow> nat \<Rightarrow> bus \<Rightarrow> bus" where
  "led_init_loop hw 0 h = h"
| "led_init_loop hw (Suc count) h = led_init_loop hw count (led_off hw (led_on hw h))"

definition led_init :: "hw \<Rightarrow> bus \<Rightarrow> bus" where
  "led_init hw h = led_init_loop hw 5 h"

subsection \<open>Timer 4\<close>

abbreviation TCFG0 :: u32 where "TCFG0 \<equiv> 0xE2500000"
abbreviation TCFG1 :: u32 where "TCFG1 \<equiv> 0xE2500004"
abbreviation TCON :: u32 where "TCON \<equiv> 0xE2500008"
abbreviation TCNTB4 :: u32 where "TCNTB4 \<equiv> 0xE250003C"
abbreviation TINT_CSTAT :: u32 where "TINT_CSTAT \<equiv> 0xE2500044"

text \<open>The counter \<open>g_counter\<close> is passed and returned beside the bus.\<close>

definition tim4_poll :: "hw \<Rightarrow> u32 \<Rightarrow> bus \<Rightarrow> u32 \<times> bus" where
  "tim4_poll hw g_counter h =
     (let (v, h) = rd hw TINT_CSTAT h in
      if v AND push_bit 9 1 \<noteq> 0
      then (g_counter + 10, rmw hw TINT_CSTAT (\<lambda>v. v OR push_bit 9 1) h)
      else (g_counter, h))"

definition tim4_init :: "hw \<Rightarrow> u32 \<Rightarrow> bus \<Rightarrow> u32 \<times> bus" where
  "tim4_init hw g_counter h =
     (let g_counter = 0;
          h = rmw hw TCFG0 (\<lambda>v. v AND NOT (push_bit 8 0xFF)) h;
          h = rmw hw TCFG0 (\<lambda>v. v OR push_bit 8 65) h;
          h = rmw hw TCFG1 (\<lambda>v. v AND NOT (push_bit 16 0xF)) h;
          h = rmw hw TCFG1 (\<lambda>v. v OR push_bit 16 0x2) h;
          h = wr TCNTB4 2500 h;
          h = rmw hw TCON (\<lambda>v. v OR push_bit 21 0x1) h;
          h = rmw hw TCON (\<lambda>v. v AND NOT (push_bit 20 0x7)) h;
          h = rmw hw TCON (\<lambda>v. v OR push_bit 22 0x1) h;
          h = rmw hw TCON (\<lambda>v. v OR push_bit 20 1) h;
          h = rmw hw TINT_CSTAT (\<lambda>v. v AND NOT (push_bit 4 1)) h;
          h = rmw hw TINT_CSTAT (\<lambda>v. v OR push_bit 9 1) h;
          h = rmw hw TCON (\<lambda>v. v OR push_bit 20 1) h
      in (g_counter, h))"

subsection \<open>Clock report\<close>

abbreviation APLL_CON0 :: u32 where "APLL_CON0 \<equiv> 0xE0100100"
abbreviation MPLL_CON :: u32 where "MPLL_CON \<equiv> 0xE0100108"
abbreviation EPLL_CON0 :: u32 where "EPLL_CON0 \<equiv> 0xE0100110"
abbreviation EPLL_CON1 :: u32 where "EPLL_CON1 \<equiv> 0xE0100114"
abbreviation VPLL_CON :: u32 where "VPLL_CON \<equiv> 0xE0100120"
abbreviation CLK_SRC0 :: u32 where "CLK_SRC0 \<equiv> 0xE0100200"
abbreviation CLK_DIV0 :: u32 where "CLK_DIV0 \<equiv> 0xE0100300"

fun pow_loop :: "u32 \<Rightarrow> nat \<Rightarrow> u32" where
  "pow_loop x 0 = x"
| "pow_loop x (Suc y) = pow_loop (x * x) y"

definition pow_u32 :: "u32 \<Rightarrow> u8 \<Rightarrow> u32" where
  "pow_u32 x y = (if y = 0 then 1 else pow_loop x (unat (y - 1)))"

text \<open>A division whose divisor is zero has no defined result.\<close>

definition div_u32 :: "u32 \<Rightarrow> u32 \<Rightarrow> u32 option" where
  "div_u32 a b = (if b = 0 then None else Some (a div b))"

definition clk_ratio :: "hw \<Rightarrow> nat \<Rightarrow> bus \<Rightarrow> u8 \<times> bus" where
  "clk_ratio hw k h = (let (v, h) = rd hw CLK_DIV0 h in (ucast (drop_bit k v AND 0x7), h))"

definition sclkapll :: "hw \<Rightarrow> bus \<Rightarrow> (u32 \<times> bus) option" where
  "sclkapll hw h = (let (src, h) = rd hw CLK_SRC0 h in
     if src AND 0x1 \<noteq> 0 then do {
       let (v, h) = rd hw APLL_CON0 h;
       let p = (ucast (drop_bit 8 v AND 0x3F) :: u16);
       let (v, h) = rd hw APLL_CON0 h;
       let m = (ucast (drop_bit 16 v AND 0x3FF) :: u16);
       let (v, h) = rd hw APLL_CON0 h;
       let s = (ucast (drop_bit 0 v AND 0x7) :: u16);
       f \<leftarrow> div_u32 (ucast m * 24) (ucast p * pow_u32 2 (ucast (s - 1)));
       Some (f, h)
     }
     else Some (24, h))"

definition sclkmpll :: "hw \<Rightarrow> bus \<Rightarrow> (u32 \<times> bus) option" where
  "sclkmpll hw h = (let (src, h) = rd hw CLK_SRC0 h in
     if src AND push_bit 4 1 \<noteq> 0 then do {
       let (v, h) = rd hw MPLL_CON h;
       let p = (ucast (drop_bit 8 v AND 0x3F) :: u16);
       let (v, h) = rd hw MPLL_CON h;
       let m = (ucast (drop_bit 16 v AND 0x3FF) :: u16);
       let (v, h) = rd hw MPLL_CON h;
       let s = (ucast (drop_bit 0 v AND 0x7) :: u16);
       f \<leftarrow> div_u32 (ucast m * 24) (ucast p * pow_u32 2 (ucast s));
       Some (f, h)
     }
     else Some (24, h))"

definition sclkepll :: "hw \<Rightarrow> bus \<Rightarrow> (u32 \<times> bus) option" where
  "sclkepll hw h = (let (src, h) = rd hw CLK_SRC0 h in
     if src AND push_bit 8 1 \<noteq> 0 then do {
       let (v, h) = rd hw EPLL_CON0 h;
       let p = (ucast (drop_bit 8 v AND 0x3F) :: u16);
       let (v, h) = rd hw EPLL_CON0 h;
       let m = (ucast (drop_bit 16 v AND 0x1FF) :: u16);
       let (v, h) = rd hw EPLL_CON0 h;
       let s = (ucast (drop_bit 0 v AND 0x7) :: u16);
       let (v, h) = rd hw EPLL_CON1 h;
       let k = (ucast v :: u16);
       f \<leftarrow> div_u32 ((ucast m + ucast k div 65536) * 24) (ucast p * pow_u32 2 (ucast s));
       Some (f, h)
     }
     else Some (24, h))"

definition sclkvpll :: "hw \<Rightarrow> bus \<Rightarrow> (u32 \<times> bus) option" where
  "sclkvpll hw h = (let (src, h) = rd hw CLK_SRC0 h in
     if src AND push_bit 12 1 \<noteq> 0 then do {
       let (v, h) = rd hw VPLL_CON h;
       let p = (ucast (drop_bit 8 v AND 0x3F) :: u16);
       let (v, h) = rd hw VPLL_CON h;
       let m = (ucast (drop_bit 16 v AND 0x1FF) :: u16);
       let (v, h) = rd hw VPLL_CON h;
       let s = (ucast (drop_bit 0 v AND 0x7) :: u16);
       f \<leftarrow> div_u32 (ucast m * 24) (ucast p * pow_u32 2 (ucast s));
       Some (f, h)
     }
     else Some (24, h))"

definition TAB :: string where "TAB = [CHR 0x09]"
definition CRLF :: string where "CRLF = [CHR 0x0D, CHR 0x0A]"

definition print_clock :: "hw \<Rightarrow> bus \<Rightarrow> bus option" where
  "print_clock hw h = do {
     let (APLL_RATIO, h) = clk_ratio hw 0 h;
     let (A2M_RATIO, h) = clk_ratio hw 4 h;
     let (HCLK_MSYS_RATIO, h) = clk_ratio hw 8 h;
     let (PCLK_MSYS_RATIO, h) = clk_ratio hw 12 h;
     let (HCLK_DSYS_RATIO, h) = clk_ratio hw 16 h;
     let (PCLK_DSYS_RATIO, h) = clk_ratio hw 20 h;
     let (HCLK_PSYS_RATIO, h) = clk_ratio hw 24 h;
     let (PCLK_PSYS_RATIO, h) = clk_ratio hw 28 h;
     (SCLKAPLL, h) \<leftarrow> sclkapll hw h;
     (SCLKMPLL, h) \<leftarrow> sclkmpll hw h;
     (SCLKEPLL, h) \<leftarrow> sclkepll hw h;
     (SCLKVPLL, h) \<leftarrow> sclkvpll hw h;
     let (src, h) = rd hw CLK_SRC0 h;
     let MOUT_MSYS = (if src AND push_bit 16 1 \<noteq> 0 then SCLKMPLL else SCLKAPLL);
     let (src, h) = rd hw CLK_SRC0 h;
     let MOUT_DSYS = (if src AND push_bit 20 1 \<noteq> 0
                      then SCLKAPLL div (ucast A2M_RATIO + 1) else SCLKMPLL);
     let (src, h) = rd hw CLK_SRC0 h;
     let MOUT_PSYS = (if src AND push_bit 24 1 \<noteq> 0
                      then SCLKAPLL div (ucast A2M_RATIO + 1) else SCLKMPLL);
     let t = MOUT_MSYS div (ucast APLL_RATIO + 1);
     h \<leftarrow> uart_printf hw (bytes_of (''ARMCLK '' @ TAB @ TAB @ ''= %d MHz'' @ CRLF)) [VInt t] h;
     h \<leftarrow> uart_printf hw (bytes_of (''SCLKA2M '' @ TAB @ ''= %d MHz'' @ CRLF))
            [VInt (SCLKAPLL div (ucast A2M_RATIO + 1))] h;
     let t = t div (ucast HCLK_MSYS_RATIO + 1);
     h \<leftarrow> uart_printf hw (bytes_of (''HCLK_MSYS '' @ TAB @ ''= %d MHz'' @ CRLF)) [VInt t] h;
     let t = t div (ucast PCLK_MSYS_RATIO + 1);
     h \<leftarrow> uart_printf hw (bytes_of (''PCLK_MSYS '' @ TAB @ ''= %d MHz'' @ CRLF)) [VInt t] h;
     let t = MOUT_DSYS div (ucast HCLK_DSYS_RATIO + 1);
     h \<leftarrow> uart_printf hw (bytes_of (''HCLK_DSYS '' @ TAB @ ''= %d MHz'' @ CRLF)) [VInt t] h;
     let t = t div (ucast PCLK_DSYS_RATIO + 1);
     h \<leftarrow> uart_printf hw (bytes_of (''PCLK_DSYS '' @ TAB @ ''= %d MHz'' @ CRLF)) [VInt t] h;
     let t = MOUT_PSYS div (ucast HCLK_PSYS_RATIO + 1);
     h \<leftarrow> uart_printf hw (bytes_of (''HCLK_PSYS'' @ TAB @ ''= %d MHz'' @ CRLF)) [VInt t] h;
     h \<leftarrow> uart_printf hw (bytes_of (''PCLK_PSYS '' @ TAB @ ''= %d MHz'' @ CRLF))
            [VInt (t div (ucast PCLK_PSYS_RATIO + 1))] h;
     h \<leftarrow> uart_printf hw (bytes_of (''SCLKEPLL '' @ TAB @ ''= %d MHz'' @ CRLF)) [VInt SCLKEPLL] h;
     h \<leftarrow> uart_printf hw (bytes_of (''SCLKVPLL '' @ TAB @ ''= %d MHz'' @ CRLF)) [VInt SCLKVPLL] h;
     uart_printf hw (bytes_of CRLF) [] h
   }"


subsection \<open>Powers and PLL frequencies\<close>

lemma pow_loop_eq: "pow_loop x n = x ^ 2 ^ n"
  by (induction n arbitrary: x) (simp_all add: power2_eq_square [symmetric] power_mult [symmetric])

lemma pow_u32_eq: "y \<noteq> 0 \<Longrightarrow> pow_u32 x y = x ^ 2 ^ (unat y - 1)"
  by (simp add: pow_u32_def pow_loop_eq unat_minus_one)

lemma pow_u32_small [simp]: "pow_u32 2 0 = 1" "pow_u32 2 1 = 2" "pow_u32 2 2 = 4"
  by (simp_all add: pow_u32_def numeral_2_eq_2)

text \<open>Register fields of a PLL control register.\<close>

definition MDIV :: "u32 \<Rightarrow> u32 \<Rightarrow> u32" where "MDIV msk v = drop_bit 16 v AND msk"
definition PDIV :: "u32 \<Rightarrow> u32" where "PDIV v = drop_bit 8 v AND 0x3F"
definition SDIV :: "u32 \<Rightarrow> u32" where "SDIV v = v AND 0x7"

lemma ucast_u16_u32_id: "unat w < 65536 \<Longrightarrow> ucast (ucast (w :: u32) :: u16) = w"
  by (simp add: word_unat_eq_iff unsigned_ucast_eq unsigned_take_bit_eq take_bit_nat_eq_self)

lemma unat_and_le: "unat (w AND m) \<le> unat (m :: 'a::len word)"
  by (rule word_and_le1 [THEN word_le_nat_alt [THEN iffD1]])

lemma pll_fields:
  "ucast (ucast (drop_bit 8 v AND 0x3F) :: u16) = PDIV v"
  "ucast (ucast (drop_bit 16 v AND 0x3FF) :: u16) = MDIV 0x3FF v"
  "ucast (ucast (drop_bit 16 v AND 0x1FF) :: u16) = MDIV 0x1FF v"
  using unat_and_le [of "drop_bit 8 v" "0x3F"] unat_and_le [of "drop_bit 16 v" "0x3FF"]
    unat_and_le [of "drop_bit 16 v" "0x1FF"]
  by (simp_all add: PDIV_def MDIV_def ucast_u16_u32_id)

lemma field_bounds: "unat (PDIV v) < 64" "unat (MDIV 0x3FF v) < 1024" "unat (MDIV 0x1FF v) < 1024"
  using unat_and_le [of "drop_bit 8 v" "0x3F"] unat_and_le [of "drop_bit 16 v" "0x3FF"]
    unat_and_le [of "drop_bit 16 v" "0x1FF"]
  by (simp_all add: PDIV_def MDIV_def)

lemma div_u32_pll:
  assumes "unat m < 1024" "p \<noteq> 0" "unat p < 64" "k \<in> {1, 2, 4}"
  shows "\<exists>f. div_u32 (m * 24) (p * k) = Some f \<and> unat f = unat m * 24 div (unat p * unat k)"
proof -
  have "unat (m * 24) = unat m * 24" using assms(1) by (simp add: unat_word_ariths)
  moreover have "unat (p * k) = unat p * unat k" using assms(3,4) by (auto simp: unat_word_ariths)
  moreover have "unat p * unat k \<noteq> 0" using assms(2,4) by (auto simp: word_eq_0_unat)
  ultimately show ?thesis by (auto simp: div_u32_def unat_div word_eq_0_unat)
qed

lemma pow_u32_sdiv:
  assumes "SDIV v \<in> {0, 1, 2}"
  shows "pow_u32 2 (ucast (ucast (SDIV v) :: u16)) \<in> {1, 2, 4}"
    and "unat (pow_u32 2 (ucast (ucast (SDIV v) :: u16))) = 2 ^ unat (SDIV v)"
  using assms by auto

lemma pow_u32_sdiv_minus_1:
  assumes "SDIV v \<in> {1, 2, 3}"
  shows "pow_u32 2 (ucast ((ucast (SDIV v) :: u16) - 1)) \<in> {1, 2, 4}"
    and "unat (pow_u32 2 (ucast ((ucast (SDIV v) :: u16) - 1))) = 2 ^ (unat (SDIV v) - 1)"
  using assms by auto

definition yields :: "(u32 \<times> bus) option \<Rightarrow> nat \<Rightarrow> bool" where
  "yields r n \<longleftrightarrow> (\<exists>f h'. r = Some (f, h') \<and> unat f = n)"

lemma yields_div:
  assumes "unat m < 1024" "p \<noteq> 0" "unat p < 64" "k \<in> {1, 2, 4}" "unat k = j"
  shows "yields (Option.bind (div_u32 (m * 24) (p * k)) (\<lambda>f. Some (f, h))) (unat m * 24 div (unat p * j))"
  using div_u32_pll [OF assms(1-4)] assms(5) by (auto simp: yields_def)

lemmas pll_yields =
  yields_div [OF field_bounds(2) _ field_bounds(1) pow_u32_sdiv]
  yields_div [OF field_bounds(3) _ field_bounds(1) pow_u32_sdiv]
  yields_div [OF field_bounds(2) _ field_bounds(1) pow_u32_sdiv_minus_1]

lemmas pll_unfold = rd_def Let_def fixed_regD pll_fields SDIV_def [symmetric]

lemma ucast_div_65536: "(ucast (k :: u16) :: u32) div 65536 = 0"
  by (simp add: word_eq_0_unat unat_div unsigned_ucast_eq take_bit_eq_mod unat_u16_less
      less_trans [OF unat_u16_less])

text \<open>
  For a PLL that is selected and whose control register has a post divider the power function
  handles (SDIV at most 2; for the APLL, whose formula has SDIV - 1, from 1 to 3) the report computes
  the frequency of the formula in the comment, in MHz rounded down. The fractional part of the EPLL
  multiplier is not included.
\<close>

theorem pll_frequencies:
  assumes src: "fixed_reg hw CLK_SRC0 0x1111"
    and a: "fixed_reg hw APLL_CON0 a" "PDIV a \<noteq> 0" "SDIV a \<in> {1, 2, 3}"
    and m: "fixed_reg hw MPLL_CON m" "PDIV m \<noteq> 0" "SDIV m \<in> {0, 1, 2}"
    and e: "fixed_reg hw EPLL_CON0 e" "PDIV e \<noteq> 0" "SDIV e \<in> {0, 1, 2}"
    and v: "fixed_reg hw VPLL_CON v" "PDIV v \<noteq> 0" "SDIV v \<in> {0, 1, 2}"
  shows "yields (sclkapll hw h) (unat (MDIV 0x3FF a) * 24 div (unat (PDIV a) * 2 ^ (unat (SDIV a) - 1))) \<and>
    yields (sclkmpll hw h) (unat (MDIV 0x3FF m) * 24 div (unat (PDIV m) * 2 ^ unat (SDIV m))) \<and>
    yields (sclkepll hw h) (unat (MDIV 0x1FF e) * 24 div (unat (PDIV e) * 2 ^ unat (SDIV e))) \<and>
    yields (sclkvpll hw h) (unat (MDIV 0x1FF v) * 24 div (unat (PDIV v) * 2 ^ unat (SDIV v)))"
proof (intro conjI)
  show "yields (sclkapll hw h)
      (unat (MDIV 0x3FF a) * 24 div (unat (PDIV a) * 2 ^ (unat (SDIV a) - 1)))"
    unfolding sclkapll_def using pll_yields(3) [OF a(2,3,3)]
    by (simp add: pll_unfold fixed_regD [OF src] fixed_regD [OF a(1)])
  show "yields (sclkmpll hw h) (unat (MDIV 0x3FF m) * 24 div (unat (PDIV m) * 2 ^ unat (SDIV m)))"
    unfolding sclkmpll_def using pll_yields(1) [OF m(2,3,3)]
    by (simp add: pll_unfold fixed_regD [OF src] fixed_regD [OF m(1)])
  show "yields (sclkepll hw h) (unat (MDIV 0x1FF e) * 24 div (unat (PDIV e) * 2 ^ unat (SDIV e)))"
    unfolding sclkepll_def using pll_yields(2) [OF e(2,3,3)]
    by (simp add: pll_unfold fixed_regD [OF src] fixed_regD [OF e(1)] ucast_div_65536)
  show "yields (sclkvpll hw h) (unat (MDIV 0x1FF v) * 24 div (unat (PDIV v) * 2 ^ unat (SDIV v)))"
    unfolding sclkvpll_def using pll_yields(2) [OF v(2,3,3)]
    by (simp add: pll_unfold fixed_regD [OF src] fixed_regD [OF v(1)])
qed


text \<open>The PLL and divider settings that \<^verbatim>\<open>spl/clock.S\<close> programs before the report is printed.\<close>

definition board_clock_regs :: "u32 \<Rightarrow> u32" where
  "board_clock_regs a =
     (if a = CLK_SRC0 then 0x1111
      else if a = CLK_DIV0 then push_bit 4 4 OR push_bit 8 4 OR push_bit 12 1 OR push_bit 16 3
        OR push_bit 20 1 OR push_bit 24 4 OR push_bit 28 1
      else if a = APLL_CON0 then push_bit 8 3 OR push_bit 16 125 OR 1 OR push_bit 31 1
      else if a = MPLL_CON then push_bit 8 12 OR push_bit 16 667 OR 1 OR push_bit 31 1
      else if a = EPLL_CON0 then push_bit 8 3 OR push_bit 16 48 OR 2 OR push_bit 31 1
      else if a = VPLL_CON then push_bit 8 6 OR push_bit 16 108 OR 3 OR push_bit 31 1
      else if a = UTRSTAT2 then 4
      else 0)"

definition board_clocks :: "hw \<Rightarrow> bool" where
  "board_clocks hw \<longleftrightarrow> (\<forall>a \<in> {CLK_SRC0, CLK_DIV0, APLL_CON0, MPLL_CON, EPLL_CON0, EPLL_CON1, VPLL_CON}.
     fixed_reg hw a (board_clock_regs a))"

theorem pll_frequencies_witness:
  "let f = board_clock_regs(VPLL_CON := 0x006C0602); hw = hw_fixed f in
     yields (sclkapll hw []) 1000 \<and> yields (sclkmpll hw []) 667 \<and>
     yields (sclkepll hw []) 96 \<and> yields (sclkvpll hw []) 108"
  using pll_frequencies [of "hw_fixed (board_clock_regs(VPLL_CON := 0x006C0602))"
      "0x807D0301" "0x829B0C01" "0x80300302" "0x006C0602" "[]"]
  by (simp add: board_clock_regs_def PDIV_def SDIV_def MDIV_def)

lemma board_clocks_reg:
  assumes "board_clocks hw"
  shows "mmio hw h CLK_SRC0 = 0x1111" "mmio hw h CLK_DIV0 = 0x14131440"
    "mmio hw h APLL_CON0 = 0x807D0301" "mmio hw h MPLL_CON = 0x829B0C01"
    "mmio hw h EPLL_CON0 = 0x80300302" "mmio hw h VPLL_CON = 0x806C0603"
  using assms by (simp_all add: board_clocks_def fixed_reg_def board_clock_regs_def)

lemma board_pll_values:
  assumes "board_clocks hw"
  shows "\<exists>h'. sclkapll hw h = Some (1000, h') \<and> tx_bytes h' = tx_bytes h"
    "\<exists>h'. sclkmpll hw h = Some (667, h') \<and> tx_bytes h' = tx_bytes h"
    "\<exists>h'. sclkepll hw h = Some (96, h') \<and> tx_bytes h' = tx_bytes h"
    "\<exists>h'. sclkvpll hw h = Some (27, h') \<and> tx_bytes h' = tx_bytes h"
  by (simp_all add: sclkapll_def sclkmpll_def sclkepll_def sclkvpll_def rd_def Let_def tx_bytes_def
      board_clocks_reg [OF assms] div_u32_def ucast_div_65536 pow_u32_def pow_loop_eq)

definition mhz_line :: "string \<Rightarrow> nat \<Rightarrow> u8 list" where
  "mhz_line l n = bytes_of l @ decimal n @ bytes_of ('' MHz'' @ CRLF)"

lemma emits_mhz_line:
  assumes "tx_drains hw" "0x25 \<notin> set (bytes_of l)"
  shows "emits (uart_printf hw (bytes_of (l @ ''%d MHz'' @ CRLF)) [VInt v]) (mhz_line l (unat v))"
proof -
  from assms(2) have "render (bytes_of l @ 0x25 # 0x64 # bytes_of ('' MHz'' @ CRLF)) [VInt v] =
      Some (mhz_line l (unat v))"
    unfolding mhz_line_def by (rule render_decimal_line) (simp add: bytes_of_def CRLF_def)
  then show ?thesis
    using emits_uart_printf [OF assms(1)] by (simp add: bytes_of_def)
qed

lemma emits_CRLF: "tx_drains hw \<Longrightarrow> emits (uart_printf hw (bytes_of CRLF) []) (bytes_of CRLF)"
  by (rule emits_uart_printf) (simp_all add: bytes_of_def CRLF_def)

definition board_report :: "u8 list" where
  "board_report =
     mhz_line (''ARMCLK '' @ TAB @ TAB @ ''= '') 1000 @ mhz_line (''SCLKA2M '' @ TAB @ ''= '') 200 @
     mhz_line (''HCLK_MSYS '' @ TAB @ ''= '') 200 @ mhz_line (''PCLK_MSYS '' @ TAB @ ''= '') 100 @
     mhz_line (''HCLK_DSYS '' @ TAB @ ''= '') 166 @ mhz_line (''PCLK_DSYS '' @ TAB @ ''= '') 83 @
     mhz_line (''HCLK_PSYS'' @ TAB @ ''= '') 133 @ mhz_line (''PCLK_PSYS '' @ TAB @ ''= '') 66 @
     mhz_line (''SCLKEPLL '' @ TAB @ ''= '') 96 @ mhz_line (''SCLKVPLL '' @ TAB @ ''= '') 27 @
     bytes_of CRLF"

lemma emits_line:
  assumes "tx_drains hw" "0x25 \<notin> set (bytes_of l)" "fmt = bytes_of (l @ ''%d MHz'' @ CRLF)"
    "unat v = n" "emits g out"
  shows "emits (\<lambda>h. Option.bind (uart_printf hw fmt [VInt v] h) g) (mhz_line l n @ out)"
  using emits_bind [OF emits_mhz_line [OF assms(1,2), of v] assms(5)] assms(3,4) by simp

lemmas percent_free = bytes_of_def TAB_def

text \<open>
  With the clock settings the loader's start-up code programs, the report terminates and prints
  the frequencies below; they are the ones the comments of the start-up code announce except for the
  VPLL, reported at 27 MHz.
\<close>

theorem print_clock_board_report:
  assumes "tx_drains hw" "board_clocks hw"
  shows "\<exists>h'. print_clock hw h = Some h' \<and> tx_bytes h' = tx_bytes h @ board_report"
proof -
  note reg = board_clocks_reg [OF assms(2)] and pll = board_pll_values [OF assms(2)]
  let ?h0 = "foldr (\<lambda>k h. snd (clk_ratio hw k h)) [28, 24, 20, 16, 12, 8, 4, 0] h"
  have tx0: "tx_bytes ?h0 = tx_bytes h"
    by (simp add: clk_ratio_def rd_def Let_def tx_bytes_def)
  from pll(1) obtain h1 where h1: "sclkapll hw ?h0 = Some (1000, h1)" "tx_bytes h1 = tx_bytes ?h0" by blast
  from pll(2) obtain h2 where h2: "sclkmpll hw h1 = Some (667, h2)" "tx_bytes h2 = tx_bytes h1" by blast
  from pll(3) obtain h3 where h3: "sclkepll hw h2 = Some (96, h3)" "tx_bytes h3 = tx_bytes h2" by blast
  from pll(4) obtain h4 where h4: "sclkvpll hw h3 = Some (27, h4)" "tx_bytes h4 = tx_bytes h3" by blast
  let ?h5 = "snd (rd hw CLK_SRC0 (snd (rd hw CLK_SRC0 (snd (rd hw CLK_SRC0 h4)))))"
  have tx5: "tx_bytes ?h5 = tx_bytes h" using tx0 h1(2) h2(2) h3(2) h4(2)
    by (simp add: tx_bytes_def)
  define out where "out hw h = do {
     h \<leftarrow> uart_printf hw (bytes_of (''ARMCLK '' @ TAB @ TAB @ ''= %d MHz'' @ CRLF)) [VInt 1000] h;
     h \<leftarrow> uart_printf hw (bytes_of (''SCLKA2M '' @ TAB @ ''= %d MHz'' @ CRLF)) [VInt 200] h;
     h \<leftarrow> uart_printf hw (bytes_of (''HCLK_MSYS '' @ TAB @ ''= %d MHz'' @ CRLF)) [VInt 200] h;
     h \<leftarrow> uart_printf hw (bytes_of (''PCLK_MSYS '' @ TAB @ ''= %d MHz'' @ CRLF)) [VInt 100] h;
     h \<leftarrow> uart_printf hw (bytes_of (''HCLK_DSYS '' @ TAB @ ''= %d MHz'' @ CRLF)) [VInt 166] h;
     h \<leftarrow> uart_printf hw (bytes_of (''PCLK_DSYS '' @ TAB @ ''= %d MHz'' @ CRLF)) [VInt 83] h;
     h \<leftarrow> uart_printf hw (bytes_of (''HCLK_PSYS'' @ TAB @ ''= %d MHz'' @ CRLF)) [VInt 133] h;
     h \<leftarrow> uart_printf hw (bytes_of (''PCLK_PSYS '' @ TAB @ ''= %d MHz'' @ CRLF)) [VInt 66] h;
     h \<leftarrow> uart_printf hw (bytes_of (''SCLKEPLL '' @ TAB @ ''= %d MHz'' @ CRLF)) [VInt 96] h;
     h \<leftarrow> uart_printf hw (bytes_of (''SCLKVPLL '' @ TAB @ ''= %d MHz'' @ CRLF)) [VInt 27] h;
     uart_printf hw (bytes_of CRLF) [] h
   }" for hw :: hw and h
  have "print_clock hw h = out hw ?h5"
    unfolding print_clock_def out_def using h1(1) h2(1) h3(1) h4(1)
    by (simp add: clk_ratio_def rd_def Let_def reg)
  moreover have "emits (out hw) board_report"
    unfolding board_report_def out_def
    by (intro emits_line emits_CRLF assms(1)) (simp_all add: percent_free)
  ultimately show ?thesis using tx5 by (metis emitsD)
qed

theorem print_clock_board_report_witness:
  "tx_drains (hw_fixed board_clock_regs) \<and> board_clocks (hw_fixed board_clock_regs) \<and>
   (\<exists>h'. print_clock (hw_fixed board_clock_regs) [] = Some h' \<and> tx_bytes h' = board_report)"
proof -
  have "tx_drains (hw_fixed board_clock_regs)"
    by (simp add: tx_drains_def hw_fixed_responsive board_clock_regs_def)
  moreover have "board_clocks (hw_fixed board_clock_regs)"
    by (simp add: board_clocks_def)
  ultimately show ?thesis using print_clock_board_report [of "hw_fixed board_clock_regs" "[]"]
    by (simp add: tx_bytes_def)
qed

text \<open>
  Within the range of the 3-bit divider fields, the power function computes a power of two only
  up to the exponent 2: from 3 on it squares once too often.
\<close>

theorem pow_u32_power_iff:
  assumes "y \<le> 7"
  shows "pow_u32 2 y = 2 ^ unat y \<longleftrightarrow> y \<le> 2"
proof -
  have "unat y \<le> 7" using assms by (simp add: word_le_nat_alt)
  then have "unat y < 8" by simp
  then have "unat y \<in> {0, 1, 2, 3, 4, 5, 6, 7}" by (rule nat_less_8_cases)
  then have "y \<in> {0, 1, 2, 3, 4, 5, 6, 7}"
    by (simp add: word_unat_eq_iff)
  then show ?thesis
    by (elim insertE) (simp_all add: pow_u32_def pow_loop_eq)
qed

theorem pow_u32_power_iff_witness: "pow_u32 2 3 = 16 \<and> \<not> pow_u32 2 3 = 2 ^ 3"
  using pow_u32_power_iff [of 3] by (simp add: pow_u32_def pow_loop_eq)

text \<open>
  On timer registers that hold what is written to them, \<open>tim4_init\<close> starts timer 4 in
  auto-reload mode with the manual update bit cleared, and its period at the 66 MHz peripheral clock
  is the 10 ms that \<open>tim4_poll\<close> adds to the millisecond counter on each expiry; the counter restarts
  at 0 and other bits of the shared registers keep their values.
\<close>

theorem tim4_init_period:
  assumes "plain_reg hw TCFG0" "plain_reg hw TCFG1" "plain_reg hw TCON" "plain_reg hw TCNTB4"
  shows "let (g, h') = tim4_init hw g0 h;
           prescaler = drop_bit 8 (mmio hw h' TCFG0) AND 0xFF;
           mux = drop_bit 16 (mmio hw h' TCFG1) AND 0xF;
           con = mmio hw h' TCON
         in g = 0 \<and> (unat prescaler + 1) * 2 ^ unat mux * unat (mmio hw h' TCNTB4) * 1000 = 10 * 66000000 \<and>
            bit con 20 \<and> \<not> bit con 21 \<and> bit con 22 \<and>
            con AND NOT (push_bit 20 7) = mmio hw h TCON AND NOT (push_bit 20 7) \<and>
            mmio hw h' TCFG0 AND NOT 0xFF00 = mmio hw h TCFG0 AND NOT 0xFF00 \<and>
            mmio hw h' TCFG1 AND NOT 0xF0000 = mmio hw h TCFG1 AND NOT 0xF0000"
proof -
  define h' where "h' = snd (tim4_init hw g0 h)"
  note unf = h'_def tim4_init_def Let_def
  have cfg0: "mmio hw h' TCFG0 = (mmio hw h TCFG0 AND NOT (push_bit 8 0xFF)) OR push_bit 8 65"
    by (simp add: unf plain_reg_ops [OF assms(1)])
  have cfg1: "mmio hw h' TCFG1 = (mmio hw h TCFG1 AND NOT (push_bit 16 0xF)) OR push_bit 16 2"
    by (simp add: unf plain_reg_ops [OF assms(2)])
  have con: "mmio hw h' TCON = ((mmio hw h TCON OR push_bit 21 1) AND NOT (push_bit 20 7)) OR push_bit 20 5"
    by (simp add: unf plain_reg_ops [OF assms(3)] or.assoc)
  have cnt: "mmio hw h' TCNTB4 = 2500"
    by (simp add: unf plain_reg_ops [OF assms(4)])
  have m: "(0xFF :: u32) = mask 8" "(0xF :: u32) = mask 4" "(7 :: u32) = mask 3"
    by (simp_all add: mask_eq_exp_minus_1)
  have "mmio hw h' TCFG0 = set_field 8 8 65 (mmio hw h TCFG0)"
    unfolding cfg0 set_field_def m ..
  then have f0: "drop_bit 8 (mmio hw h' TCFG0) AND 0xFF = 65"
      "mmio hw h' TCFG0 AND NOT 0xFF00 = mmio hw h TCFG0 AND NOT 0xFF00"
    using set_field_get [of 8 8 "65 :: u32" "mmio hw h TCFG0"]
      set_field_other [of "65 :: u32" 8 8 "mmio hw h TCFG0"]
    by (simp_all add: mask_eq_exp_minus_1)
  have "mmio hw h' TCFG1 = set_field 16 4 2 (mmio hw h TCFG1)"
    unfolding cfg1 set_field_def m ..
  then have f1: "drop_bit 16 (mmio hw h' TCFG1) AND 0xF = 2"
      "mmio hw h' TCFG1 AND NOT 0xF0000 = mmio hw h TCFG1 AND NOT 0xF0000"
    using set_field_get [of 16 4 "2 :: u32" "mmio hw h TCFG1"]
      set_field_other [of "2 :: u32" 4 16 "mmio hw h TCFG1"]
    by (simp_all add: mask_eq_exp_minus_1)
  have "mmio hw h' TCON = set_field 20 3 5 (mmio hw h TCON OR push_bit 21 1)"
    unfolding con set_field_def m ..
  then have f2: "drop_bit 20 (mmio hw h' TCON) AND 7 = 5"
      "mmio hw h' TCON AND NOT (push_bit 20 7) = (mmio hw h TCON OR push_bit 21 1) AND NOT (push_bit 20 7)"
    using set_field_get [of 20 3 "5 :: u32" "mmio hw h TCON OR push_bit 21 1"]
      set_field_other [of "5 :: u32" 3 20 "mmio hw h TCON OR push_bit 21 1"]
    by (simp_all add: mask_eq_exp_minus_1)
  have "(x OR push_bit 21 1) AND NOT (push_bit 20 7) = x AND NOT (push_bit 20 7)" for x :: u32
    by (simp add: bit.conj_disj_distrib2)
  with f2(2) have c2: "mmio hw h' TCON AND NOT (push_bit 20 7) = mmio hw h TCON AND NOT (push_bit 20 7)"
    by simp
  have "bit (mmio hw h' TCON) (20 + i) = bit (5 :: u32) i" if "i < 3" for i
  proof -
    have "bit (drop_bit 20 (mmio hw h' TCON) AND mask 3) i = bit (5 :: u32) i"
      using f2(1) by (simp only: m(3))
    with that show ?thesis by (simp add: bit_simps)
  qed
  from this [of 0] this [of 1] this [of 2]
  have "bit (mmio hw h' TCON) 20" "\<not> bit (mmio hw h' TCON) 21" "bit (mmio hw h' TCON) 22"
    by (simp_all add: bit_numeral_rec)
  moreover have "fst (tim4_init hw g0 h) = 0" by (simp add: tim4_init_def Let_def)
  ultimately show ?thesis using f0 f1 c2 cnt
    by (simp add: case_prod_unfold Let_def h'_def)
qed

theorem tim4_init_period_witness:
  "let (g, h') = tim4_init (hw_regs (\<lambda>a. 0)) 7 []
   in g = 0 \<and> bit (mmio (hw_regs (\<lambda>a. 0)) h' TCON) 20"
  using tim4_init_period [of "hw_regs (\<lambda>a. 0)" 7 "[]"]
  by (simp add: Let_def case_prod_unfold)

end
