(* ===== verification/Spl_Nand.thy ===== *)
theory Spl_Nand
  imports Hw_Bus
begin

text \<open>
  The NAND driver of the loader, \<^verbatim>\<open>board/samsung/smdkv210/spl/nand.c\<close>, over the S5PV210 NAND
  controller: command, address and data cycles, page program and page read with the 8-bit hardware
  ECC, block erase, and the call of the ROM page reader. A C buffer that a function fills is part of
  its result. The macro \<open>LOG\<close> of \<^verbatim>\<open>nand.h\<close> expands to nothing, so the log calls have no effect.
\<close>

unbundle bit_operations_syntax

abbreviation MP0_1CON :: u32 where "MP0_1CON \<equiv> 0xE02002E0"
abbreviation MP0_3CON :: u32 where "MP0_3CON \<equiv> 0xE0200320"
abbreviation MP0_6CON :: u32 where "MP0_6CON \<equiv> 0xE0200380"
abbreviation NFCONF :: u32 where "NFCONF \<equiv> 0xB0E00000"
abbreviation NFCONT :: u32 where "NFCONT \<equiv> 0xB0E00004"
abbreviation NFCMMD :: u32 where "NFCMMD \<equiv> 0xB0E00008"
abbreviation NFADDR :: u32 where "NFADDR \<equiv> 0xB0E0000C"
abbreviation NFDATA :: u32 where "NFDATA \<equiv> 0xB0E00010"
abbreviation NFSTAT :: u32 where "NFSTAT \<equiv> 0xB0E00028"
abbreviation NFECCPRGECC0 :: u32 where "NFECCPRGECC0 \<equiv> 0xB0E20090"
abbreviation NFECCPRGECC1 :: u32 where "NFECCPRGECC1 \<equiv> 0xB0E20094"
abbreviation NFECCPRGECC2 :: u32 where "NFECCPRGECC2 \<equiv> 0xB0E20098"
abbreviation NFECCPRGECC3 :: u32 where "NFECCPRGECC3 \<equiv> 0xB0E2009C"
abbreviation NFECCCONF :: u32 where "NFECCCONF \<equiv> 0xB0E20000"
abbreviation NFECCCONT :: u32 where "NFECCCONT \<equiv> 0xB0E20020"
abbreviation NFECCSTAT :: u32 where "NFECCSTAT \<equiv> 0xB0E20030"
abbreviation NFECCSECSTAT :: u32 where "NFECCSECSTAT \<equiv> 0xB0E20040"
abbreviation NFECCERL0 :: u32 where "NFECCERL0 \<equiv> 0xB0E200C0"
abbreviation NFECCERL1 :: u32 where "NFECCERL1 \<equiv> 0xB0E200C4"
abbreviation NFECCERL2 :: u32 where "NFECCERL2 \<equiv> 0xB0E200C8"
abbreviation NFECCERL3 :: u32 where "NFECCERL3 \<equiv> 0xB0E200CC"
abbreviation NFECCERP0 :: u32 where "NFECCERP0 \<equiv> 0xB0E200F0"
abbreviation NFECCERP1 :: u32 where "NFECCERP1 \<equiv> 0xB0E200F4"

abbreviation OOB_SIZE :: nat where "OOB_SIZE \<equiv> 64"
abbreviation PAGE_SIZE :: nat where "PAGE_SIZE \<equiv> 2048"
abbreviation PAGE_PER_BLK :: nat where "PAGE_PER_BLK \<equiv> 64"
abbreviation BLOCK_SIZE :: nat where "BLOCK_SIZE \<equiv> 131072"
abbreviation OOB_ECC_OFFSET :: nat where "OOB_ECC_OFFSET \<equiv> 12"
abbreviation ECC_SIZE :: nat where "ECC_SIZE \<equiv> 512"
abbreviation ECC_BYTES :: nat where "ECC_BYTES \<equiv> 13"

datatype ecc_mode = WRITE_ECC | READ_ECC

subsection \<open>Bus cycles\<close>

definition nand_wait_ready :: "hw \<Rightarrow> bus \<Rightarrow> bus option" where
  "nand_wait_ready hw h = poll hw NFSTAT (\<lambda>v. v AND push_bit 0 1 \<noteq> 0) h"

definition nand_select_chip :: "hw \<Rightarrow> bus \<Rightarrow> bus" where
  "nand_select_chip hw h = rmw hw NFCONT (\<lambda>v. v AND NOT (push_bit 1 1)) h"

definition nand_deselect_chip :: "hw \<Rightarrow> bus \<Rightarrow> bus" where
  "nand_deselect_chip hw h = rmw hw NFCONT (\<lambda>v. v OR push_bit 1 1) h"

definition nand_cmd :: "u32 \<Rightarrow> bus \<Rightarrow> bus" where
  "nand_cmd c h = wr NFCMMD c h"

definition nand_addr :: "u32 \<Rightarrow> bus \<Rightarrow> bus" where
  "nand_addr addr h =
     (let col = addr mod of_nat PAGE_SIZE;
          row = addr div of_nat PAGE_SIZE;
          h = wr NFADDR (col AND 0xFF) h;
          h = wr NFADDR (drop_bit 8 col AND 0xF) h;
          h = wr NFADDR (row AND 0xFF) h;
          h = wr NFADDR (drop_bit 8 row AND 0xFF) h
      in wr NFADDR (drop_bit 16 row AND 0x07) h)"

definition nand_read :: "hw \<Rightarrow> bus \<Rightarrow> u8 \<times> bus" where
  "nand_read hw h = (let (v, h) = rd hw NFDATA h in (ucast v, h))"

definition nand_write :: "u8 \<Rightarrow> bus \<Rightarrow> bus" where
  "nand_write d h = wr NFDATA (ucast d) h"

fun nand_read_buf :: "hw \<Rightarrow> nat \<Rightarrow> bus \<Rightarrow> u8 list \<times> bus" where
  "nand_read_buf hw 0 h = ([], h)"
| "nand_read_buf hw (Suc n) h =
     (let (v, h) = rd hw NFDATA h; (bs, h) = nand_read_buf hw n h in (ucast v # bs, h))"

fun nand_write_buf :: "u8 list \<Rightarrow> bus \<Rightarrow> bus" where
  "nand_write_buf [] h = h"
| "nand_write_buf (b # bs) h = nand_write_buf bs (wr NFDATA (ucast b) h)"

definition read_oob :: "hw \<Rightarrow> u32 \<Rightarrow> u32 \<Rightarrow> bus \<Rightarrow> (u8 list \<times> bus) option" where
  "read_oob hw addr sz h = do {
     let h = nand_cmd 0 h;
     let col = (of_nat PAGE_SIZE :: u32);
     let row = addr div of_nat PAGE_SIZE;
     let h = wr NFADDR (col AND 0xFF) h;
     let h = wr NFADDR (drop_bit 8 col AND 0xF) h;
     let h = wr NFADDR (row AND 0xFF) h;
     let h = wr NFADDR (drop_bit 8 row AND 0xFF) h;
     let h = wr NFADDR (drop_bit 16 row AND 0x07) h;
     let h = nand_cmd 0x30 h;
     h \<leftarrow> nand_wait_ready hw h;
     let len = (if sz > of_nat OOB_SIZE then of_nat OOB_SIZE else sz);
     Some (nand_read_buf hw (unat len) h)
   }"

fun read_random_loop :: "hw \<Rightarrow> u32 \<Rightarrow> nat \<Rightarrow> bus \<Rightarrow> u8 list \<times> bus" where
  "read_random_loop hw i 0 h = ([], h)"
| "read_random_loop hw i (Suc n) h =
     (let h = nand_cmd 0x05 h;
          h = wr NFADDR (i AND 0xFF) h;
          h = wr NFADDR (drop_bit 8 i AND 0xF) h;
          h = nand_cmd 0xE0 h;
          (b, h) = nand_read hw h;
          (bs, h) = read_random_loop hw (i + 1) n h
      in (b # bs, h))"

text \<open>
  The loop of \<open>read_random\<close> runs \<open>size\<close> times, or not at all when the end offset wraps around
  below the start.
\<close>

definition read_random :: "hw \<Rightarrow> u32 \<Rightarrow> u32 \<Rightarrow> bus \<Rightarrow> (u8 list \<times> bus) option" where
  "read_random hw addr sz h = do {
     let h = nand_cmd 0 h;
     let h = nand_addr addr h;
     let h = nand_cmd 0x30 h;
     h \<leftarrow> nand_wait_ready hw h;
     let col = addr mod of_nat PAGE_SIZE;
     Some (read_random_loop hw col (unat (sz + col) - unat col) h)
   }"

subsection \<open>Hardware ECC\<close>

definition nand_init_hwecc_8bit :: "hw \<Rightarrow> ecc_mode \<Rightarrow> bus \<Rightarrow> bus" where
  "nand_init_hwecc_8bit hw mode h =
     (let h = (if mode = READ_ECC
               then rmw hw NFECCSTAT (\<lambda>v. v OR push_bit 24 1)
                      (rmw hw NFECCCONT (\<lambda>v. v AND NOT (push_bit 16 0x1)) h)
               else rmw hw NFECCSTAT (\<lambda>v. v OR push_bit 25 1)
                      (rmw hw NFECCCONT (\<lambda>v. v OR push_bit 16 0x1) h));
          h = rmw hw NFCONT (\<lambda>v. v OR push_bit 5 1) h;
          h = wr NFECCCONF (push_bit 16 (of_nat ECC_SIZE - 1) OR push_bit 0 0x3) h;
          h = rmw hw NFECCCONT (\<lambda>v. v OR push_bit 2 0x1) h
      in rmw hw NFCONT (\<lambda>v. v AND NOT (push_bit 7 1)) h)"

definition nand_calculate_ecc_8bit :: "hw \<Rightarrow> ecc_mode \<Rightarrow> bus \<Rightarrow> (u8 list \<times> bus) option" where
  "nand_calculate_ecc_8bit hw mode h =
     (let h = rmw hw NFCONT (\<lambda>v. v OR push_bit 7 1) h in
      if mode = READ_ECC then do {
        h \<leftarrow> poll hw NFECCSTAT (\<lambda>v. v AND push_bit 24 1 \<noteq> 0) h;
        Some ([], h)
      }
      else do {
        h \<leftarrow> poll hw NFECCSTAT (\<lambda>v. v AND push_bit 25 1 \<noteq> 0) h;
        let (e0, h) = rd hw NFECCPRGECC0 h;
        let (e1, h) = rd hw NFECCPRGECC1 h;
        let (e2, h) = rd hw NFECCPRGECC2 h;
        let (e3, h) = rd hw NFECCPRGECC3 h;
        Some ([ucast (e0 AND 0xFF), ucast (drop_bit 8 e0 AND 0xFF),
               ucast (drop_bit 16 e0 AND 0xFF), ucast (drop_bit 24 e0 AND 0xFF),
               ucast (e1 AND 0xFF), ucast (drop_bit 8 e1 AND 0xFF),
               ucast (drop_bit 16 e1 AND 0xFF), ucast (drop_bit 24 e1 AND 0xFF),
               ucast (e2 AND 0xFF), ucast (drop_bit 8 e2 AND 0xFF),
               ucast (drop_bit 16 e2 AND 0xFF), ucast (drop_bit 24 e2 AND 0xFF),
               ucast (e3 AND 0xFF)], h)
      })"

text \<open>
  \<open>dat[i] ^= p\<close>, where \<open>dat\<close> points \<open>off\<close> bytes into the buffer; the case labels of the switch fall
  through, so error count \<open>n\<close> runs the corrections \<open>n\<close> down to 1.
\<close>

definition xor_at :: "nat \<Rightarrow> u32 \<Rightarrow> u32 \<Rightarrow> u8 list \<Rightarrow> u8 list option" where
  "xor_at off i p buf =
     (let j = off + unat (i AND 0x3FF) in
      if j < length buf then Some (buf[j := buf ! j XOR ucast (p AND 0xFF)]) else None)"

definition nand_correct_switch ::
  "nat \<Rightarrow> u32 \<Rightarrow> u32 \<Rightarrow> u32 \<Rightarrow> u32 \<Rightarrow> u32 \<Rightarrow> u32 \<Rightarrow> u32 \<Rightarrow> u8 list \<Rightarrow> u8 list option" where
  "nand_correct_switch off errNo erl0 erl1 erl2 erl3 erp0 erp1 buf = do {
     buf \<leftarrow> (if errNo \<ge> 8 then xor_at off (drop_bit 16 erl3) (drop_bit 24 erp1) buf else Some buf);
     buf \<leftarrow> (if errNo \<ge> 7 then xor_at off erl3 (drop_bit 16 erp1) buf else Some buf);
     buf \<leftarrow> (if errNo \<ge> 6 then xor_at off (drop_bit 16 erl2) (drop_bit 8 erp1) buf else Some buf);
     buf \<leftarrow> (if errNo \<ge> 5 then xor_at off erl2 erp1 buf else Some buf);
     buf \<leftarrow> (if errNo \<ge> 4 then xor_at off (drop_bit 16 erl1) (drop_bit 24 erp0) buf else Some buf);
     buf \<leftarrow> (if errNo \<ge> 3 then xor_at off erl1 (drop_bit 16 erp0) buf else Some buf);
     buf \<leftarrow> (if errNo \<ge> 2 then xor_at off (drop_bit 16 erl0) (drop_bit 8 erp0) buf else Some buf);
     buf \<leftarrow> (if errNo \<ge> 1 then xor_at off erl0 erp0 buf else Some buf);
     Some buf
   }"

definition nand_correct_data_8bit :: "hw \<Rightarrow> u8 list \<Rightarrow> nat \<Rightarrow> bus \<Rightarrow> (u32 \<times> u8 list \<times> bus) option" where
  "nand_correct_data_8bit hw buf off h = do {
     h \<leftarrow> poll hw NFECCSTAT (\<lambda>v. v AND push_bit 31 1 = 0) h;
     let (sec, h) = rd hw NFECCSECSTAT h;
     let errNo = sec AND 0x1F;
     let (erl0, h) = rd hw NFECCERL0 h;
     let (erl1, h) = rd hw NFECCERL1 h;
     let (erl2, h) = rd hw NFECCERL2 h;
     let (erl3, h) = rd hw NFECCERL3 h;
     let (erp0, h) = rd hw NFECCERP0 h;
     let (erp1, h) = rd hw NFECCERP1 h;
     if errNo > 8 then Some (-1, buf, h)
     else do {
       buf \<leftarrow> nand_correct_switch off errNo erl0 erl1 erl2 erl3 erp0 erp1 buf;
       Some (0, buf, h)
     }
   }"

subsection \<open>Operations\<close>

definition nand_reset :: "hw \<Rightarrow> bus \<Rightarrow> bus option" where
  "nand_reset hw h = do {
     let h = nand_select_chip hw h;
     let h = nand_cmd 0xFF h;
     h \<leftarrow> nand_wait_ready hw h;
     Some (nand_deselect_chip hw h)
   }"

definition nand_init :: "hw \<Rightarrow> bus \<Rightarrow> bus option" where
  "nand_init hw h =
     (let h = rmw hw MP0_1CON (\<lambda>v. v AND NOT (push_bit 8 0xFFFF)) h;
          h = rmw hw MP0_1CON (\<lambda>v. v OR push_bit 8 0x3333) h;
          h = wr MP0_3CON 0x22222222 h;
          h = wr MP0_6CON 0x22222222 h;
          h = wr NFCONF (push_bit 23 0x3 OR push_bit 12 0x3 OR push_bit 8 0x2 OR push_bit 4 0x1
                OR push_bit 3 0x0 OR push_bit 2 0x0 OR push_bit 1 0x1) h;
          h = wr NFCONT (push_bit 16 0x0 OR push_bit 1 0x1 OR push_bit 0 0x1) h
      in nand_reset hw h)"

fun nand_read_id_loop :: "hw \<Rightarrow> nat \<Rightarrow> bus \<Rightarrow> u8 list \<times> bus" where
  "nand_read_id_loop hw 0 h = ([], h)"
| "nand_read_id_loop hw (Suc n) h =
     (let (b, h) = nand_read hw h; (bs, h) = nand_read_id_loop hw n h in (b # bs, h))"

definition nand_read_id :: "hw \<Rightarrow> bus \<Rightarrow> u8 list \<times> bus" where
  "nand_read_id hw h =
     (let h = nand_select_chip hw h;
          h = nand_cmd 0x90 h;
          h = wr NFADDR 0x00 h;
          (id, h) = nand_read_id_loop hw 5 h
      in (id, nand_deselect_chip hw h))"

definition nand_erase :: "hw \<Rightarrow> u32 \<Rightarrow> bus \<Rightarrow> bus option" where
  "nand_erase hw addr h =
     (if addr AND (of_nat BLOCK_SIZE - 1) \<noteq> 0 then Some h
      else do {
        let row = addr div 2048;
        let h = nand_select_chip hw h;
        let h = nand_cmd 0x60 h;
        let h = wr NFADDR (row AND 0xFF) h;
        let h = wr NFADDR (drop_bit 8 row AND 0xFF) h;
        let h = wr NFADDR (drop_bit 16 row AND 0x07) h;
        let h = nand_cmd 0xD0 h;
        h \<leftarrow> nand_wait_ready hw h;
        Some (nand_deselect_chip hw h)
      })"

definition nand_read_random :: "hw \<Rightarrow> u32 \<Rightarrow> u32 \<Rightarrow> bus \<Rightarrow> (u8 list \<times> bus) option" where
  "nand_read_random hw addr sz h = do {
     let h = nand_select_chip hw h;
     (buf, h) \<leftarrow> read_random hw addr sz h;
     Some (buf, nand_deselect_chip hw h)
   }"

definition nand_read_oob :: "hw \<Rightarrow> u32 \<Rightarrow> u32 \<Rightarrow> bus \<Rightarrow> (u8 list \<times> bus) option" where
  "nand_read_oob hw addr sz h = do {
     let h = nand_select_chip hw h;
     (buf, h) \<leftarrow> read_oob hw addr sz h;
     Some (buf, nand_deselect_chip hw h)
   }"

text \<open>The buffers passed to the write operations are arrays of \<open>PAGE_SIZE\<close> and \<open>OOB_SIZE\<close> bytes.\<close>

definition nand_write_page :: "hw \<Rightarrow> u8 list \<Rightarrow> u32 \<Rightarrow> u8 list option \<Rightarrow> bus \<Rightarrow> bus option" where
  "nand_write_page hw buf addr oob h =
     (if addr AND (of_nat PAGE_SIZE - 1) \<noteq> 0 then Some h
      else do {
        let h = nand_select_chip hw h;
        let h = nand_cmd 0x80 h;
        let h = nand_addr addr h;
        h \<leftarrow> nand_wait_ready hw h;
        let h = nand_write_buf (take PAGE_SIZE buf) h;
        let h = (case oob of None \<Rightarrow> h | Some ob \<Rightarrow> nand_write_buf (take OOB_SIZE ob) h);
        let h = nand_cmd 0x10 h;
        h \<leftarrow> nand_wait_ready hw h;
        Some (nand_deselect_chip hw h)
      })"

text \<open>
  The write loop sends one ECC sector of \<open>buf\<close> per step and stores its code at offset
  \<open>OOB_ECC_OFFSET + i\<close> of \<open>oob\<close>.
\<close>

fun write_page_8bit_loop ::
  "hw \<Rightarrow> nat \<Rightarrow> nat \<Rightarrow> u8 list \<Rightarrow> u8 list \<Rightarrow> bus \<Rightarrow> (u8 list \<times> bus) option" where
  "write_page_8bit_loop hw 0 i buf oob h = Some (oob, h)"
| "write_page_8bit_loop hw (Suc eccsteps) i buf oob h = do {
     let h = nand_init_hwecc_8bit hw WRITE_ECC h;
     let h = nand_write_buf (take ECC_SIZE buf) h;
     (ecc, h) \<leftarrow> nand_calculate_ecc_8bit hw WRITE_ECC h;
     oob \<leftarrow> arr_blit oob (OOB_ECC_OFFSET + i) ecc;
     write_page_8bit_loop hw eccsteps (i + ECC_BYTES) (drop ECC_SIZE buf) oob h
   }"

definition nand_write_page_8bit :: "hw \<Rightarrow> u8 list \<Rightarrow> u32 \<Rightarrow> bus \<Rightarrow> bus option" where
  "nand_write_page_8bit hw buf addr h =
     (if addr AND (of_nat PAGE_SIZE - 1) \<noteq> 0 then Some h
      else do {
        let h = nand_select_chip hw h;
        let h = nand_cmd 0x80 h;
        let h = nand_addr addr h;
        h \<leftarrow> nand_wait_ready hw h;
        let eccsteps = PAGE_SIZE div ECC_SIZE;
        let oob = replicate OOB_SIZE 0xFF;
        (oob, h) \<leftarrow> write_page_8bit_loop hw eccsteps 0 buf oob h;
        let h = nand_write_buf oob h;
        let h = nand_cmd 0x10 h;
        h \<leftarrow> nand_wait_ready hw h;
        Some (nand_deselect_chip hw h)
      })"

text \<open>
  The read loop fills one ECC sector of \<open>buf\<close>, at offset \<open>col\<close>, per step, hands the stored code to the
  decoder and corrects the sector.
\<close>

fun read_page_8bit_loop ::
  "hw \<Rightarrow> nat \<Rightarrow> nat \<Rightarrow> nat \<Rightarrow> u8 list \<Rightarrow> u8 list \<Rightarrow> u32 \<Rightarrow> bus \<Rightarrow> (u32 \<times> u8 list \<times> bus) option" where
  "read_page_8bit_loop hw 0 i col buf oob err h = Some (err, buf, h)"
| "read_page_8bit_loop hw (Suc eccsteps) i col buf oob err h = do {
     let h = nand_cmd 0x05 h;
     let h = wr NFADDR (of_nat col AND 0xFF) h;
     let h = wr NFADDR (drop_bit 8 (of_nat col) AND 0xF) h;
     let h = nand_cmd 0xE0 h;
     let h = nand_init_hwecc_8bit hw READ_ECC h;
     let (bs, h) = nand_read_buf hw ECC_SIZE h;
     buf \<leftarrow> arr_blit buf col bs;
     let h = nand_write_buf (take ECC_BYTES (drop (OOB_ECC_OFFSET + i) oob)) h;
     (_, h) \<leftarrow> nand_calculate_ecc_8bit hw READ_ECC h;
     (r, buf, h) \<leftarrow> nand_correct_data_8bit hw buf col h;
     read_page_8bit_loop hw eccsteps (i + ECC_BYTES) (col + ECC_SIZE) buf oob
       (if sint r < 0 then err + 1 else err) h
   }"

definition nand_read_page_8bit :: "hw \<Rightarrow> u8 list \<Rightarrow> u32 \<Rightarrow> bus \<Rightarrow> (u32 \<times> u8 list \<times> bus) option" where
  "nand_read_page_8bit hw buf addr h =
     (if addr AND (of_nat PAGE_SIZE - 1) \<noteq> 0 then Some (-1, buf, h)
      else do {
        let h = nand_select_chip hw h;
        (oob, h) \<leftarrow> read_oob hw addr (of_nat OOB_SIZE) h;
        let h = nand_cmd 0 h;
        let h = nand_addr addr h;
        let h = nand_cmd 0x30 h;
        h \<leftarrow> nand_wait_ready hw h;
        let eccsteps = PAGE_SIZE div ECC_SIZE;
        (err, buf, h) \<leftarrow> read_page_8bit_loop hw eccsteps 0 0 buf oob 0 h;
        Some (err, buf, nand_deselect_chip hw h)
      })"

text \<open>
  The ROM reader is called with a block number and a page number and fills the buffer; what it
  returns and stores is decided by the hardware parameter.
\<close>

definition NF8_ReadPage_8ECC :: "hw \<Rightarrow> u32 \<Rightarrow> u8 list \<Rightarrow> bus \<Rightarrow> u32 \<times> u8 list \<times> bus" where
  "NF8_ReadPage_8ECC hw addr buf h =
     (if addr AND (of_nat PAGE_SIZE - 1) \<noteq> 0 then (-1, buf, h)
      else
        (let page = addr div of_nat PAGE_SIZE;
             b = page div of_nat PAGE_PER_BLK;
             p = page mod of_nat PAGE_PER_BLK;
             (ret, bs) = irom hw h b p
         in (ret, bs, Rom b p # h)))"

subsection \<open>Correction of a sector\<close>

text \<open>
  The error positions and patterns the decoder reports in its location and pattern registers,
  in the order the hardware numbers them.
\<close>

definition ecc_errors :: "u32 \<Rightarrow> u32 \<Rightarrow> u32 \<Rightarrow> u32 \<Rightarrow> u32 \<Rightarrow> u32 \<Rightarrow> (nat \<times> u8) list" where
  "ecc_errors erl0 erl1 erl2 erl3 erp0 erp1 =
     (let loc = (\<lambda>w. unat (w AND 0x3FF)); pat = (\<lambda>w. ucast (w AND 0xFF))
      in [(loc erl0, pat erp0), (loc (drop_bit 16 erl0), pat (drop_bit 8 erp0)),
          (loc erl1, pat (drop_bit 16 erp0)), (loc (drop_bit 16 erl1), pat (drop_bit 24 erp0)),
          (loc erl2, pat erp1), (loc (drop_bit 16 erl2), pat (drop_bit 8 erp1)),
          (loc erl3, pat (drop_bit 16 erp1)), (loc (drop_bit 16 erl3), pat (drop_bit 24 erp1))])"

definition flip :: "nat \<Rightarrow> nat \<times> u8 \<Rightarrow> u8 list \<Rightarrow> u8 list" where
  "flip off e buf = buf[off + fst e := buf ! (off + fst e) XOR snd e]"

lemma length_flip [simp]: "length (flip off e buf) = length buf"
  by (simp add: flip_def)

lemma flip_flip: "off + fst e < length buf \<Longrightarrow> flip off e (flip off e buf) = buf"
  by (simp add: flip_def xor.assoc)

lemma length_fold_flip [simp]: "length (fold (flip off) es buf) = length buf"
  by (induction es arbitrary: buf) auto

lemma fold_flip_rev:
  "\<forall>e \<in> set es. off + fst e < length buf \<Longrightarrow> fold (flip off) (rev es) (fold (flip off) es buf) = buf"
  by (induction es arbitrary: buf) (simp_all add: flip_flip)

lemma xor_at_flip:
  "off + unat (i AND 0x3FF) < length buf \<Longrightarrow>
   xor_at off i p buf = Some (flip off (unat (i AND 0x3FF), ucast (p AND 0xFF)) buf)"
  by (simp add: xor_at_def flip_def Let_def)

lemma nand_correct_switch_flips:
  assumes "unat errNo \<le> 8"
    and "\<forall>e \<in> set (take (unat errNo) (ecc_errors erl0 erl1 erl2 erl3 erp0 erp1)). off + fst e < length buf"
  shows "nand_correct_switch off errNo erl0 erl1 erl2 erl3 erp0 erp1 buf =
     Some (fold (flip off) (rev (take (unat errNo) (ecc_errors erl0 erl1 erl2 erl3 erp0 erp1))) buf)"
proof -
  from assms(1) have "unat errNo \<in> {0, 1, 2, 3, 4, 5, 6, 7, 8}" by auto
  then have "errNo \<in> {0, 1, 2, 3, 4, 5, 6, 7, 8 :: u32}" by (simp add: word_unat_eq_iff)
  then show ?thesis
    using assms(2) by (elim insertE) (simp_all add: nand_correct_switch_def ecc_errors_def Let_def xor_at_flip word_le_nat_alt)
qed

text \<open>
  C14. When the decoder reports at most eight errors of a sector, the driver undoes exactly the
  reported error patterns, so data that differs from the original by them is restored and the result
  is 0; when it reports more, the buffer is left as it is and the result is -1.
\<close>

theorem nand_correct_restores:
  assumes idle: "responsive hw NFECCSTAT (\<lambda>v. v AND push_bit 31 1 = 0)"
    and sec: "fixed_reg hw NFECCSECSTAT s"
    and loc: "fixed_reg hw NFECCERL0 l0" "fixed_reg hw NFECCERL1 l1"
      "fixed_reg hw NFECCERL2 l2" "fixed_reg hw NFECCERL3 l3"
    and pat: "fixed_reg hw NFECCERP0 p0" "fixed_reg hw NFECCERP1 p1"
    and es: "es = take (unat (s AND 0x1F)) (ecc_errors l0 l1 l2 l3 p0 p1)"
    and range: "\<forall>e \<in> set es. off + fst e < length orig"
  shows "\<exists>h'. nand_correct_data_8bit hw (fold (flip off) es orig) off h =
    (if unat (s AND 0x1F) \<le> 8 then Some (0, orig, h')
     else Some (-1, fold (flip off) es orig, h'))"
proof -
  from idle obtain m where
    poll: "poll hw NFECCSTAT (\<lambda>v. v AND push_bit 31 1 = 0) h = Some (idle_reads hw NFECCSTAT m h)"
    by (rule poll_returns)
  note reg = sec loc pat
  note unf = nand_correct_data_8bit_def poll [simplified] rd_def Let_def reg [THEN fixed_regD]
  show ?thesis
  proof (cases "unat (s AND 0x1F) \<le> 8")
    case True
    then have le: "\<not> s AND 0x1F > 8" by (simp add: word_less_nat_alt)
    from range es have "\<forall>e \<in> set (take (unat (s AND 0x1F)) (ecc_errors l0 l1 l2 l3 p0 p1)).
        off + fst e < length (fold (flip off) es orig)" by simp
    from nand_correct_switch_flips [OF True this] fold_flip_rev [of es off orig] range es le True
    show ?thesis by (simp add: unf)
  next
    case False
    then have "s AND 0x1F > 8" by (simp add: word_less_nat_alt)
    with False show ?thesis by (simp add: unf)
  qed
qed

theorem nand_correct_restores_witness:
  "let hw = hw_fixed (\<lambda>a. if a = NFECCSECSTAT then 2 else if a = NFECCERL0 then 0x00020000
       else if a = NFECCERP0 then 0x8001 else 0)
   in \<exists>h'. nand_correct_data_8bit hw [0xAB, 0xAA, 0x2A] 0 [] = Some (0, [0xAA, 0xAA, 0xAA], h')"
proof -
  let ?f = "\<lambda>a. if a = NFECCSECSTAT then 2 else if a = NFECCERL0 then 0x00020000
       else if a = NFECCERP0 then 0x8001 else 0 :: u32"
  have "\<exists>h'. nand_correct_data_8bit (hw_fixed ?f)
      (fold (flip 0) [(0, 1), (2, 0x80)] [0xAA, 0xAA, 0xAA]) 0 [] =
    (if unat (2 AND 0x1F :: u32) \<le> 8 then Some (0, [0xAA, 0xAA, 0xAA], h')
     else Some (-1, fold (flip 0) [(0, 1), (2, 0x80)] [0xAA, 0xAA, 0xAA], h'))"
    by (rule nand_correct_restores [where ?l0.0 = "0x00020000" and ?p0.0 = "0x8001"])
      (simp_all add: hw_fixed_responsive ecc_errors_def)
  then show ?thesis by (simp add: flip_def)
qed

lemma page_aligned_iff: "addr AND (of_nat PAGE_SIZE - 1) = 0 \<longleftrightarrow> unat (addr :: u32) mod PAGE_SIZE = 0"
  using unat_and_mask_mod [of addr 11] by (simp add: mask_eq_exp_minus_1 word_eq_0_unat)

lemma block_aligned_iff: "addr AND (of_nat BLOCK_SIZE - 1) = 0 \<longleftrightarrow> unat (addr :: u32) mod BLOCK_SIZE = 0"
  using unat_and_mask_mod [of addr 17] by (simp add: mask_eq_exp_minus_1 word_eq_0_unat)

text \<open>
  The erase and page operations refuse an address that is not aligned to their unit: they return
  at once, with the error value where they have one, without any access to the hardware and without
  touching the buffer.
\<close>

theorem misaligned_refused:
  "(unat addr mod BLOCK_SIZE \<noteq> 0 \<longrightarrow> nand_erase hw addr h = Some h) \<and>
   (unat addr mod PAGE_SIZE \<noteq> 0 \<longrightarrow>
      nand_write_page hw buf addr oob h = Some h \<and>
      nand_write_page_8bit hw buf addr h = Some h \<and>
      nand_read_page_8bit hw buf addr h = Some (-1, buf, h) \<and>
      NF8_ReadPage_8ECC hw addr buf h = (-1, buf, h))"
  by (simp only: nand_erase_def nand_write_page_def nand_write_page_8bit_def
      nand_read_page_8bit_def NF8_ReadPage_8ECC_def page_aligned_iff block_aligned_iff) simp

theorem misaligned_refused_witness:
  "nand_erase (hw_fixed (\<lambda>a. 0)) 0x20800 [] = Some [] \<and>
   nand_read_page_8bit (hw_fixed (\<lambda>a. 0)) [] 0x20801 [] = Some (-1, [], [])"
  using misaligned_refused [of "0x20800" "hw_fixed (\<lambda>a. 0)" "[]"]
    misaligned_refused [of "0x20801" "hw_fixed (\<lambda>a. 0)" "[]" "[]"] by simp

end
