(* ===== verification/Nand_Chip.thy ===== *)
theory Nand_Chip
  imports Spl_Nand
begin

text \<open>
  The large-page NAND chip behind the controller, as its data sheet describes the command set the
  driver uses (page read 00h-30h, random data output 05h-E0h, page program 80h-10h, block erase
  60h-D0h, reset FFh): a state that follows from the history of bus accesses. It is the specification
  the driver is verified against: programming can only clear bits, erasing sets all bits of a block,
  and cycles on a chip that is not selected are ignored. That the data register of the controller
  returns what this chip drives is the hypothesis \<open>nand_device\<close>.
\<close>

unbundle bit_operations_syntax

type_synonym cell_array = "nat \<Rightarrow> nat \<Rightarrow> u8"

datatype chip_mode =
    CIdle
  | CReadAddr "u32 list"
  | COut nat nat
  | CRandomAddr nat "u32 list"
  | CProgAddr "u32 list"
  | CProg nat nat "nat \<Rightarrow> u8"
  | CEraseAddr "u32 list"

record chip =
  cells :: cell_array
  mode :: chip_mode
  selected :: bool

definition addr_col :: "u32 \<Rightarrow> u32 \<Rightarrow> nat" where
  "addr_col a0 a1 = unat a0 + 256 * unat a1"

definition addr_row :: "u32 \<Rightarrow> u32 \<Rightarrow> u32 \<Rightarrow> nat" where
  "addr_row a2 a3 a4 = unat a2 + 256 * unat a3 + 65536 * unat a4"

definition erase_block :: "nat \<Rightarrow> cell_array \<Rightarrow> cell_array" where
  "erase_block row cs = (\<lambda>r c. if r div PAGE_PER_BLK = row div PAGE_PER_BLK then 0xFF else cs r c)"

definition program_page :: "nat \<Rightarrow> (nat \<Rightarrow> u8) \<Rightarrow> cell_array \<Rightarrow> cell_array" where
  "program_page row buf cs = cs(row := (\<lambda>c. cs row c AND buf c))"

fun chip_command :: "u32 \<Rightarrow> cell_array \<times> chip_mode \<Rightarrow> cell_array \<times> chip_mode" where
  "chip_command cmd (cs, m) =
     (if cmd = 0 then (cs, CReadAddr [])
      else if cmd = 0x30 then
        (cs, case m of CReadAddr [a0, a1, a2, a3, a4] \<Rightarrow> COut (addr_row a2 a3 a4) (addr_col a0 a1)
               | _ \<Rightarrow> m)
      else if cmd = 0x05 then (cs, case m of COut r c \<Rightarrow> CRandomAddr r [] | _ \<Rightarrow> m)
      else if cmd = 0xE0 then
        (cs, case m of CRandomAddr r [a0, a1] \<Rightarrow> COut r (addr_col a0 a1) | _ \<Rightarrow> m)
      else if cmd = 0x80 then (cs, CProgAddr [])
      else if cmd = 0x10 then
        (case m of CProg r c buf \<Rightarrow> (program_page r buf cs, CIdle) | _ \<Rightarrow> (cs, m))
      else if cmd = 0x60 then (cs, CEraseAddr [])
      else if cmd = 0xD0 then
        (case m of CEraseAddr [a2, a3, a4] \<Rightarrow> (erase_block (addr_row a2 a3 a4) cs, CIdle)
         | _ \<Rightarrow> (cs, m))
      else if cmd = 0xFF then (cs, CIdle)
      else (cs, m))"

fun chip_address :: "u32 \<Rightarrow> chip_mode \<Rightarrow> chip_mode" where
  "chip_address a (CReadAddr as) = CReadAddr (as @ [a])"
| "chip_address a (CRandomAddr r as) = CRandomAddr r (as @ [a])"
| "chip_address a (CEraseAddr as) = CEraseAddr (as @ [a])"
| "chip_address a (CProgAddr as) =
     (case as of [a0, a1, a2, a3] \<Rightarrow> CProg (addr_row a2 a3 a) (addr_col a0 a1) (\<lambda>_. 0xFF)
      | _ \<Rightarrow> CProgAddr (as @ [a]))"
| "chip_address a m = m"

fun chip_data_in :: "u8 \<Rightarrow> chip_mode \<Rightarrow> chip_mode" where
  "chip_data_in d (CProg r c buf) = CProg r (Suc c) (buf(c := d))"
| "chip_data_in d m = m"

fun chip_data_out :: "chip_mode \<Rightarrow> chip_mode" where
  "chip_data_out (COut r c) = COut r (Suc c)"
| "chip_data_out m = m"

fun chip_step :: "access \<Rightarrow> chip \<Rightarrow> chip" where
  "chip_step (Wr a v) s =
     (if a = NFCONT then s\<lparr>selected := \<not> bit v 1\<rparr>
      else if \<not> selected s then s
      else if a = NFCMMD then
        (let (cs, m) = chip_command v (cells s, mode s) in s\<lparr>cells := cs, mode := m\<rparr>)
      else if a = NFADDR then s\<lparr>mode := chip_address v (mode s)\<rparr>
      else if a = NFDATA then s\<lparr>mode := chip_data_in (ucast v) (mode s)\<rparr>
      else s)"
| "chip_step (Rd a v) s =
     (if a = NFDATA \<and> selected s then s\<lparr>mode := chip_data_out (mode s)\<rparr> else s)"
| "chip_step (Rom b p) s = s"

definition chip_of :: "chip \<Rightarrow> bus \<Rightarrow> chip" where
  "chip_of c0 h = foldr chip_step h c0"

definition chip_drives :: "chip \<Rightarrow> u8 option" where
  "chip_drives s =
     (case mode s of COut r c \<Rightarrow> if selected s then Some (cells s r c) else None | _ \<Rightarrow> None)"

text \<open>
  The hardware the driver relies on: the data register returns the byte the chip drives, the
  control register holds what is written, and the busy flags of the chip and of the ECC engine
  always come back.
\<close>

definition nand_device :: "hw \<Rightarrow> chip \<Rightarrow> bool" where
  "nand_device hw c0 \<longleftrightarrow>
     (\<forall>h d. chip_drives (chip_of c0 h) = Some d \<longrightarrow> ucast (mmio hw h NFDATA) = d) \<and>
     plain_reg hw NFCONT \<and>
     responsive hw NFSTAT (\<lambda>v. v AND 1 \<noteq> 0) \<and>
     responsive hw NFECCSTAT (\<lambda>v. v AND push_bit 24 1 \<noteq> 0) \<and>
     responsive hw NFECCSTAT (\<lambda>v. v AND push_bit 25 1 \<noteq> 0) \<and>
     responsive hw NFECCSTAT (\<lambda>v. v AND push_bit 31 1 = 0)"

lemma chip_of_Cons [simp]: "chip_of c0 (x # h) = chip_step x (chip_of c0 h)"
  by (simp add: chip_of_def)

lemma chip_of_wr: "chip_of c0 (wr a v h) = chip_step (Wr a v) (chip_of c0 h)"
  by (simp add: wr_def)

lemma chip_of_rd: "chip_of c0 (snd (rd hw a h)) = chip_step (Rd a (mmio hw h a)) (chip_of c0 h)"
  by (simp add: rd_def Let_def)

text \<open>
  \<open>on_chip hw c0 h m cs\<close>: after history \<open>h\<close> the chip is selected, in mode \<open>m\<close>, with cells \<open>cs\<close>, and
  the control register agrees that it is selected.
\<close>

definition on_chip :: "hw \<Rightarrow> chip \<Rightarrow> bus \<Rightarrow> chip_mode \<Rightarrow> cell_array \<Rightarrow> bool" where
  "on_chip hw c0 h m cs \<longleftrightarrow> mode (chip_of c0 h) = m \<and> cells (chip_of c0 h) = cs \<and>
     selected (chip_of c0 h) \<and> \<not> bit (mmio hw h NFCONT) 1"

lemma chip_of_rmw:
  "chip_of c0 (rmw hw a f h) =
     chip_step (Wr a (f (mmio hw h a))) (chip_step (Rd a (mmio hw h a)) (chip_of c0 h))"
  by (simp add: rmw_def rd_def Let_def chip_of_wr)

lemma on_chip_quiet:
  assumes "nand_device hw c0" "on_chip hw c0 h m cs" "a \<notin> {NFCONT, NFCMMD, NFADDR, NFDATA}"
  shows "on_chip hw c0 (wr a v h) m cs" "on_chip hw c0 (rmw hw a f h) m cs"
    "on_chip hw c0 (snd (rd hw a h)) m cs"
proof -
  from assms(1) have "plain_reg hw NFCONT" by (simp add: nand_device_def)
  with assms(2,3) show "on_chip hw c0 (wr a v h) m cs" "on_chip hw c0 (rmw hw a f h) m cs"
      "on_chip hw c0 (snd (rd hw a h)) m cs"
    by (auto simp: on_chip_def plain_reg_ops chip_of_wr chip_of_rd chip_of_rmw)
qed

lemma on_chip_idle_reads:
  "nand_device hw c0 \<Longrightarrow> on_chip hw c0 h m cs \<Longrightarrow> a \<notin> {NFCONT, NFCMMD, NFADDR, NFDATA} \<Longrightarrow>
   on_chip hw c0 (idle_reads hw a n h) m cs"
  by (induction n arbitrary: h) (simp_all add: on_chip_quiet)

lemma on_chip_poll:
  assumes "nand_device hw c0" "on_chip hw c0 h m cs" "a \<notin> {NFCONT, NFCMMD, NFADDR, NFDATA}"
    "responsive hw a p"
  shows "\<exists>h'. poll hw a p h = Some h' \<and> on_chip hw c0 h' m cs"
proof -
  from assms(4) obtain n where "poll hw a p h = Some (idle_reads hw a n h)" by (rule poll_returns)
  with on_chip_idle_reads [OF assms(1-3)] show ?thesis by blast
qed

lemma on_chip_wait_ready:
  assumes "nand_device hw c0" "on_chip hw c0 h m cs"
  shows "\<exists>h'. nand_wait_ready hw h = Some h' \<and> on_chip hw c0 h' m cs"
  unfolding nand_wait_ready_def
  by (rule on_chip_poll [OF assms]) (use assms(1) in \<open>simp_all add: nand_device_def\<close>)

lemma on_chip_select:
  assumes "nand_device hw c0"
  shows "on_chip hw c0 (nand_select_chip hw h) (mode (chip_of c0 h)) (cells (chip_of c0 h))"
  using assms
  by (simp add: on_chip_def nand_select_chip_def nand_device_def plain_reg_ops chip_of_rmw
      bit_and_iff bit_not_iff bit_numeral_rec)

lemma on_chip_deselect:
  assumes "nand_device hw c0" "on_chip hw c0 h m cs"
  shows "chip_of c0 (nand_deselect_chip hw h) = \<lparr>cells = cs, mode = m, selected = False\<rparr>"
  using assms
  by (simp add: on_chip_def nand_deselect_chip_def chip_of_rmw bit_or_iff bit_numeral_rec)

lemma on_chip_cont:
  assumes "nand_device hw c0" "on_chip hw c0 h m cs" "\<And>v. \<not> bit v 1 \<Longrightarrow> \<not> bit (f v) 1"
  shows "on_chip hw c0 (rmw hw NFCONT f h) m cs"
  using assms by (simp add: on_chip_def nand_device_def plain_reg_ops chip_of_rmw)

lemma on_chip_bus:
  assumes "nand_device hw c0" "on_chip hw c0 h m cs"
  shows "on_chip hw c0 (nand_cmd c h) (snd (chip_command c (cs, m))) (fst (chip_command c (cs, m)))"
    and "on_chip hw c0 (wr NFADDR a h) (chip_address a m) cs"
    and "on_chip hw c0 (wr NFDATA (ucast (d :: u8)) h) (chip_data_in d m) cs"
    and "on_chip hw c0 (snd (rd hw NFDATA h)) (chip_data_out m) cs"
  using assms
  by (simp_all add: on_chip_def nand_device_def nand_cmd_def plain_reg_ops chip_of_wr chip_of_rd
      case_prod_unfold Let_def)

subsection \<open>Data transfer\<close>

definition put_bytes :: "(nat \<Rightarrow> u8) \<Rightarrow> nat \<Rightarrow> u8 list \<Rightarrow> nat \<Rightarrow> u8" where
  "put_bytes buf c bs = (\<lambda>i. if c \<le> i \<and> i < c + length bs then bs ! (i - c) else buf i)"

lemma put_bytes_Nil [simp]: "put_bytes buf c [] = buf"
  by (auto simp: put_bytes_def fun_eq_iff)

lemma diff_Suc_eq: "x - c = Suc y \<Longrightarrow> x = Suc (c + y)" for x c y :: nat
  by arith

lemma put_bytes_Cons: "put_bytes (buf(c := b)) (Suc c) bs = put_bytes buf c (b # bs)"
  by (auto simp: put_bytes_def fun_eq_iff nth_Cons Suc_diff_le split: nat.splits
      dest!: diff_Suc_eq)

lemma put_bytes_append:
  "put_bytes (put_bytes buf c xs) (c + length xs) ys = put_bytes buf c (xs @ ys)"
  by (auto simp: put_bytes_def fun_eq_iff nth_append)

lemma on_chip_write_buf:
  assumes "nand_device hw c0"
  shows "on_chip hw c0 h (CProg r c buf) cs \<Longrightarrow>
    on_chip hw c0 (nand_write_buf bs h) (CProg r (c + length bs) (put_bytes buf c bs)) cs"
proof (induction bs arbitrary: h c buf)
  case Nil
  then show ?case by simp
next
  case (Cons b bs)
  from on_chip_bus(3) [OF assms Cons.prems, of b]
  have "on_chip hw c0 (wr NFDATA (ucast b) h) (CProg r (Suc c) (buf(c := b))) cs" by simp
  from Cons.IH [OF this, unfolded put_bytes_Cons] show ?case by simp
qed

lemma on_chip_write_buf_out:
  assumes "nand_device hw c0"
  shows "on_chip hw c0 h (COut r c) cs \<Longrightarrow> on_chip hw c0 (nand_write_buf bs h) (COut r c) cs"
proof (induction bs arbitrary: h)
  case (Cons b bs)
  from on_chip_bus(3) [OF assms Cons.prems, of b]
  have "on_chip hw c0 (wr NFDATA (ucast b) h) (COut r c) cs" by simp
  from Cons.IH [OF this] show ?case by simp
qed simp

lemma on_chip_read:
  assumes "nand_device hw c0" "on_chip hw c0 h (COut r c) cs"
  shows "ucast (mmio hw h NFDATA) = cs r c"
  using assms by (simp add: nand_device_def on_chip_def chip_drives_def)

lemma on_chip_read_buf:
  assumes "nand_device hw c0"
  shows "on_chip hw c0 h (COut r c) cs \<Longrightarrow>
    fst (nand_read_buf hw n h) = map (cs r) [c..<c + n] \<and>
    on_chip hw c0 (snd (nand_read_buf hw n h)) (COut r (c + n)) cs"
proof (induction n arbitrary: h c)
  case 0
  then show ?case by simp
next
  case (Suc n)
  from on_chip_bus(4) [OF assms Suc.prems]
  have "on_chip hw c0 (snd (rd hw NFDATA h)) (COut r (Suc c)) cs" by simp
  note IH = Suc.IH [OF this]
  have "fst (rd hw NFDATA h) = mmio hw h NFDATA" by (simp add: rd_def Let_def)
  with IH on_chip_read [OF assms Suc.prems] show ?case
    by (simp add: case_prod_unfold Let_def upt_conv_Cons del: upt_Suc)
qed

subsection \<open>Addresses\<close>

lemma row_cycles:
  "addr_row (row AND 0xFF) (drop_bit 8 row AND 0xFF) (drop_bit 16 row AND 0x07) = unat (row :: u32) mod 2 ^ 19"
proof -
  have "unat row mod 2 ^ 19 = unat row mod 256 + 256 * (unat row div 256 mod 256)
      + 65536 * (unat row div 65536 mod 8)"
    using mod_mult2_eq [of "unat row" 256 2048] mod_mult2_eq [of "unat row div 256" 256 8]
    by (simp flip: div_mult2_eq)
  then show ?thesis
    by (simp add: addr_row_def unat_and_0xFF unat_and_7 unat_drop_bit_div)
qed

lemma col_cycles: "unat (col :: u32) < 4096 \<Longrightarrow> addr_col (col AND 0xFF) (drop_bit 8 col AND 0xF) = unat col"
proof -
  assume "unat col < 4096"
  then have "unat col div 256 mod 16 = unat col div 256" by simp
  then show ?thesis
    by (simp add: addr_col_def unat_and_0xFF unat_and_0xF unat_drop_bit_div)
qed

definition page_row :: "u32 \<Rightarrow> nat" where
  "page_row addr = unat addr div PAGE_SIZE mod 2 ^ 19"

lemma page_row_cycles:
  fixes addr :: u32
  shows "addr_row (addr div 2048 AND 0xFF) (drop_bit 8 (addr div 2048) AND 0xFF)
    (drop_bit 16 (addr div 2048) AND 0x07) = page_row addr"
  by (simp add: row_cycles page_row_def unat_div)

lemma page_col_cycles:
  fixes addr :: u32
  shows "addr_col (addr mod 2048 AND 0xFF) (drop_bit 8 (addr mod 2048) AND 0xF) = unat addr mod 2048"
  by (subst col_cycles) (simp_all add: unat_mod)

subsection \<open>Command sequences\<close>

lemma on_chip_read_cycles:
  assumes dev: "nand_device hw c0" and "on_chip hw c0 h m cs"
  shows "on_chip hw c0 (nand_cmd 0x30 (wr NFADDR a4 (wr NFADDR a3 (wr NFADDR a2 (wr NFADDR a1
    (wr NFADDR a0 (nand_cmd 0 h))))))) (COut (addr_row a2 a3 a4) (addr_col a0 a1)) cs"
proof -
  from on_chip_bus(1) [OF assms, of 0] have "on_chip hw c0 (nand_cmd 0 h) (CReadAddr []) cs" by simp
  from on_chip_bus(1) [OF dev on_chip_bus(2) [OF dev on_chip_bus(2) [OF dev on_chip_bus(2) [OF dev
        on_chip_bus(2) [OF dev on_chip_bus(2) [OF dev this]]]]], of "0x30" a4 a3 a2 a1 a0]
  show ?thesis by simp
qed

lemma on_chip_program_cycles:
  assumes dev: "nand_device hw c0" and "on_chip hw c0 h m cs"
  shows "on_chip hw c0 (wr NFADDR a4 (wr NFADDR a3 (wr NFADDR a2 (wr NFADDR a1
    (wr NFADDR a0 (nand_cmd 0x80 h)))))) (CProg (addr_row a2 a3 a4) (addr_col a0 a1) (\<lambda>_. 0xFF)) cs"
proof -
  from on_chip_bus(1) [OF assms, of "0x80"]
  have "on_chip hw c0 (nand_cmd 0x80 h) (CProgAddr []) cs" by simp
  from on_chip_bus(2) [OF dev on_chip_bus(2) [OF dev on_chip_bus(2) [OF dev
        on_chip_bus(2) [OF dev on_chip_bus(2) [OF dev this]]]], of a4 a3 a2 a1 a0]
  show ?thesis by simp
qed

lemma on_chip_erase_cycles:
  assumes dev: "nand_device hw c0" and "on_chip hw c0 h m cs"
  shows "on_chip hw c0 (nand_cmd 0xD0 (wr NFADDR a4 (wr NFADDR a3 (wr NFADDR a2 (nand_cmd 0x60 h)))))
    CIdle (erase_block (addr_row a2 a3 a4) cs)"
proof -
  from on_chip_bus(1) [OF assms, of "0x60"]
  have "on_chip hw c0 (nand_cmd 0x60 h) (CEraseAddr []) cs" by simp
  from on_chip_bus(1) [OF dev on_chip_bus(2) [OF dev on_chip_bus(2) [OF dev
        on_chip_bus(2) [OF dev this]]], of "0xD0" a4 a3 a2]
  show ?thesis by simp
qed

lemma on_chip_random_cycles:
  assumes dev: "nand_device hw c0" and "on_chip hw c0 h (COut r c) cs"
  shows "on_chip hw c0 (nand_cmd 0xE0 (wr NFADDR a1 (wr NFADDR a0 (nand_cmd 0x05 h))))
    (COut r (addr_col a0 a1)) cs"
proof -
  from on_chip_bus(1) [OF assms, of "0x05"]
  have "on_chip hw c0 (nand_cmd 0x05 h) (CRandomAddr r []) cs" by simp
  from on_chip_bus(1) [OF dev on_chip_bus(2) [OF dev on_chip_bus(2) [OF dev this]], of "0xE0" a1 a0]
  show ?thesis by simp
qed

lemma on_chip_nand_addr_read:
  assumes "nand_device hw c0" "on_chip hw c0 h m cs"
  shows "on_chip hw c0 (nand_cmd 0x30 (nand_addr addr (nand_cmd 0 h)))
    (COut (page_row addr) (unat addr mod PAGE_SIZE)) cs"
  using on_chip_read_cycles [OF assms] by (simp add: nand_addr_def Let_def flip: page_row_cycles page_col_cycles)

lemma on_chip_nand_addr_prog:
  assumes "nand_device hw c0" "on_chip hw c0 h m cs"
  shows "on_chip hw c0 (nand_addr addr (nand_cmd 0x80 h))
    (CProg (page_row addr) (unat addr mod PAGE_SIZE) (\<lambda>_. 0xFF)) cs"
  using on_chip_program_cycles [OF assms] by (simp add: nand_addr_def Let_def flip: page_row_cycles page_col_cycles)

lemma on_chip_random_col:
  assumes "nand_device hw c0" "on_chip hw c0 h (COut r c) cs" "unat (col :: u32) < 4096"
  shows "on_chip hw c0 (nand_cmd 0xE0 (wr NFADDR (drop_bit 8 col AND 0xF)
    (wr NFADDR (col AND 0xFF) (nand_cmd 0x05 h)))) (COut r (unat col)) cs"
  using on_chip_random_cycles [OF assms(1,2)] col_cycles [OF assms(3)] by metis

lemma on_chip_read_oob:
  assumes "nand_device hw c0" "on_chip hw c0 h m cs"
  shows "\<exists>h'. read_oob hw addr (of_nat OOB_SIZE) h =
      Some (map (cs (page_row addr)) [PAGE_SIZE..<PAGE_SIZE + OOB_SIZE], h') \<and>
    on_chip hw c0 h' (COut (page_row addr) (PAGE_SIZE + OOB_SIZE)) cs"
proof -
  note dev = assms(1)
  let ?row = "addr div 2048" and ?r = "page_row addr"
  define g where "g = nand_cmd 0x30 (wr NFADDR (drop_bit 16 ?row AND 0x07) (wr NFADDR (drop_bit 8 ?row AND 0xFF)
    (wr NFADDR (?row AND 0xFF) (wr NFADDR (drop_bit 8 (2048 :: u32) AND 0xF) (wr NFADDR ((2048 :: u32) AND 0xFF) (nand_cmd 0 h))))))"
  have "on_chip hw c0 g (COut ?r (addr_col (2048 AND 0xFF) (drop_bit 8 2048 AND 0xF))) cs"
    unfolding g_def page_row_cycles [symmetric] by (rule on_chip_read_cycles [OF assms])
  also have "addr_col (2048 AND 0xFF) (drop_bit 8 2048 AND 0xF) = PAGE_SIZE" by (subst col_cycles) simp_all
  finally obtain g' where g': "nand_wait_ready hw g = Some g'" "on_chip hw c0 g' (COut ?r PAGE_SIZE) cs"
    using on_chip_wait_ready [OF dev] by blast
  from on_chip_read_buf [OF dev g'(2), of OOB_SIZE]
  obtain h' where h': "nand_read_buf hw OOB_SIZE g' = (map (cs ?r) [PAGE_SIZE..<PAGE_SIZE + OOB_SIZE], h')"
      "on_chip hw c0 h' (COut ?r (PAGE_SIZE + OOB_SIZE)) cs"
    by (metis prod.collapse)
  have "read_oob hw addr (of_nat OOB_SIZE) h = Some (nand_read_buf hw OOB_SIZE g')"
    unfolding read_oob_def Let_def using g'(1) [unfolded g_def] by simp
  with h' show ?thesis by simp
qed

lemma on_chip_init_hwecc:
  assumes "nand_device hw c0" "on_chip hw c0 h m cs"
  shows "on_chip hw c0 (nand_init_hwecc_8bit hw md h) m cs"
  unfolding nand_init_hwecc_8bit_def Let_def
  by (intro on_chip_cont on_chip_quiet assms if_split [where P = "\<lambda>x. on_chip hw c0 x m cs", THEN iffD2] conjI impI)
    (auto simp: assms bit_simps bit_numeral_rec)

lemma on_chip_calculate_ecc_read:
  assumes "nand_device hw c0" "on_chip hw c0 h m cs"
  shows "\<exists>h'. nand_calculate_ecc_8bit hw READ_ECC h = Some ([], h') \<and> on_chip hw c0 h' m cs"
proof -
  have "on_chip hw c0 (rmw hw NFCONT (\<lambda>v. v OR push_bit 7 1) h) m cs"
    by (rule on_chip_cont [OF assms]) (simp add: bit_simps)
  from on_chip_poll [OF assms(1) this, of NFECCSTAT "\<lambda>v. v AND push_bit 24 1 \<noteq> 0"] assms(1)
  show ?thesis by (auto simp: nand_calculate_ecc_8bit_def Let_def nand_device_def)
qed

lemma on_chip_calculate_ecc_write:
  assumes "nand_device hw c0" "on_chip hw c0 h m cs"
  shows "\<exists>ecc h'. nand_calculate_ecc_8bit hw WRITE_ECC h = Some (ecc, h') \<and> length ecc = ECC_BYTES \<and>
    on_chip hw c0 h' m cs"
proof -
  have "on_chip hw c0 (rmw hw NFCONT (\<lambda>v. v OR push_bit 7 1) h) m cs"
    by (rule on_chip_cont [OF assms]) (simp add: bit_simps)
  from on_chip_poll [OF assms(1) this, of NFECCSTAT "\<lambda>v. v AND push_bit 25 1 \<noteq> 0"] assms(1)
  obtain g where g: "poll hw NFECCSTAT (\<lambda>v. v AND push_bit 25 1 \<noteq> 0)
      (rmw hw NFCONT (\<lambda>v. v OR push_bit 7 1) h) = Some g" "on_chip hw c0 g m cs"
    by (auto simp: nand_device_def)
  have "on_chip hw c0 (snd (rd hw NFECCPRGECC3 (snd (rd hw NFECCPRGECC2 (snd (rd hw NFECCPRGECC1
      (snd (rd hw NFECCPRGECC0 g)))))))) m cs"
    by (intro on_chip_quiet(3) assms g) simp_all
  with g(1) show ?thesis
    by (simp add: nand_calculate_ecc_8bit_def Let_def case_prod_unfold)
qed

text \<open>A decoder that finds no error in any sector.\<close>

definition ecc_clean :: "hw \<Rightarrow> bool" where
  "ecc_clean hw \<longleftrightarrow> (\<forall>h. mmio hw h NFECCSECSTAT AND 0x1F = 0)"

lemma on_chip_correct_clean:
  assumes "nand_device hw c0" "on_chip hw c0 h m cs" "ecc_clean hw"
  shows "\<exists>h'. nand_correct_data_8bit hw buf off h = Some (0, buf, h') \<and> on_chip hw c0 h' m cs"
proof -
  from on_chip_poll [OF assms(1,2), of NFECCSTAT "\<lambda>v. v AND push_bit 31 1 = 0"] assms(1)
  obtain g where g: "poll hw NFECCSTAT (\<lambda>v. v AND push_bit 31 1 = 0) h = Some g" "on_chip hw c0 g m cs"
    by (auto simp: nand_device_def)
  have "on_chip hw c0 (snd (rd hw NFECCERP1 (snd (rd hw NFECCERP0 (snd (rd hw NFECCERL3
      (snd (rd hw NFECCERL2 (snd (rd hw NFECCERL1 (snd (rd hw NFECCERL0
      (snd (rd hw NFECCSECSTAT g)))))))))))))) m cs"
    by (intro on_chip_quiet(3) assms g) simp_all
  moreover have "fst (rd hw NFECCSECSTAT g) AND 0x1F = 0"
    using assms(3) by (simp add: rd_def Let_def ecc_clean_def)
  ultimately show ?thesis
    using g(1) by (simp add: nand_correct_data_8bit_def Let_def case_prod_unfold nand_correct_switch_def
        word_le_nat_alt)
qed

subsection \<open>Page loops\<close>

lemma write_page_loop_chip:
  assumes dev: "nand_device hw c0"
  shows "on_chip hw c0 h (CProg r c buf) cs \<Longrightarrow> ECC_SIZE * n \<le> length dat \<Longrightarrow> length oob = OOB_SIZE \<Longrightarrow>
    OOB_ECC_OFFSET + i + ECC_BYTES * n \<le> OOB_SIZE \<Longrightarrow>
    \<exists>oob' h'. write_page_8bit_loop hw n i dat oob h = Some (oob', h') \<and> length oob' = OOB_SIZE \<and>
      take (OOB_ECC_OFFSET + i) oob' = take (OOB_ECC_OFFSET + i) oob \<and>
      on_chip hw c0 h' (CProg r (c + ECC_SIZE * n) (put_bytes buf c (take (ECC_SIZE * n) dat))) cs"
proof (induction n arbitrary: i dat oob h c buf)
  case 0
  then show ?case by simp
next
  case (Suc n)
  note w = on_chip_write_buf [OF dev on_chip_init_hwecc [OF dev Suc.prems(1), of WRITE_ECC], of "take ECC_SIZE dat"]
  from on_chip_calculate_ecc_write [OF dev w] obtain ecc g where g:
    "nand_calculate_ecc_8bit hw WRITE_ECC
       (nand_write_buf (take ECC_SIZE dat) (nand_init_hwecc_8bit hw WRITE_ECC h)) = Some (ecc, g)"
    "length ecc = ECC_BYTES"
    "on_chip hw c0 g (CProg r (c + ECC_SIZE) (put_bytes buf c (take ECC_SIZE dat))) cs"
    using Suc.prems(2) by auto
  define oob1 where "oob1 = take (OOB_ECC_OFFSET + i) oob @ ecc @ drop (OOB_ECC_OFFSET + i + ECC_BYTES) oob"
  from Suc.prems(3,4) g(2) have blit: "arr_blit oob (OOB_ECC_OFFSET + i) ecc = Some oob1"
    by (simp add: arr_blit_eq oob1_def)
  have "length oob1 = OOB_SIZE" "ECC_SIZE * n \<le> length (drop ECC_SIZE dat)"
    "OOB_ECC_OFFSET + (i + ECC_BYTES) + ECC_BYTES * n \<le> OOB_SIZE"
    using Suc.prems(2-4) g(2) by (simp_all add: oob1_def)
  from Suc.IH [OF g(3) this(2,1,3)]
  obtain oob' h' where o: "write_page_8bit_loop hw n (i + ECC_BYTES) (drop ECC_SIZE dat) oob1 g = Some (oob', h')"
    "length oob' = OOB_SIZE" "take (OOB_ECC_OFFSET + (i + ECC_BYTES)) oob' = take (OOB_ECC_OFFSET + (i + ECC_BYTES)) oob1"
    "on_chip hw c0 h' (CProg r (c + ECC_SIZE + ECC_SIZE * n)
      (put_bytes (put_bytes buf c (take ECC_SIZE dat)) (c + ECC_SIZE) (take (ECC_SIZE * n) (drop ECC_SIZE dat)))) cs"
    by blast
  have "take (OOB_ECC_OFFSET + i) oob' = take (OOB_ECC_OFFSET + i) oob1"
    using arg_cong [OF o(3), of "take (OOB_ECC_OFFSET + i)"] by (simp add: min_def)
  also have "\<dots> = take (OOB_ECC_OFFSET + i) oob" using Suc.prems(3,4) by (simp add: oob1_def)
  finally have keep: "take (OOB_ECC_OFFSET + i) oob' = take (OOB_ECC_OFFSET + i) oob" .
  have data: "put_bytes (put_bytes buf c (take ECC_SIZE dat)) (c + ECC_SIZE) (take (ECC_SIZE * n) (drop ECC_SIZE dat)) =
      put_bytes buf c (take (ECC_SIZE * Suc n) dat)"
    using put_bytes_append [of buf c "take ECC_SIZE dat" "take (ECC_SIZE * n) (drop ECC_SIZE dat)"] Suc.prems(2)
      take_add [of ECC_SIZE "ECC_SIZE * n" dat] by (simp add: min_absorb2)
  have "write_page_8bit_loop hw (Suc n) i dat oob h = Some (oob', h')"
    using g(1) blit o(1) by simp
  with o(2) keep o(4) [unfolded data] show ?case by (auto simp: add.assoc)
qed

lemma read_page_loop_chip:
  assumes dev: "nand_device hw c0" and clean: "ecc_clean hw"
  shows "on_chip hw c0 h (COut r c) cs \<Longrightarrow> length buf = PAGE_SIZE \<Longrightarrow> col + ECC_SIZE * n \<le> PAGE_SIZE \<Longrightarrow>
    \<exists>c' h'. read_page_8bit_loop hw n i col buf oob err h =
        Some (err, take col buf @ map (cs r) [col..<col + ECC_SIZE * n] @ drop (col + ECC_SIZE * n) buf, h') \<and>
      on_chip hw c0 h' (COut r c') cs"
proof (induction n arbitrary: i col buf h c)
  case 0
  then show ?case by auto
next
  case (Suc n)
  from Suc.prems(3) have col: "unat (of_nat col :: u32) = col" "col < 4096"
    by (simp_all add: unat_of_nat take_bit_eq_mod)
  from on_chip_random_col [OF dev Suc.prems(1), of "of_nat col"] col
  have s: "on_chip hw c0 (nand_cmd 0xE0 (wr NFADDR (drop_bit 8 (of_nat col) AND 0xF)
      (wr NFADDR (of_nat col AND 0xFF) (nand_cmd 0x05 h)))) (COut r col) cs" by simp
  from on_chip_read_buf [OF dev on_chip_init_hwecc [OF dev s], where n = ECC_SIZE]
  obtain g where g: "nand_read_buf hw ECC_SIZE (nand_init_hwecc_8bit hw READ_ECC
        (nand_cmd 0xE0 (wr NFADDR (drop_bit 8 (of_nat col) AND 0xF)
        (wr NFADDR (of_nat col AND 0xFF) (nand_cmd 0x05 h))))) = (map (cs r) [col..<col + ECC_SIZE], g)"
      "on_chip hw c0 g (COut r (col + ECC_SIZE)) cs" by (metis prod.collapse)
  define buf1 where "buf1 = take col buf @ map (cs r) [col..<col + ECC_SIZE] @ drop (col + ECC_SIZE) buf"
  have blit: "arr_blit buf col (map (cs r) [col..<col + ECC_SIZE]) = Some buf1"
    using Suc.prems(2,3) arr_blit_eq [of col "map (cs r) [col..<col + ECC_SIZE]" buf] by (simp add: buf1_def)
  from on_chip_calculate_ecc_read [OF dev on_chip_write_buf_out [OF dev g(2)]] obtain g1 where g1:
      "nand_calculate_ecc_8bit hw READ_ECC (nand_write_buf (take ECC_BYTES (drop (OOB_ECC_OFFSET + i) oob)) g) = Some ([], g1)"
      "on_chip hw c0 g1 (COut r (col + ECC_SIZE)) cs" by blast
  from on_chip_correct_clean [OF dev g1(2) clean] obtain g2 where g2:
      "nand_correct_data_8bit hw buf1 col g1 = Some (0, buf1, g2)" "on_chip hw c0 g2 (COut r (col + ECC_SIZE)) cs"
    by blast
  have len: "length buf1 = PAGE_SIZE" using Suc.prems(2,3) by (simp add: buf1_def)
  from Suc.IH [OF g2(2) len, of "col + ECC_SIZE" "i + ECC_BYTES"] Suc.prems(3) obtain c' h' where IH:
      "read_page_8bit_loop hw n (i + ECC_BYTES) (col + ECC_SIZE) buf1 oob err g2 =
        Some (err, take (col + ECC_SIZE) buf1 @ map (cs r) [col + ECC_SIZE..<col + ECC_SIZE + ECC_SIZE * n]
          @ drop (col + ECC_SIZE + ECC_SIZE * n) buf1, h')" "on_chip hw c0 h' (COut r c') cs"
    by auto
  have "take (col + ECC_SIZE) buf1 = take col buf @ map (cs r) [col..<col + ECC_SIZE]"
    "drop (col + ECC_SIZE + ECC_SIZE * n) buf1 = drop (col + ECC_SIZE * Suc n) buf"
    using Suc.prems(2,3) by (simp_all add: buf1_def add_ac)
  moreover have "[col..<col + ECC_SIZE] @ [col + ECC_SIZE..<col + ECC_SIZE + ECC_SIZE * n] = [col..<col + ECC_SIZE * Suc n]"
    using upt_add_eq_append [of col "col + ECC_SIZE" "ECC_SIZE * n"] by (simp add: add_ac)
  ultimately have out: "take (col + ECC_SIZE) buf1 @ map (cs r) [col + ECC_SIZE..<col + ECC_SIZE + ECC_SIZE * n]
      @ drop (col + ECC_SIZE + ECC_SIZE * n) buf1 =
      take col buf @ map (cs r) [col..<col + ECC_SIZE * Suc n] @ drop (col + ECC_SIZE * Suc n) buf"
    by (simp flip: map_append)
  have "read_page_8bit_loop hw (Suc n) i col buf oob err h =
      read_page_8bit_loop hw n (i + ECC_BYTES) (col + ECC_SIZE) buf1 oob err g2"
    by (simp only: read_page_8bit_loop.simps Let_def g(1) prod.case) (simp add: blit g1(1) g2(1))
  with IH out show ?case by auto
qed

subsection \<open>Operations on the chip\<close>

text \<open>The state an operation leaves: the chip deselected, in mode \<open>m\<close>, with cells \<open>cs\<close>.\<close>

abbreviation at_rest :: "chip_mode \<Rightarrow> cell_array \<Rightarrow> chip" where
  "at_rest m cs \<equiv> \<lparr>cells = cs, mode = m, selected = False\<rparr>"

lemma nand_erase_chip:
  assumes dev: "nand_device hw c0" and "addr AND (of_nat BLOCK_SIZE - 1) = 0"
  shows "\<exists>h'. nand_erase hw addr h = Some h' \<and>
    chip_of c0 h' = at_rest CIdle (erase_block (page_row addr) (cells (chip_of c0 h)))"
proof -
  let ?row = "addr div 2048"
  define g where "g = nand_cmd 0xD0 (wr NFADDR (drop_bit 16 ?row AND 0x07) (wr NFADDR (drop_bit 8 ?row AND 0xFF)
    (wr NFADDR (?row AND 0xFF) (nand_cmd 0x60 (nand_select_chip hw h)))))"
  have "on_chip hw c0 g CIdle (erase_block (page_row addr) (cells (chip_of c0 h)))"
    unfolding g_def page_row_cycles [symmetric]
    by (rule on_chip_erase_cycles [OF dev on_chip_select [OF dev]])
  from on_chip_wait_ready [OF dev this] obtain h' where h': "nand_wait_ready hw g = Some h'"
      "on_chip hw c0 h' CIdle (erase_block (page_row addr) (cells (chip_of c0 h)))" by blast
  have "nand_erase hw addr h = Some (nand_deselect_chip hw h')"
    using assms(2) h'(1) by (simp add: nand_erase_def g_def Let_def)
  with on_chip_deselect [OF dev h'(2)] show ?thesis by blast
qed

lemma aligned_col: "addr AND (of_nat PAGE_SIZE - 1) = 0 \<Longrightarrow> unat addr mod PAGE_SIZE = 0" for addr :: u32
  using unat_and_mask_mod [of addr 11] by (simp add: mask_eq_exp_minus_1)

lemma nand_write_page_8bit_chip:
  assumes dev: "nand_device hw c0" and al: "addr AND (of_nat PAGE_SIZE - 1) = 0"
    and len: "length dat = PAGE_SIZE"
  shows "\<exists>h' oob. nand_write_page_8bit hw dat addr h = Some h' \<and> length oob = OOB_SIZE \<and>
    take OOB_ECC_OFFSET oob = replicate OOB_ECC_OFFSET 0xFF \<and>
    chip_of c0 h' = at_rest CIdle (program_page (page_row addr) (put_bytes (\<lambda>_. 0xFF) 0 (dat @ oob))
      (cells (chip_of c0 h)))"
proof -
  let ?cs = "cells (chip_of c0 h)" and ?r = "page_row addr"
  from on_chip_nand_addr_prog [OF dev on_chip_select [OF dev, of h], where addr = addr]
  have "on_chip hw c0 (nand_addr addr (nand_cmd 0x80 (nand_select_chip hw h))) (CProg ?r 0 (\<lambda>_. 0xFF)) ?cs"
    using aligned_col [OF al] by simp
  from on_chip_wait_ready [OF dev this] obtain g where g:
    "nand_wait_ready hw (nand_addr addr (nand_cmd 0x80 (nand_select_chip hw h))) = Some g"
    "on_chip hw c0 g (CProg ?r 0 (\<lambda>_. 0xFF)) ?cs" by blast
  from write_page_loop_chip [OF dev g(2), of 4 dat "replicate OOB_SIZE 0xFF" 0] len
  obtain oob g1 where o: "write_page_8bit_loop hw 4 0 dat (replicate OOB_SIZE 0xFF) g = Some (oob, g1)"
    "length oob = OOB_SIZE" "take OOB_ECC_OFFSET oob = replicate OOB_ECC_OFFSET 0xFF"
    "on_chip hw c0 g1 (CProg ?r PAGE_SIZE (put_bytes (\<lambda>_. 0xFF) 0 dat)) ?cs"
    by auto
  note w = on_chip_write_buf [OF dev o(4), of oob]
  have "put_bytes (put_bytes (\<lambda>_. 0xFF) 0 dat) PAGE_SIZE oob = put_bytes (\<lambda>_. 0xFF) 0 (dat @ oob)"
    using put_bytes_append [of "\<lambda>_. 0xFF" 0 dat oob] len by simp
  with on_chip_bus(1) [OF dev w, of "0x10"]
  have "on_chip hw c0 (nand_cmd 0x10 (nand_write_buf oob g1)) CIdle
      (program_page ?r (put_bytes (\<lambda>_. 0xFF) 0 (dat @ oob)) ?cs)" by simp
  from on_chip_wait_ready [OF dev this] obtain g2 where g2:
    "nand_wait_ready hw (nand_cmd 0x10 (nand_write_buf oob g1)) = Some g2"
    "on_chip hw c0 g2 CIdle (program_page ?r (put_bytes (\<lambda>_. 0xFF) 0 (dat @ oob)) ?cs)" by blast
  have "nand_write_page_8bit hw dat addr h = Some (nand_deselect_chip hw g2)"
    using al g(1) o(1) g2(1) by (simp add: nand_write_page_8bit_def)
  with on_chip_deselect [OF dev g2(2)] o(2,3) show ?thesis by blast
qed

lemma nand_read_page_8bit_chip:
  assumes dev: "nand_device hw c0" and clean: "ecc_clean hw" and al: "addr AND (of_nat PAGE_SIZE - 1) = 0"
    and len: "length buf = PAGE_SIZE"
  shows "\<exists>h' m. nand_read_page_8bit hw buf addr h =
      Some (0, map (cells (chip_of c0 h) (page_row addr)) [0..<PAGE_SIZE], h') \<and>
    chip_of c0 h' = at_rest m (cells (chip_of c0 h))"
proof -
  let ?cs = "cells (chip_of c0 h)" and ?r = "page_row addr"
  from on_chip_read_oob [OF dev on_chip_select [OF dev, of h], where addr = addr] obtain oob g where g:
    "read_oob hw addr (of_nat OOB_SIZE) (nand_select_chip hw h) = Some (oob, g)"
    "on_chip hw c0 g (COut ?r (PAGE_SIZE + OOB_SIZE)) ?cs" by blast
  from on_chip_nand_addr_read [OF dev g(2), of addr]
  have "on_chip hw c0 (nand_cmd 0x30 (nand_addr addr (nand_cmd 0 g))) (COut ?r 0) ?cs"
    using aligned_col [OF al] by simp
  from on_chip_wait_ready [OF dev this] obtain g1 where g1:
    "nand_wait_ready hw (nand_cmd 0x30 (nand_addr addr (nand_cmd 0 g))) = Some g1"
    "on_chip hw c0 g1 (COut ?r 0) ?cs" by blast
  from read_page_loop_chip [OF dev clean g1(2) len, of 0 4 0 oob 0] len obtain c' g2 where g2:
    "read_page_8bit_loop hw 4 0 0 buf oob 0 g1 = Some (0, map (?cs ?r) [0..<PAGE_SIZE], g2)"
    "on_chip hw c0 g2 (COut ?r c') ?cs" by (auto simp del: upt_rec_numeral)
  have "nand_read_page_8bit hw buf addr h =
      Some (0, map (?cs ?r) [0..<PAGE_SIZE], nand_deselect_chip hw g2)"
    using al g(1) g1(1) g2(1) by (simp add: nand_read_page_8bit_def del: upt_rec_numeral)
  with on_chip_deselect [OF dev g2(2)] show ?thesis by blast
qed

subsection \<open>A controller with a chip behind it, for witnesses\<close>

definition nand_hw :: "chip \<Rightarrow> hw" where
  "nand_hw c0 = \<lparr>mmio = (\<lambda>h a.
       if a = NFDATA then (case chip_drives (chip_of c0 h) of Some d \<Rightarrow> ucast d | None \<Rightarrow> 0)
       else if a = NFSTAT then 1
       else if a = NFECCSTAT then push_bit 24 1 OR push_bit 25 1
       else if a = NFECCSECSTAT then 0
       else reg_file (\<lambda>_. 0) h a),
     irom = (\<lambda>h b p. (0, map (cells (chip_of c0 h) (unat b * PAGE_PER_BLK + unat p)) [0..<PAGE_SIZE]))\<rparr>"

lemma nand_hw_plain:
  "a \<notin> {NFDATA, NFSTAT, NFECCSTAT, NFECCSECSTAT} \<Longrightarrow> plain_reg (nand_hw c0) a"
proof -
  assume a: "a \<notin> {NFDATA, NFSTAT, NFECCSTAT, NFECCSECSTAT}"
  have "mmio (nand_hw c0) (x # h) a = mmio (nand_hw c0) h a" if "\<forall>v. x \<noteq> Wr a v" for x h
    using that a by (cases x) (auto simp: nand_hw_def)
  with a show ?thesis by (auto simp: plain_reg_def nand_hw_def)
qed

lemma nand_hw_device: "nand_device (nand_hw c0) c0"
proof -
  have "plain_reg (nand_hw c0) NFCONT" by (rule nand_hw_plain) simp
  moreover have "responsive (nand_hw c0) NFSTAT (\<lambda>v. v AND 1 \<noteq> 0)"
    "responsive (nand_hw c0) NFECCSTAT (\<lambda>v. v AND push_bit 24 1 \<noteq> 0)"
    "responsive (nand_hw c0) NFECCSTAT (\<lambda>v. v AND push_bit 25 1 \<noteq> 0)"
    "responsive (nand_hw c0) NFECCSTAT (\<lambda>v. v AND push_bit 31 1 = 0)"
    unfolding responsive_def by (simp_all add: nand_hw_def)
  moreover have "ucast (mmio (nand_hw c0) h NFDATA) = d" if "chip_drives (chip_of c0 h) = Some d" for h d
    using that by (simp add: nand_hw_def)
  ultimately show ?thesis by (simp add: nand_device_def)
qed

lemma nand_hw_clean: "ecc_clean (nand_hw c0)"
  by (simp add: ecc_clean_def nand_hw_def)

subsection \<open>Round trip\<close>

lemma page_row_block: "page_row a div PAGE_PER_BLK = unat a div BLOCK_SIZE mod 2 ^ 13"
  using mod_mult2_eq [of "unat a div PAGE_SIZE" PAGE_PER_BLK "2 ^ 13"]
  by (simp add: page_row_def flip: div_mult2_eq)

lemma erase_block_same: "r div PAGE_PER_BLK = row div PAGE_PER_BLK \<Longrightarrow> erase_block row cs r = (\<lambda>_. 0xFF)"
  by (simp add: erase_block_def fun_eq_iff)

lemma erase_block_other: "r div PAGE_PER_BLK \<noteq> row div PAGE_PER_BLK \<Longrightarrow> erase_block row cs r = cs r"
  by (simp add: erase_block_def fun_eq_iff)

lemma and_FF_u8 [simp]: "0xFF AND x = x" "x AND 0xFF = x" for x :: u8
  by (auto intro!: bit_word_eqI simp: bit_simps bit_numeral_rec dest!: nat_less_8_cases)

lemma program_erased_page:
  "cs r = (\<lambda>_. 0xFF) \<Longrightarrow> map (program_page r (put_bytes (\<lambda>_. 0xFF) 0 (dat @ oob)) cs r) [0..<length dat] = dat"
  by (auto simp: program_page_def put_bytes_def nth_append intro!: nth_equalityI)

text \<open>
  C3. Erasing the block of a page, programming 2048 bytes into the page with the 8-bit ECC routine
  and reading it back returns those bytes with no error, on any chip that follows its data sheet and
  whose decoder finds no error; the pages of all other blocks are as before.
\<close>

theorem nand_page_roundtrip:
  assumes "nand_device hw c0" "ecc_clean hw"
    and "blk AND (of_nat BLOCK_SIZE - 1) = 0" "addr AND (of_nat PAGE_SIZE - 1) = 0"
    and "unat addr div BLOCK_SIZE = unat blk div BLOCK_SIZE"
    and "length dat = PAGE_SIZE" "length buf = PAGE_SIZE"
  shows "\<exists>h1 h2 h3. nand_erase hw blk h = Some h1 \<and>
    nand_write_page_8bit hw dat addr h1 = Some h2 \<and>
    nand_read_page_8bit hw buf addr h2 = Some (0, dat, h3) \<and>
    (\<forall>r. r div PAGE_PER_BLK \<noteq> page_row addr div PAGE_PER_BLK \<longrightarrow>
      cells (chip_of c0 h3) r = cells (chip_of c0 h) r)"
proof -
  from nand_erase_chip [OF assms(1,3)] obtain h1 where h1: "nand_erase hw blk h = Some h1"
    "chip_of c0 h1 = at_rest CIdle (erase_block (page_row blk) (cells (chip_of c0 h)))" by blast
  from nand_write_page_8bit_chip [OF assms(1,4,6)] obtain h2 oob where h2:
    "nand_write_page_8bit hw dat addr h1 = Some h2"
    "chip_of c0 h2 = at_rest CIdle (program_page (page_row addr) (put_bytes (\<lambda>_. 0xFF) 0 (dat @ oob))
      (cells (chip_of c0 h1)))" by blast
  from nand_read_page_8bit_chip [OF assms(1,2,4,7), of h2] obtain h3 m where h3:
    "nand_read_page_8bit hw buf addr h2 =
      Some (0, map (cells (chip_of c0 h2) (page_row addr)) [0..<PAGE_SIZE], h3)"
    "chip_of c0 h3 = at_rest m (cells (chip_of c0 h2))" by blast
  from assms(5) have blk: "page_row addr div PAGE_PER_BLK = page_row blk div PAGE_PER_BLK"
    by (simp add: page_row_block)
  have "map (cells (chip_of c0 h2) (page_row addr)) [0..<PAGE_SIZE] = dat"
    using program_erased_page [of "cells (chip_of c0 h1)" "page_row addr" dat oob]
      h1(2) h2(2) assms(6) erase_block_same [OF blk] by (simp del: upt_rec_numeral)
  moreover have "cells (chip_of c0 h3) r = cells (chip_of c0 h) r"
    if "r div PAGE_PER_BLK \<noteq> page_row addr div PAGE_PER_BLK" for r
    using that h1(2) h2(2) h3(2) blk by (auto simp: program_page_def erase_block_other)
  ultimately show ?thesis using h1(1) h2(1) h3(1) by auto
qed

theorem nand_page_roundtrip_witness:
  "\<exists>h1 h2 h3. nand_erase (nand_hw (at_rest CIdle (\<lambda>_ _. 0))) 0x20000 [] = Some h1 \<and>
    nand_write_page_8bit (nand_hw (at_rest CIdle (\<lambda>_ _. 0))) (replicate PAGE_SIZE 0x5A) 0x20800 h1 = Some h2 \<and>
    nand_read_page_8bit (nand_hw (at_rest CIdle (\<lambda>_ _. 0))) (replicate PAGE_SIZE 0) 0x20800 h2 =
      Some (0, replicate PAGE_SIZE 0x5A, h3)"
  using nand_page_roundtrip [OF nand_hw_device nand_hw_clean, of "0x20000" "0x20800"
      "replicate PAGE_SIZE 0x5A" "replicate PAGE_SIZE 0" "at_rest CIdle (\<lambda>_ _. 0)" "[]"]
  by auto

end
