(* ===== verification/Crc_Code.thy ===== *)
theory Crc_Code
  imports Prelude
begin

text \<open>
  What a byte-wise check code promises its users, as an interface: a step that is injective in the
  register and in the byte detects every corruption of a single byte; a step whose composition is
  injective in two bytes detects every corruption within two adjacent bytes.
\<close>

locale check_code =
  fixes step :: "'c \<Rightarrow> u8 \<Rightarrow> 'c"
  assumes step_reg: "step c b = step c' b \<Longrightarrow> c = c'"
    and step_byte: "step c b = step c b' \<Longrightarrow> b = b'"
begin

lemma foldl_reg: "foldl step c bs = foldl step c' bs \<longleftrightarrow> c = c'"
  by (induction bs arbitrary: c c') (auto dest: step_reg)

lemma detects_byte:
  assumes "i < length bs" "b \<noteq> bs ! i"
  shows "foldl step c (bs[i := b]) \<noteq> foldl step c bs"
proof
  assume "foldl step c (bs[i := b]) = foldl step c bs"
  moreover have "bs = take i bs @ bs ! i # drop (Suc i) bs" using assms(1) by (rule id_take_nth_drop)
  moreover have "bs[i := b] = take i bs @ b # drop (Suc i) bs" using assms(1) by (rule upd_conv_take_nth_drop)
  ultimately have "foldl step c (take i bs @ b # drop (Suc i) bs) =
      foldl step c (take i bs @ bs ! i # drop (Suc i) bs)" by metis
  then have "step (foldl step c (take i bs)) b = step (foldl step c (take i bs)) (bs ! i)"
    by (simp add: foldl_reg)
  with assms(2) show False by (auto dest: step_byte)
qed

end

locale burst_code = check_code +
  assumes step_pair: "step (step c a) b = step (step c a') b' \<Longrightarrow> a = a' \<and> b = b'"
begin

lemma detects_pair:
  "(a, b) \<noteq> (a', b') \<Longrightarrow> foldl step c (xs @ a # b # ys) \<noteq> foldl step c (xs @ a' # b' # ys)"
  by (auto simp: foldl_reg dest: step_pair)

end

end
