(* ===== verification/Spl_Xmodem.thy ===== *)
theory Spl_Xmodem
  imports Crc_Code
begin

text \<open>
  The XMODEM receiver of the loader, \<^verbatim>\<open>board/samsung/smdkv210/spl/xmodem.c\<close> with its header
  \<^verbatim>\<open>xmodem.h\<close>: the CRC, the frame check, and the state machine that is called once per turn of the
  main loop. The global \<open>xmodem\<close> is a record; its three function pointers are optional functions over
  the state \<open>'s\<close> of the client that installed them. A buffer passed by pointer is passed as an array
  and an offset and comes back in the result. \<open>None\<close> means that the call has no defined result: a
  client function that does not return, or an access outside an array.
\<close>

unbundle bit_operations_syntax

abbreviation (input) XM_FRAME_SOH :: u8 where "XM_FRAME_SOH \<equiv> 0x01"
abbreviation (input) XM_FRAME_EOT :: u8 where "XM_FRAME_EOT \<equiv> 0x04"
abbreviation (input) XM_FRAME_ACK :: u8 where "XM_FRAME_ACK \<equiv> 0x06"
abbreviation (input) XM_FRAME_NAK :: u8 where "XM_FRAME_NAK \<equiv> 0x15"
abbreviation (input) XM_FRAME_CAN :: u8 where "XM_FRAME_CAN \<equiv> 0x18"
abbreviation (input) XM_FRAME_NCG :: u8 where "XM_FRAME_NCG \<equiv> 0x43"
abbreviation (input) XM_FRAME_UNKOWN :: u8 where "XM_FRAME_UNKOWN \<equiv> 0xFF"
abbreviation XMODEM_DATA_SIZE :: nat where "XMODEM_DATA_SIZE \<equiv> 128"
abbreviation XMODEM_SOH_FRAME_SIZE :: nat where "XMODEM_SOH_FRAME_SIZE \<equiv> 133"
abbreviation XM_NCG_RESEND_DLY :: int where "XM_NCG_RESEND_DLY \<equiv> 1000"
abbreviation XM_SOH_RECV_TIMEOUT :: int where "XM_SOH_RECV_TIMEOUT \<equiv> 1000"
abbreviation (input) IDX_FRAME :: nat where "IDX_FRAME \<equiv> 0"
abbreviation (input) IDX_PKT_NUM :: nat where "IDX_PKT_NUM \<equiv> 1"
abbreviation (input) IDX_PKT_NUM_A :: nat where "IDX_PKT_NUM_A \<equiv> 2"
abbreviation (input) IDX_DATAS :: nat where "IDX_DATAS \<equiv> 3"
abbreviation (input) IDX_CHKSUM :: nat where "IDX_CHKSUM \<equiv> 131"

datatype XMODEM_EVT =
    XMEVT_ENTRY | XMEVT_SOH | XMEVT_EOT | XMEVT_ACK | XMEVT_NAK | XMEVT_CAN | XMEVT_NCG | XMEVT_UNKOWN

datatype XMODEM_STATE = XMSTA_ENTRY | XMSTA_WAIT_TRANS | XMSTA_TRANSMIT | XMSTA_EXIT | XMSTA_STOP

type_synonym 's xModemCallback = "XMODEM_EVT \<Rightarrow> u32 \<Rightarrow> u8 list option \<Rightarrow> u32 \<Rightarrow> 's \<Rightarrow> 's option"
type_synonym 's xModemPutData = "u8 list \<Rightarrow> u32 \<Rightarrow> 's \<Rightarrow> (bool \<times> 's) option"
type_synonym 's xModemGetData = "u8 list \<Rightarrow> nat \<Rightarrow> u32 \<Rightarrow> 's \<Rightarrow> (bool \<times> u8 list \<times> u32 \<times> 's) option"

record 's XMODEM =
  putData :: "'s xModemPutData option"
  getData :: "'s xModemGetData option"
  xmCallback :: "'s xModemCallback option"
  xmState :: XMODEM_STATE
  timestamp_ncg_sent_prev :: u32
  ncg_send_retry_times :: u32
  timestamp_soh_recv_prev :: u32
  soh_nak_retry_times :: u32
  frame_offset :: u8
  frame :: "u8 list"

definition xmInit ::
  "'s xModemPutData option \<Rightarrow> 's xModemGetData option \<Rightarrow> 's xModemCallback option \<Rightarrow> 's XMODEM \<Rightarrow> 's XMODEM" where
  "xmInit put get cb x = x\<lparr>putData := put, getData := get, xmCallback := cb, xmState := XMSTA_STOP\<rparr>"

definition xmStart :: "'s XMODEM \<Rightarrow> 's XMODEM" where
  "xmStart x = x\<lparr>xmState := XMSTA_ENTRY\<rparr>"

subsection \<open>Frame check\<close>

definition crc_byte :: "u16 \<Rightarrow> u8 \<Rightarrow> u16" where
  "crc_byte crc d =
     (let crc = drop_bit 8 crc OR push_bit 8 crc;
          crc = crc XOR ucast d;
          crc = crc XOR drop_bit 4 (crc AND 0xFF);
          crc = crc XOR push_bit 12 crc
      in crc XOR push_bit 5 (crc AND 0xFF))"

definition calcCrc :: "u8 list \<Rightarrow> u8 \<Rightarrow> u16 option" where
  "calcCrc start len =
     (if unat len \<le> length start then Some (foldl crc_byte 0x00 (take (unat len) start)) else None)"

definition checkSohFrame :: "u8 list option \<Rightarrow> u8 \<Rightarrow> bool option" where
  "checkSohFrame buff len =
     (case buff of
        None \<Rightarrow> Some False
      | Some buff \<Rightarrow>
          if len < of_nat XMODEM_SOH_FRAME_SIZE then Some False
          else do {
            b0 \<leftarrow> arr_get buff IDX_FRAME;
            if b0 \<noteq> XM_FRAME_SOH then Some False
            else do {
              sn \<leftarrow> arr_get buff IDX_PKT_NUM;
              sna \<leftarrow> arr_get buff IDX_PKT_NUM_A;
              if sn XOR sna \<noteq> 0xFF then Some False
              else do {
                crc_cal \<leftarrow> calcCrc (drop IDX_DATAS buff) (of_nat XMODEM_DATA_SIZE);
                hi \<leftarrow> arr_get buff IDX_CHKSUM;
                lo \<leftarrow> arr_get buff (IDX_CHKSUM + 1);
                let pkt_cal = push_bit 8 (ucast hi) OR ucast lo;
                Some (crc_cal = pkt_cal)
              }
            }
          })"

subsection \<open>State machine\<close>

definition callback :: "'s XMODEM \<Rightarrow> XMODEM_EVT \<Rightarrow> u32 \<Rightarrow> u8 list option \<Rightarrow> u32 \<Rightarrow> 's \<Rightarrow> 's option" where
  "callback x evt d buf n s = (case xmCallback x of None \<Rightarrow> Some s | Some cb \<Rightarrow> cb evt d buf n s)"

definition put_byte :: "'s XMODEM \<Rightarrow> u8 \<Rightarrow> 's \<Rightarrow> 's option" where
  "put_byte x b s =
     (case putData x of None \<Rightarrow> Some s | Some put \<Rightarrow> map_option snd (put [b] 1 s))"

definition dealSohFrame :: "'s XMODEM \<Rightarrow> 's \<Rightarrow> (bool \<times> 's XMODEM \<times> 's) option" where
  "dealSohFrame x s =
     (case getData x of
        None \<Rightarrow> Some (False, x, s)
      | Some get \<Rightarrow> do {
          let data_len = of_nat XMODEM_SOH_FRAME_SIZE - ucast (frame_offset x);
          (ok, fr, data_len, s) \<leftarrow> get (frame x) (unat (frame_offset x)) data_len s;
          let x = x\<lparr>frame := fr\<rparr>;
          if ok then do {
            let x = x\<lparr>frame_offset := ucast (ucast (frame_offset x) + data_len)\<rparr>;
            good \<leftarrow> checkSohFrame (Some (frame x)) (frame_offset x);
            if good then do {
              s \<leftarrow> callback x XMEVT_SOH (ucast (frame x ! IDX_PKT_NUM)) (Some (drop IDX_DATAS (frame x)))
                     (of_nat XMODEM_DATA_SIZE) s;
              let x = x\<lparr>frame_offset := 0\<rparr>;
              Some (True, x, s)
            }
            else Some (False, x, s)
          }
          else Some (False, x, s)
        })"

definition dealSohFrameTimeout :: "'s XMODEM \<Rightarrow> 's XMODEM" where
  "dealSohFrameTimeout x = x\<lparr>frame_offset := 0\<rparr>"

definition dealExceptionFrame :: "'s XMODEM \<Rightarrow> 's \<Rightarrow> (u8 \<times> 's XMODEM \<times> 's) option" where
  "dealExceptionFrame x s =
     (case getData x of
        None \<Rightarrow> Some (XM_FRAME_UNKOWN, x, s)
      | Some get \<Rightarrow> do {
          let data_len = of_nat XMODEM_SOH_FRAME_SIZE - ucast (frame_offset x);
          (ok, fr, data_len, s) \<leftarrow> get (frame x) (unat (frame_offset x)) data_len s;
          let x = x\<lparr>frame := fr\<rparr>;
          if ok then do {
            let x = x\<lparr>frame_offset := ucast (ucast (frame_offset x) + data_len)\<rparr>;
            if frame_offset x = 1 then
              if frame x ! IDX_FRAME = XM_FRAME_EOT then do {
                s \<leftarrow> callback x XMEVT_EOT 0 None 0 s;
                Some (XM_FRAME_EOT, x\<lparr>frame_offset := 0\<rparr>, s)
              }
              else if frame x ! IDX_FRAME = XM_FRAME_CAN then do {
                s \<leftarrow> callback x XMEVT_CAN 0 None 0 s;
                Some (XM_FRAME_CAN, x\<lparr>frame_offset := 0\<rparr>, s)
              }
              else Some (XM_FRAME_UNKOWN, x, s)
            else Some (XM_FRAME_UNKOWN, x, s)
          }
          else Some (XM_FRAME_UNKOWN, x, s)
        })"

definition dealExit :: "'s XMODEM \<Rightarrow> 's XMODEM" where
  "dealExit x = x"

text \<open>Subtraction of two C \<open>int\<close> values, undefined on overflow.\<close>

definition int_sub :: "u32 \<Rightarrow> u32 \<Rightarrow> int option" where
  "int_sub a b = (let d = sint a - sint b in if - (2 ^ 31) \<le> d \<and> d < 2 ^ 31 then Some d else None)"

definition xm_entry :: "'s XMODEM \<Rightarrow> 's \<Rightarrow> ('s XMODEM \<times> 's) option" where
  "xm_entry x s = do {
     let x = x\<lparr>ncg_send_retry_times := 0, timestamp_ncg_sent_prev := 0, soh_nak_retry_times := 0,
               timestamp_soh_recv_prev := 0, frame_offset := 0\<rparr>;
     s \<leftarrow> callback x XMEVT_ENTRY 0 None 0 s;
     Some (x\<lparr>xmState := XMSTA_WAIT_TRANS\<rparr>, s)
   }"

definition xm_wait_trans :: "u32 \<Rightarrow> 's XMODEM \<Rightarrow> 's \<Rightarrow> ('s XMODEM \<times> 's) option" where
  "xm_wait_trans timestamp x s = do {
     (got, x, s) \<leftarrow> dealSohFrame x s;
     if got then do {
       s \<leftarrow> put_byte x XM_FRAME_ACK s;
       Some (x\<lparr>soh_nak_retry_times := 0, timestamp_soh_recv_prev := timestamp, xmState := XMSTA_TRANSMIT\<rparr>, s)
     }
     else do {
       d \<leftarrow> int_sub timestamp (timestamp_ncg_sent_prev x);
       if d \<ge> XM_NCG_RESEND_DLY then do {
         let n = ncg_send_retry_times x;
         let x = x\<lparr>ncg_send_retry_times := n + 1\<rparr>;
         if sint n > 100 then Some (x\<lparr>xmState := XMSTA_EXIT\<rparr>, s)
         else do {
           let x = dealSohFrameTimeout x;
           let x = x\<lparr>timestamp_ncg_sent_prev := timestamp\<rparr>;
           s \<leftarrow> put_byte x XM_FRAME_NCG s;
           Some (x, s)
         }
       }
       else Some (x, s)
     }
   }"

definition xm_transmit :: "u32 \<Rightarrow> 's XMODEM \<Rightarrow> 's \<Rightarrow> ('s XMODEM \<times> 's) option" where
  "xm_transmit timestamp x s = do {
     (e, x, s) \<leftarrow> dealExceptionFrame x s;
     if e = XM_FRAME_EOT then Some (x\<lparr>xmState := XMSTA_EXIT\<rparr>, s)
     else do {
       (e, x, s) \<leftarrow> dealExceptionFrame x s;
       if e = XM_FRAME_CAN then Some (x\<lparr>xmState := XMSTA_EXIT\<rparr>, s)
       else do {
         (got, x, s) \<leftarrow> dealSohFrame x s;
         if got then do {
           s \<leftarrow> put_byte x XM_FRAME_ACK s;
           Some (x\<lparr>soh_nak_retry_times := 0, timestamp_soh_recv_prev := timestamp\<rparr>, s)
         }
         else do {
           d \<leftarrow> int_sub timestamp (timestamp_soh_recv_prev x);
           if d \<ge> XM_SOH_RECV_TIMEOUT then do {
             let x = dealSohFrameTimeout x;
             let n = soh_nak_retry_times x;
             let x = x\<lparr>soh_nak_retry_times := n + 1\<rparr>;
             if sint n > 50 then Some (x\<lparr>xmState := XMSTA_EXIT\<rparr>, s)
             else do {
               let x = x\<lparr>timestamp_soh_recv_prev := timestamp\<rparr>;
               s \<leftarrow> put_byte x XM_FRAME_NAK s;
               Some (x, s)
             }
           }
           else Some (x, s)
         }
       }
     }
   }"

definition xModemFSM :: "u32 \<Rightarrow> 's XMODEM \<Rightarrow> 's \<Rightarrow> (XMODEM_STATE \<times> 's XMODEM \<times> 's) option" where
  "xModemFSM timestamp x s = do {
     (x, s) \<leftarrow> (case xmState x of
         XMSTA_ENTRY \<Rightarrow> xm_entry x s
       | XMSTA_WAIT_TRANS \<Rightarrow> xm_wait_trans timestamp x s
       | XMSTA_TRANSMIT \<Rightarrow> xm_transmit timestamp x s
       | XMSTA_EXIT \<Rightarrow> Some ((dealExit x)\<lparr>xmState := XMSTA_STOP\<rparr>, s)
       | XMSTA_STOP \<Rightarrow> Some (x, s));
     Some (xmState x, x, s)
   }"

subsection \<open>The check code is CRC-16/XMODEM\<close>

text \<open>
  The reference: one division step by the polynomial \<open>x^16 + x^12 + x^5 + 1\<close>, most significant bit
  first; a byte is added at the top of the register and divided out in eight steps.
\<close>

definition crc16_bit :: "u16 \<Rightarrow> u16" where
  "crc16_bit c = push_bit 1 c XOR (if bit c 15 then 0x1021 else 0)"

definition crc16_ref :: "u16 \<Rightarrow> u8 \<Rightarrow> u16" where
  "crc16_ref c d = (crc16_bit ^^ 8) (c XOR push_bit 8 (ucast d))"

lemma bit_crc16_poly: "bit (0x1021 :: u16) n \<longleftrightarrow> n \<in> {0, 5, 12}"
  by (cases "n < 16") (auto simp: bit_u16_ge bit_numeral_rec dest!: nat_less_16_cases)

lemma bit_crc16_bit:
  "bit (crc16_bit c) n \<longleftrightarrow>
     n < 16 \<and> ((n \<noteq> 0 \<and> bit c (n - 1)) \<noteq> (bit c 15 \<and> n \<in> {0, 5, 12}))"
proof -
  have "bit (push_bit 1 c) n \<longleftrightarrow> n < 16 \<and> n \<noteq> 0 \<and> bit c (n - 1)"
    by (auto simp only: bit_push_bit_iff) (auto simp: bit_u16_ge)
  then show ?thesis
    by (cases "bit c 15") (auto simp only: crc16_bit_def bit_xor_iff bit_crc16_poly if_True if_False bit_0_eq bot_fun_def bot_bool_def)
qed

lemma crc16_bit_inj: "crc16_bit c = crc16_bit c' \<Longrightarrow> c = c'"
proof (rule bit_word_eqI)
  fix n
  assume eq: "crc16_bit c = crc16_bit c'" and n: "n < LENGTH(16)"
  from arg_cong [OF eq, of "\<lambda>x. bit x 0"] have top: "bit c 15 = bit c' 15" by (simp add: bit_crc16_bit)
  from arg_cong [OF eq, of "\<lambda>x. bit x (Suc n)"] top n show "bit c n = bit c' n"
    by (cases "n = 15") (auto simp: bit_crc16_bit)
qed

lemma crc16_bits_inj: "(crc16_bit ^^ k) c = (crc16_bit ^^ k) c' \<Longrightarrow> c = c'"
  by (induction k) (auto dest: crc16_bit_inj)

lemma crc16_bit_xor: "crc16_bit (a XOR b) = crc16_bit a XOR crc16_bit b"
  by (rule bit_word_eqI) (auto simp: bit_crc16_bit bit_xor_iff)

lemma crc16_bits_xor: "(crc16_bit ^^ k) (a XOR b) = (crc16_bit ^^ k) a XOR (crc16_bit ^^ k) b"
  by (induction k) (simp_all add: crc16_bit_xor)

lemma crc16_bits_low: "k \<le> 8 \<Longrightarrow> (crc16_bit ^^ k) (ucast (d :: u8)) = push_bit k (ucast d)"
proof (induction k)
  case (Suc k)
  then have "\<not> bit (push_bit k (ucast d) :: u16) 15"
    by (auto simp: bit_simps dest: bit_imp_le_length)
  then have "crc16_bit (push_bit k (ucast d)) = push_bit 1 (push_bit k (ucast d))"
    by (simp add: crc16_bit_def)
  with Suc show ?case by (simp only: funpow.simps o_apply push_bit_push_bit) (simp add: Suc_le_eq)
qed simp

lemma xor_left_cancel [simp]: "a XOR x = a XOR y \<longleftrightarrow> x = y" for a x y :: "'a::len word"
proof
  assume "a XOR x = a XOR y"
  then have "a XOR (a XOR x) = a XOR (a XOR y)" by simp
  then show "x = y" by (simp flip: xor.assoc)
qed simp

lemma xor_right_cancel [simp]: "x XOR a = y XOR a \<longleftrightarrow> x = y" for a x y :: "'a::len word"
  using xor_left_cancel [of a x y] by (simp add: xor.commute)

lemma ucast_u8_u16_inj: "ucast a = (ucast b :: u16) \<Longrightarrow> a = b" for a b :: u8
proof (rule bit_word_eqI)
  fix n
  assume eq: "ucast a = (ucast b :: u16)" and n: "n < LENGTH(8)"
  from eq have "bit (ucast a :: u16) n = bit (ucast b :: u16) n" by simp
  with n show "bit a n = bit b n" by (auto simp only: bit_unsigned_iff) auto
qed

definition pair16 :: "u8 \<Rightarrow> u8 \<Rightarrow> u16" where
  "pair16 a b = push_bit 8 (ucast a) XOR ucast b"

lemma pair16_inj: "pair16 a b = pair16 a' b' \<longleftrightarrow> a = a' \<and> b = b'"
proof (intro iffI conjI; (elim conjE)?)
  assume eq: "pair16 a b = pair16 a' b'"
  show "a = a'"
  proof (rule bit_word_eqI)
    fix n assume "n < LENGTH(8)"
    with arg_cong [OF eq, of "\<lambda>w. bit w (n + 8)"] show "bit a n = bit a' n"
      by (simp add: pair16_def bit_simps bit_u8_ge)
  qed
  then have "ucast b = (ucast b' :: u16)" using eq by (simp add: pair16_def)
  then show "b = b'" by (rule ucast_u8_u16_inj)
qed simp

lemma crc16_ref_pair: "crc16_ref (crc16_ref c a) b = (crc16_bit ^^ 16) (c XOR pair16 a b)"
proof -
  have "push_bit 8 (ucast b) = (crc16_bit ^^ 8) (ucast b)" by (simp add: crc16_bits_low)
  then have "crc16_ref (crc16_ref c a) b = (crc16_bit ^^ 8) ((crc16_bit ^^ 8) (c XOR pair16 a b))"
    by (simp only: crc16_ref_def pair16_def crc16_bits_xor xor.assoc)
  also have "\<dots> = (crc16_bit ^^ (8 + 8)) (c XOR pair16 a b)" by (simp only: funpow_add o_apply)
  finally show ?thesis by simp
qed

lemma crc16_bits_8:
  "(crc16_bit ^^ 8) c = crc16_bit (crc16_bit (crc16_bit (crc16_bit (crc16_bit (crc16_bit (crc16_bit (crc16_bit c)))))))"
  by (simp add: eval_nat_numeral)


definition crc_swapped :: "u16 \<Rightarrow> u16" where
  "crc_swapped x = (let x = drop_bit 8 x OR push_bit 8 x;
       x = x XOR drop_bit 4 (x AND 0xFF);
       x = x XOR push_bit 12 x
     in x XOR push_bit 5 (x AND 0xFF))"

lemma crc_byte_swapped: "crc_byte c d = crc_swapped (c XOR push_bit 8 (ucast d))"
proof -
  have "(drop_bit 8 c OR push_bit 8 c) XOR ucast d =
      drop_bit 8 (c XOR push_bit 8 (ucast d)) OR push_bit 8 (c XOR push_bit 8 (ucast d))"
    by (rule bit_word_eqI) (auto simp: bit_simps)
  then show ?thesis by (simp only: crc_byte_def crc_swapped_def Let_def)
qed

lemma crc_swapped_bits: "crc_swapped x = (crc16_bit ^^ 8) x"
proof (rule bit_word_eqI)
  fix n assume "n < LENGTH(16)"
  then have "n \<in> {0, 1, 2, 3, 4, 5, 6, 7, 8, 9, 10, 11, 12, 13, 14, 15}" using nat_less_16_cases by simp
  then show "bit (crc_swapped x) n = bit ((crc16_bit ^^ 8) x) n"
    unfolding crc16_bits_8 crc_swapped_def Let_def
    by (elim insertE) (simp_all add: bit_crc16_bit bit_simps bit_numeral_rec, auto)
qed

lemma crc_byte_ref: "crc_byte = crc16_ref"
  by (simp add: fun_eq_iff crc_byte_swapped crc_swapped_bits crc16_ref_def)

interpretation xcrc: burst_code crc_byte
proof unfold_locales
  fix c c' :: u16 and a b a' b' :: u8
  show "c = c'" if "crc_byte c b = crc_byte c' b"
    using crc16_bits_inj [OF that [unfolded crc_byte_ref crc16_ref_def]] by simp
  show "b = b'" if "crc_byte c b = crc_byte c b'"
    using crc16_bits_inj [OF that [unfolded crc_byte_ref crc16_ref_def]] pair16_inj [of b 0 b' 0]
    by (simp add: pair16_def)
  show "a = a' \<and> b = b'" if "crc_byte (crc_byte c a) b = crc_byte (crc_byte c a') b'"
    using crc16_bits_inj [OF that [unfolded crc_byte_ref crc16_ref_pair]] by (simp add: pair16_inj)
qed

text \<open>
  C15. The checksum the receiver computes with shifts and masks over a block is the CRC-16 with
  polynomial 0x1021 and initial value 0, computed by bitwise division.
\<close>

theorem calcCrc_is_crc16:
  assumes "unat len \<le> length bs"
  shows "calcCrc bs len = Some (foldl crc16_ref 0 (take (unat len) bs))"
  using assms by (simp add: calcCrc_def crc_byte_ref)

theorem calcCrc_is_crc16_witness:
  "calcCrc [0x31, 0x32, 0x33, 0x34, 0x35, 0x36, 0x37, 0x38, 0x39] 9 = Some 0x31C3 \<and>
   foldl crc16_ref 0 [0x31, 0x32, 0x33, 0x34, 0x35, 0x36, 0x37, 0x38, 0x39] = 0x31C3"
  using calcCrc_is_crc16 [of 9 "[0x31, 0x32, 0x33, 0x34, 0x35, 0x36, 0x37, 0x38, 0x39]"]
  by (simp add: calcCrc_def crc_byte_def Let_def)

text \<open>What the frame check accepts.\<close>

definition soh_frame :: "u8 list \<Rightarrow> bool" where
  "soh_frame fr \<longleftrightarrow> length fr = XMODEM_SOH_FRAME_SIZE \<and> fr ! IDX_FRAME = XM_FRAME_SOH \<and>
     fr ! IDX_PKT_NUM XOR fr ! IDX_PKT_NUM_A = 0xFF \<and>
     foldl crc_byte 0 (take XMODEM_DATA_SIZE (drop IDX_DATAS fr)) =
       push_bit 8 (ucast (fr ! IDX_CHKSUM)) OR ucast (fr ! (IDX_CHKSUM + 1))"

lemma checkSohFrame_iff:
  "length fr = XMODEM_SOH_FRAME_SIZE \<Longrightarrow>
   checkSohFrame (Some fr) len = Some (XMODEM_SOH_FRAME_SIZE \<le> unat len \<and> soh_frame fr)"
  by (auto simp: checkSohFrame_def soh_frame_def calcCrc_def word_less_nat_alt)

lemma pair16_or: "push_bit 8 (ucast a) OR ucast b = pair16 a b"
  unfolding pair16_def by (rule bit_word_eqI) (auto simp: bit_simps bit_u8_ge)

lemma soh_data_change:
  assumes "soh_frame fr" "length fr' = XMODEM_SOH_FRAME_SIZE" "drop IDX_CHKSUM fr' = drop IDX_CHKSUM fr"
    and "foldl crc_byte 0 (take XMODEM_DATA_SIZE (drop IDX_DATAS fr')) \<noteq>
      foldl crc_byte 0 (take XMODEM_DATA_SIZE (drop IDX_DATAS fr))"
  shows "\<not> soh_frame fr'"
proof -
  from assms(1) have len: "length fr = XMODEM_SOH_FRAME_SIZE" by (simp add: soh_frame_def)
  have "fr' ! IDX_CHKSUM = fr ! IDX_CHKSUM" "fr' ! (IDX_CHKSUM + 1) = fr ! (IDX_CHKSUM + 1)"
    using arg_cong [OF assms(3), of "\<lambda>xs. xs ! 0"] arg_cong [OF assms(3), of "\<lambda>xs. xs ! 1"] len assms(2) by simp_all
  with assms(1,4) show ?thesis by (simp add: soh_frame_def)
qed

text \<open>
  A frame that the receiver accepts is rejected after any change of exactly one of its 133 bytes.
\<close>

theorem checkSohFrame_detects_byte:
  assumes "length fr = XMODEM_SOH_FRAME_SIZE" "checkSohFrame (Some fr) len = Some True"
    and "i < XMODEM_SOH_FRAME_SIZE" "b \<noteq> fr ! i"
  shows "checkSohFrame (Some (fr[i := b])) len = Some False"
proof -
  let ?fr = "fr[i := b]"
  from assms(1,2) have good: "soh_frame fr" by (simp add: checkSohFrame_iff)
  note parts = good [unfolded soh_frame_def pair16_or]
  have sn: "x XOR fr ! IDX_PKT_NUM_A = 0xFF \<longleftrightarrow> x = fr ! IDX_PKT_NUM"
      "fr ! IDX_PKT_NUM XOR x = 0xFF \<longleftrightarrow> x = fr ! IDX_PKT_NUM_A" for x
    using parts xor_right_cancel [of x "fr ! IDX_PKT_NUM_A" "fr ! IDX_PKT_NUM"]
      xor_left_cancel [of "fr ! IDX_PKT_NUM" x "fr ! IDX_PKT_NUM_A"] by simp_all
  consider "i = 0" | "i = 1" | "i = 2" | "i = 131" | "i = 132" | "3 \<le> i" "i < 131"
    using assms(3) by fastforce
  then have "\<not> soh_frame ?fr"
  proof cases
    case 6
    let ?d = "take XMODEM_DATA_SIZE (drop IDX_DATAS fr)"
    have "take XMODEM_DATA_SIZE (drop IDX_DATAS ?fr) = ?d[i - 3 := b]"
      using 6 by (simp add: drop_update_swap take_update_swap)
    moreover have "i - 3 < length ?d" "b \<noteq> ?d ! (i - 3)" using 6 assms(1,4) by simp_all
    ultimately show ?thesis
      using soh_data_change [OF good, of ?fr] xcrc.detects_byte [of "i - 3" ?d b 0] 6 assms(1) by simp
  qed (use parts assms(1,4) sn in \<open>simp_all add: soh_frame_def pair16_or pair16_inj
       drop_update_swap take_update_cancel\<close>)
  with assms(1) show ?thesis by (simp add: checkSohFrame_iff)
qed

text \<open>A frame of zeros, for witnesses.\<close>

definition blank_frame :: "u8 \<Rightarrow> u8 list" where
  "blank_frame n = [XM_FRAME_SOH, n, NOT n] @ replicate XMODEM_DATA_SIZE 0 @ [0, 0]"

lemma crc_zeros: "foldl crc_byte 0 (replicate n 0) = 0"
  by (induction n) (simp_all add: crc_byte_def Let_def)

lemma soh_blank_frame: "soh_frame (blank_frame n)"
proof -
  have "n XOR NOT n = 0xFF"
    by (auto intro!: bit_word_eqI simp: bit_simps bit_numeral_rec dest!: nat_less_8_cases)
  then show ?thesis
    by (simp add: soh_frame_def blank_frame_def crc_zeros nth_append nth_Cons')
qed

lemma length_blank_frame: "length (blank_frame n) = XMODEM_SOH_FRAME_SIZE"
  by (simp add: blank_frame_def)

theorem checkSohFrame_detects_byte_witness:
  "checkSohFrame (Some (blank_frame 1)) 133 = Some True \<and>
   checkSohFrame (Some ((blank_frame 1)[7 := 0x80])) 133 = Some False"
proof -
  have "blank_frame 1 ! 7 = 0" by (simp add: blank_frame_def nth_append nth_Cons')
  moreover have "checkSohFrame (Some (blank_frame 1)) 133 = Some True"
    by (simp add: checkSohFrame_iff length_blank_frame soh_blank_frame)
  ultimately show ?thesis
    using checkSohFrame_detects_byte [of "blank_frame 1" 133 7 "0x80"] by (simp add: length_blank_frame)
qed

text \<open>
  C10. A frame that the receiver accepts is rejected after any change that stays within two adjacent
  bytes of its data block, so every burst of up to nine bits in the data is detected.
\<close>

theorem checkSohFrame_detects_pair:
  assumes "length fr = XMODEM_SOH_FRAME_SIZE" "checkSohFrame (Some fr) len = Some True"
    and "IDX_DATAS \<le> i" "i + 1 < IDX_CHKSUM" "(a, b) \<noteq> (fr ! i, fr ! (i + 1))"
  shows "checkSohFrame (Some (fr[i := a, i + 1 := b])) len = Some False"
proof -
  obtain k where k: "i = 3 + k" using assms(3) by (auto dest: le_Suc_ex)
  let ?d = "take XMODEM_DATA_SIZE (drop IDX_DATAS fr)" and ?k = k
  let ?d' = "take XMODEM_DATA_SIZE (drop IDX_DATAS (fr[i := a, i + 1 := b]))"
  from assms(1,2) have good: "soh_frame fr" by (simp add: checkSohFrame_iff)
  have split: "xs = take k xs @ xs ! k # xs ! (k + 1) # drop (k + 2) xs" if "k + 1 < length xs" for k and xs :: "u8 list"
    using that by (simp add: Cons_nth_drop_Suc)
  have "?d' = ?d[?k := a, ?k + 1 := b]"
    by (simp add: k drop_update_swap take_update_swap)
  moreover have "?d[?k := a, ?k + 1 := b] = take ?k ?d @ a # b # drop (?k + 2) ?d"
    using split [of ?k "?d[?k := a, ?k + 1 := b]"] assms(1,4) by (simp add: k)
  moreover have "?d = take ?k ?d @ fr ! i # fr ! (i + 1) # drop (?k + 2) ?d"
    using split [of ?k ?d] assms(1,4) by (simp add: k)
  ultimately have "foldl crc_byte 0 ?d' \<noteq> foldl crc_byte 0 ?d"
    using xcrc.detects_pair [OF assms(5), of 0 "take ?k ?d" "drop (?k + 2) ?d"] by metis
  with soh_data_change [OF good, of "fr[i := a, i + 1 := b]"] assms(1,4)
  show ?thesis by (simp add: checkSohFrame_iff)
qed

theorem checkSohFrame_detects_pair_witness:
  "checkSohFrame (Some (blank_frame 1)) 133 = Some True \<and>
   checkSohFrame (Some ((blank_frame 1)[7 := 0x01, 8 := 0x80])) 133 = Some False"
proof -
  have "blank_frame 1 ! 7 = 0" by (simp add: blank_frame_def nth_append nth_Cons')
  moreover have "checkSohFrame (Some (blank_frame 1)) 133 = Some True"
    by (simp add: checkSohFrame_iff length_blank_frame soh_blank_frame)
  ultimately show ?thesis
    using checkSohFrame_detects_pair [of "blank_frame 1" 133 7 "0x01" "0x80"] by (simp add: length_blank_frame)
qed

end
