(* ===== verification/Xm_Link.thy ===== *)
theory Xm_Link
  imports Spl_Xmodem
begin

text \<open>
  The contract between the XMODEM receiver and the program that installs its three functions, as a
  locale, and what the receiver does on a line that obeys it. The locale is interpreted on the
  functions of the loader in \<open>Spl_Main\<close>. A turn of the main loop hands the receiver at most one
  received byte and calls the state machine with the current time.
\<close>

unbundle bit_operations_syntax

type_synonym turn = "u8 option \<times> u32"

fun turns :: "(u8 \<Rightarrow> 's \<Rightarrow> 's) \<Rightarrow> turn list \<Rightarrow> 's XMODEM \<Rightarrow> 's \<Rightarrow> ('s XMODEM \<times> 's) option" where
  "turns recv [] x s = Some (x, s)"
| "turns recv ((c, t) # ts) x s = do {
     let s = (case c of None \<Rightarrow> s | Some c \<Rightarrow> recv c s);
     (_, x, s) \<leftarrow> xModemFSM t x s;
     turns recv ts x s
   }"

definition received :: "turn list \<Rightarrow> u8 list" where
  "received ts = concat (map (\<lambda>(c, t). case c of None \<Rightarrow> [] | Some c \<Rightarrow> [c]) ts)"

lemma received_simps [simp]:
  "received [] = []" "received ((None, t) # ts) = received ts" "received ((Some c, t) # ts) = c # received ts"
  "received (xs @ ys) = received xs @ received ys"
  by (simp_all add: received_def)

lemma turns_append:
  "turns recv (xs @ ys) x s = do { (x, s) \<leftarrow> turns recv xs x s; turns recv ys x s }"
  by (induction recv xs x s rule: turns.induct) (auto simp: Let_def split: bind_splits)

text \<open>The times of a list of turns are within the timeout of a reference time.\<close>

definition punctual :: "u32 \<Rightarrow> turn list \<Rightarrow> bool" where
  "punctual t0 ts \<longleftrightarrow> (\<forall>t \<in> set (map snd ts). \<exists>d. int_sub t t0 = Some d \<and> d < XM_SOH_RECV_TIMEOUT)"

lemma punctual_simps [simp]:
  "punctual t0 []"
  "punctual t0 ((c, t) # ts) \<longleftrightarrow> (\<exists>d. int_sub t t0 = Some d \<and> d < XM_SOH_RECV_TIMEOUT) \<and> punctual t0 ts"
  "punctual t0 (xs @ ys) \<longleftrightarrow> punctual t0 xs \<and> punctual t0 ys"
  by (auto simp: punctual_def)

text \<open>The receiver is installed on a port, with its frame buffer of the declared size.\<close>

definition linked ::
  "'s xModemPutData \<Rightarrow> 's xModemGetData \<Rightarrow> 's xModemCallback \<Rightarrow> 's XMODEM \<Rightarrow> bool" where
  "linked put get cb x \<longleftrightarrow> putData x = Some put \<and> getData x = Some get \<and> xmCallback x = Some cb \<and>
     length (frame x) = XMODEM_SOH_FRAME_SIZE"

text \<open>The frame buffer and offset after more bytes are stored.\<close>

definition filled :: "'s XMODEM \<Rightarrow> u8 list \<Rightarrow> 's XMODEM" where
  "filled x bs = x\<lparr>frame := take (unat (frame_offset x)) (frame x) @ bs @
       drop (unat (frame_offset x) + length bs) (frame x),
     frame_offset := of_nat (unat (frame_offset x) + length bs)\<rparr>"

lemma filled_Nil [simp]: "filled x [] = x"
  by (simp add: filled_def)

lemma filled_linked:
  "linked put get cb x \<Longrightarrow> unat (frame_offset x) + length bs \<le> XMODEM_SOH_FRAME_SIZE \<Longrightarrow>
   linked put get cb (filled x bs)"
  by (simp add: linked_def filled_def)

lemma filled_offset:
  "unat (frame_offset x) + length bs \<le> XMODEM_SOH_FRAME_SIZE \<Longrightarrow>
   unat (frame_offset (filled x bs)) = unat (frame_offset x) + length bs"
  by (simp add: filled_def unat_of_nat take_bit_eq_mod del: of_nat_add)

lemma filled_fields [simp]:
  "xmState (filled x bs) = xmState x" "timestamp_ncg_sent_prev (filled x bs) = timestamp_ncg_sent_prev x"
  "timestamp_soh_recv_prev (filled x bs) = timestamp_soh_recv_prev x"
  by (simp_all add: filled_def)

lemma filled_filled:
  assumes "unat (frame_offset x) + length bs + length cs \<le> XMODEM_SOH_FRAME_SIZE" "length (frame x) = XMODEM_SOH_FRAME_SIZE"
  shows "filled (filled x bs) cs = filled x (bs @ cs)"
proof -
  have "unat (frame_offset (filled x bs)) = unat (frame_offset x) + length bs"
    using assms by (simp add: filled_offset)
  then show ?thesis using assms by (simp add: filled_def add_ac del: of_nat_add)
qed

lemma offset_add: "ucast (ucast (k :: u8) + (of_nat n :: u32)) = (of_nat (unat k + n) :: u8)"
proof -
  have "ucast k + (of_nat n :: u32) = of_nat (unat k + n)" by (simp add: unsigned_ucast_eq)
  then show ?thesis by (simp only:) (simp add: word_unat_eq_iff unat_of_nat unsigned_ucast_eq take_bit_eq_mod mod_mod_cancel
        del: of_nat_add)
qed

text \<open>The time the current state measures its timeout from.\<close>

definition prev_time :: "'s XMODEM \<Rightarrow> u32" where
  "prev_time x = (if xmState x = XMSTA_WAIT_TRANS then timestamp_ncg_sent_prev x else timestamp_soh_recv_prev x)"

definition receiving :: "'s XMODEM \<Rightarrow> bool" where
  "receiving x \<longleftrightarrow> xmState x = XMSTA_WAIT_TRANS \<or> xmState x = XMSTA_TRANSMIT"

lemma filled_receiving [simp]: "receiving (filled x bs) = receiving x" "prev_time (filled x bs) = prev_time x"
  by (simp_all add: receiving_def prev_time_def)

text \<open>
  The retries of the current state: how many were made, how many are answered before the receiver gives up, and the byte that asks the sender
  to start or to repeat.
\<close>

definition tries :: "'s XMODEM \<Rightarrow> u32" where
  "tries x = (if xmState x = XMSTA_WAIT_TRANS then ncg_send_retry_times x else soh_nak_retry_times x)"

definition patience :: "'s XMODEM \<Rightarrow> nat" where
  "patience x = (if xmState x = XMSTA_WAIT_TRANS then 101 else 51)"

definition request :: "'s XMODEM \<Rightarrow> u8" where
  "request x = (if xmState x = XMSTA_WAIT_TRANS then XM_FRAME_NCG else XM_FRAME_NAK)"

lemma filled_retries [simp]:
  "tries (filled x bs) = tries x" "patience (filled x bs) = patience x" "request (filled x bs) = request x"
  by (simp_all add: tries_def patience_def request_def filled_def)

text \<open>
  A failed attempt: turns up to the timeout and the turn in which the timeout is noticed, that together deliver nothing, or a part of a frame, or a
  whole frame with an error. Such bytes fit the frame buffer, and the first one is not taken for the end of the transmission or a cancel.
\<close>

type_synonym attempt = "turn list \<times> turn"

definition broken :: "u8 list \<Rightarrow> bool" where
  "broken bs \<longleftrightarrow> length bs \<le> XMODEM_SOH_FRAME_SIZE \<and> \<not> soh_frame bs \<and> (bs \<noteq> [] \<longrightarrow> hd bs \<notin> {XM_FRAME_EOT, XM_FRAME_CAN})"

fun attempt_turns :: "attempt \<Rightarrow> turn list" where
  "attempt_turns (us, u) = us @ [u]"

definition late :: "u32 \<Rightarrow> u32 \<Rightarrow> bool" where
  "late t0 t \<longleftrightarrow> (\<exists>d. int_sub t t0 = Some d \<and> XM_SOH_RECV_TIMEOUT \<le> d)"

fun attempts :: "u32 \<Rightarrow> attempt list \<Rightarrow> bool" where
  "attempts t0 [] \<longleftrightarrow> True"
| "attempts t0 ((us, u) # as) \<longleftrightarrow>
     punctual t0 us \<and> broken (received (us @ [u])) \<and> late t0 (snd u) \<and> attempts (snd u) as"

fun last_time :: "u32 \<Rightarrow> attempt list \<Rightarrow> u32" where
  "last_time t0 [] = t0"
| "last_time t0 ((us, u) # as) = last_time (snd u) as"

text \<open>
  A packet of a transfer: the failed attempts, the turns of the successful one up to its last byte, the last byte and the time it arrives. A
  session of packets starts at a reference time, \<open>n\<close> attempts may fail before the first packet and 51 before every other; after the last packet
  come failed attempts and idle turns until the sender ends the transmission.
\<close>

type_synonym packet = "attempt list \<times> turn list \<times> u8 \<times> u32"

fun packet_turns :: "packet \<Rightarrow> turn list" where
  "packet_turns (as, ts, c, t) = concat (map attempt_turns as) @ ts @ [(Some c, t)]"

fun packet_bytes :: "packet \<Rightarrow> u8 list" where
  "packet_bytes (as, ts, c, t) = received ts @ [c]"

fun session :: "nat \<Rightarrow> u32 \<Rightarrow> packet list \<Rightarrow> attempt list \<Rightarrow> turn list \<Rightarrow> bool" where
  "session n t0 [] ae es \<longleftrightarrow> length ae \<le> n \<and> attempts t0 ae \<and> punctual (last_time t0 ae) es \<and> received es = []"
| "session n t0 ((as, ts, c, t) # ps) ae es \<longleftrightarrow>
     length as \<le> n \<and> attempts t0 as \<and> punctual (last_time t0 as) ts \<and> soh_frame (received ts @ [c]) \<and> session 51 t ps ae es"

definition session_turns :: "packet list \<Rightarrow> attempt list \<Rightarrow> turn list \<Rightarrow> turn list" where
  "session_turns ps ae es = concat (map packet_turns ps) @ concat (map attempt_turns ae) @ es"

text \<open>What the receiver sends in a session, and its effect on what the port shows of its state.\<close>

fun replies :: "u8 \<Rightarrow> packet list \<Rightarrow> attempt list \<Rightarrow> u8 list" where
  "replies r [] ae = replicate (length ae) r"
| "replies r ((as, ts, c, t) # ps) ae = replicate (length as) r @ [XM_FRAME_ACK] @ replies XM_FRAME_NAK ps ae"

fun puts :: "(u8 list \<Rightarrow> 'v \<Rightarrow> 'v option) \<Rightarrow> u8 list \<Rightarrow> 'v \<Rightarrow> 'v option" where
  "puts putv [] v = Some v"
| "puts putv (b # bs) v = do { v \<leftarrow> putv [b] v; puts putv bs v }"

fun accept ::
  "(XMODEM_EVT \<Rightarrow> u32 \<Rightarrow> u8 list option \<Rightarrow> u32 \<Rightarrow> 'v \<Rightarrow> 'v option) \<Rightarrow> (u8 list \<Rightarrow> 'v \<Rightarrow> 'v option) \<Rightarrow>
   u8 \<Rightarrow> packet list \<Rightarrow> attempt list \<Rightarrow> 'v \<Rightarrow> 'v option" where
  "accept cbv putv r [] ae v = puts putv (replicate (length ae) r) v"
| "accept cbv putv r (p # ps) ae v = do {
     v \<leftarrow> puts putv (replicate (length (fst p)) r) v;
     let fr = packet_bytes p;
     v \<leftarrow> cbv XMEVT_SOH (ucast (fr ! IDX_PKT_NUM)) (Some (drop IDX_DATAS fr)) (of_nat XMODEM_DATA_SIZE) v;
     v \<leftarrow> putv [XM_FRAME_ACK] v;
     accept cbv putv XM_FRAME_NAK ps ae v
   }"

text \<open>A clock that is read at least once a second, and the number of timeouts it lets pass after a reference time.\<close>

fun steady :: "nat \<Rightarrow> nat list \<Rightarrow> bool" where
  "steady t [] \<longleftrightarrow> True"
| "steady t (u # us) \<longleftrightarrow> t \<le> u \<and> u \<le> t + 1000 \<and> steady u us"

fun lapses :: "nat \<Rightarrow> nat list \<Rightarrow> nat" where
  "lapses p [] = 0"
| "lapses p (t # ts) = (if p + 1000 \<le> t then Suc (lapses t ts) else lapses p ts)"

lemma lapses_most: "steady c ts \<Longrightarrow> p \<le> c \<Longrightarrow> p + 1000 * lapses p ts \<le> last (c # ts)"
proof (induction ts arbitrary: c p)
  case (Cons t ts)
  show ?case
  proof (cases "p + 1000 \<le> t")
    case True
    then show ?thesis using Cons.IH [of t t] Cons.prems by simp
  next
    case False
    then show ?thesis using Cons.IH [of t p] Cons.prems by simp
  qed
qed simp

lemma lapses_least: "steady c ts \<Longrightarrow> p \<le> c \<Longrightarrow> c < p + 1000 \<Longrightarrow> last (c # ts) < p + 2000 * lapses p ts + 1000"
proof (induction ts arbitrary: c p)
  case (Cons t ts)
  show ?case
  proof (cases "p + 1000 \<le> t")
    case True
    then show ?thesis using Cons.IH [of t t] Cons.prems by simp
  next
    case False
    then show ?thesis using Cons.IH [of t p] Cons.prems by simp
  qed
qed simp

lemma steady_le_last: "steady c ts \<Longrightarrow> t \<in> set (c # ts) \<Longrightarrow> t \<le> last (c # ts)"
proof (induction ts arbitrary: c t)
  case (Cons u ts)
  then have u: "\<And>t. t \<in> set (u # ts) \<Longrightarrow> t \<le> last (u # ts)" "c \<le> u" by (metis steady.simps(2))+
  have "last (c # u # ts) = last (u # ts)" by simp
  then show ?case using u(1) [of t] u(1) [of u] u(2) Cons.prems(2) by (auto simp del: last.simps)
qed simp

lemma lapses_first_most: "steady t ts \<Longrightarrow> 1000 * lapses 0 (t # ts) \<le> last (t # ts)"
  using lapses_most [of t ts t] lapses_most [of t ts 0] by (auto simp del: last.simps)

lemma lapses_first_least: "steady t ts \<Longrightarrow> last (t # ts) < t + 2000 * lapses 0 (t # ts) + 1000"
  using lapses_least [of t ts t] lapses_least [of t ts 0] by (auto simp del: last.simps)

locale xmodem_port =
  fixes put :: "'s xModemPutData" and get :: "'s xModemGetData" and cb :: "'s xModemCallback"
    and recv :: "u8 \<Rightarrow> 's \<Rightarrow> 's"
    and ok :: "'s \<Rightarrow> bool" and pending :: "'s \<Rightarrow> u8 list" and view :: "'s \<Rightarrow> 'v"
    and putv :: "u8 list \<Rightarrow> 'v \<Rightarrow> 'v option"
    and cbv :: "XMODEM_EVT \<Rightarrow> u32 \<Rightarrow> u8 list option \<Rightarrow> u32 \<Rightarrow> 'v \<Rightarrow> 'v option"
  assumes recv_ok: "ok s \<Longrightarrow> ok (recv c s)"
    and recv_pending: "ok s \<Longrightarrow> pending s = [] \<Longrightarrow> pending (recv c s) = [c]"
    and recv_view: "view (recv c s) = view s"
    and get_fits: "ok s \<Longrightarrow> off + length (pending s) \<le> length fr \<Longrightarrow>
      \<exists>s'. ok s' \<and> pending s' = [] \<and> view s' = view s \<and> (\<forall>n. get fr off n s =
        Some (True, take off fr @ pending s @ drop (off + length (pending s)) fr,
          of_nat (length (pending s)), s'))"
    and get_overrun: "ok s \<Longrightarrow> pending s \<noteq> [] \<Longrightarrow> length fr < off + length (pending s) \<Longrightarrow>
      get fr off n s = None"
    and put_view: "map_option (view \<circ> snd) (put bs (of_nat (length bs)) s) = putv bs (view s)"
    and put_keeps: "put bs n s = Some (r, s') \<Longrightarrow> ok s' = ok s \<and> pending s' = pending s"
    and cb_view: "map_option view (cb e d b n s) = cbv e d b n (view s)"
    and cb_keeps: "cb e d b n s = Some s' \<Longrightarrow> ok s' = ok s \<and> pending s' = pending s"
begin

abbreviation on_port :: "'s XMODEM \<Rightarrow> bool" where
  "on_port \<equiv> linked put get cb"

text \<open>After a read of the port the receiver is \<open>x\<lparr>frame := f, frame_offset := k\<rparr>\<close>.\<close>

lemma get_filled:
  assumes "on_port x" "ok s" "unat (frame_offset x) + length (pending s) \<le> XMODEM_SOH_FRAME_SIZE"
  obtains s' f k where "ok s'" "pending s' = []" "view s' = view s"
    "filled x (pending s) = x\<lparr>frame := f, frame_offset := k\<rparr>" "length f = XMODEM_SOH_FRAME_SIZE"
    "unat k = unat (frame_offset x) + length (pending s)"
    "ucast (ucast (frame_offset x) + (of_nat (length (pending s)) :: u32)) = k"
    "\<And>n. get (frame x) (unat (frame_offset x)) n s = Some (True, f, of_nat (length (pending s)), s')"
proof -
  let ?x = "filled x (pending s)"
  from get_fits [OF assms(2), of "unat (frame_offset x)" "frame x"] assms(1,3) obtain s' where s':
    "ok s'" "pending s' = []" "view s' = view s"
    "\<And>n. get (frame x) (unat (frame_offset x)) n s = Some (True, frame ?x, of_nat (length (pending s)), s')"
    by (auto simp: linked_def filled_def)
  have "?x = x\<lparr>frame := frame ?x, frame_offset := frame_offset ?x\<rparr>" by (simp add: filled_def)
  moreover have "length (frame ?x) = XMODEM_SOH_FRAME_SIZE"
    using filled_linked [OF assms(1,3)] by (simp add: linked_def)
  moreover have "ucast (ucast (frame_offset x) + (of_nat (length (pending s)) :: u32)) = frame_offset ?x"
    by (simp add: offset_add filled_def del: of_nat_add)
  ultimately show thesis using that s' filled_offset [OF assms(3)] by blast
qed

lemma dealSohFrame_step:
  assumes "on_port x" "ok s" "unat (frame_offset x) + length (pending s) \<le> XMODEM_SOH_FRAME_SIZE"
  shows "\<exists>s'. ok s' \<and> pending s' = [] \<and> view s' = view s \<and>
    dealSohFrame x s =
      (let x = filled x (pending s) in
       if unat (frame_offset x) = XMODEM_SOH_FRAME_SIZE \<and> soh_frame (frame x) then
         do { s \<leftarrow> cb XMEVT_SOH (ucast (frame x ! IDX_PKT_NUM)) (Some (drop IDX_DATAS (frame x)))
                     (of_nat XMODEM_DATA_SIZE) s';
              Some (True, x\<lparr>frame_offset := 0\<rparr>, s) }
       else Some (False, x, s'))"
proof -
  obtain s' f k where s': "ok s'" "pending s' = []" "view s' = view s"
    and x: "filled x (pending s) = x\<lparr>frame := f, frame_offset := k\<rparr>"
    and g: "length f = XMODEM_SOH_FRAME_SIZE" "unat k = unat (frame_offset x) + length (pending s)"
      "ucast (ucast (frame_offset x) + (of_nat (length (pending s)) :: u32)) = k"
      "\<And>n. get (frame x) (unat (frame_offset x)) n s = Some (True, f, of_nat (length (pending s)), s')"
    by (rule get_filled [OF assms]) blast
  with assms(1,3) show ?thesis
    by (intro exI [of _ s']) (auto simp: dealSohFrame_def linked_def checkSohFrame_iff callback_def Let_def x g)
qed

lemma dealExceptionFrame_step:
  assumes "on_port x" "ok s" "unat (frame_offset x) + length (pending s) \<le> XMODEM_SOH_FRAME_SIZE"
  shows "\<exists>s'. ok s' \<and> pending s' = [] \<and> view s' = view s \<and>
    dealExceptionFrame x s =
      (let x = filled x (pending s) in
       if unat (frame_offset x) = 1 \<and> frame x ! IDX_FRAME = XM_FRAME_EOT then
         do { s \<leftarrow> cb XMEVT_EOT 0 None 0 s'; Some (XM_FRAME_EOT, x\<lparr>frame_offset := 0\<rparr>, s) }
       else if unat (frame_offset x) = 1 \<and> frame x ! IDX_FRAME = XM_FRAME_CAN then
         do { s \<leftarrow> cb XMEVT_CAN 0 None 0 s'; Some (XM_FRAME_CAN, x\<lparr>frame_offset := 0\<rparr>, s) }
       else Some (XM_FRAME_UNKOWN, x, s'))"
proof -
  obtain s' f k where s': "ok s'" "pending s' = []" "view s' = view s"
    and x: "filled x (pending s) = x\<lparr>frame := f, frame_offset := k\<rparr>"
    and g: "ucast (ucast (frame_offset x) + (of_nat (length (pending s)) :: u32)) = k"
      "\<And>n. get (frame x) (unat (frame_offset x)) n s = Some (True, f, of_nat (length (pending s)), s')"
    by (rule get_filled [OF assms]) blast
  with assms(1) show ?thesis
    by (intro exI [of _ s']) (auto simp: dealExceptionFrame_def linked_def callback_def Let_def x g word_unat_eq_iff)
qed

text \<open>The checks for an end of the transmission and for a frame, on bytes that are neither.\<close>

lemma unfinished:
  assumes "on_port x" "ok s" "receiving x"
    and "unat (frame_offset x) + length (pending s) \<le> XMODEM_SOH_FRAME_SIZE"
    and "\<not> (unat (frame_offset x) + length (pending s) = XMODEM_SOH_FRAME_SIZE \<and>
      soh_frame (frame (filled x (pending s))))"
    and "unat (frame_offset x) + length (pending s) \<noteq> 1 \<or>
      frame (filled x (pending s)) ! IDX_FRAME \<notin> {XM_FRAME_EOT, XM_FRAME_CAN}"
  shows "\<exists>s'. ok s' \<and> pending s' = [] \<and> view s' = view s \<and>
    (xmState x = XMSTA_WAIT_TRANS \<longrightarrow> dealSohFrame x s = Some (False, filled x (pending s), s')) \<and>
    (xmState x = XMSTA_TRANSMIT \<longrightarrow> (\<exists>s1 s2. dealExceptionFrame x s = Some (XM_FRAME_UNKOWN, filled x (pending s), s1) \<and>
       dealExceptionFrame (filled x (pending s)) s1 = Some (XM_FRAME_UNKOWN, filled x (pending s), s2) \<and>
       dealSohFrame (filled x (pending s)) s2 = Some (False, filled x (pending s), s')))"
proof -
  let ?x = "filled x (pending s)"
  note off = filled_offset [OF assms(4)] and on = filled_linked [OF assms(1,4)]
  show ?thesis
  proof (cases "xmState x = XMSTA_WAIT_TRANS")
    case True
    from dealSohFrame_step [OF assms(1,2,4), unfolded Let_def] obtain s' where "ok s'" "pending s' = []" "view s' = view s"
        "dealSohFrame x s = Some (False, ?x, s')"
      using assms(5) off by auto
    then show ?thesis using True by (intro exI [of _ s']) simp
  next
    case False
    from dealExceptionFrame_step [OF assms(1,2,4), unfolded Let_def] obtain s1 where s1: "ok s1" "pending s1 = []" "view s1 = view s"
        "dealExceptionFrame x s = Some (XM_FRAME_UNKOWN, ?x, s1)"
      using assms(6) off by auto
    from dealExceptionFrame_step [OF on s1(1), unfolded Let_def] off assms(4) s1(2) obtain s2 where s2: "ok s2" "pending s2 = []" "view s2 = view s1"
        "dealExceptionFrame ?x s1 = Some (XM_FRAME_UNKOWN, ?x, s2)"
      using assms(6) off by auto
    from dealSohFrame_step [OF on s2(1), unfolded Let_def] off assms(4) s2(2) obtain s3 where s3: "ok s3" "pending s3 = []" "view s3 = view s2"
        "dealSohFrame ?x s2 = Some (False, ?x, s3)"
      using assms(5) by auto
    show ?thesis using False s1 s2 s3 by (intro exI [of _ s3]) simp
  qed
qed

lemma fsm_partial:
  assumes "on_port x" "ok s" "receiving x"
    and "unat (frame_offset x) + length (pending s) \<le> XMODEM_SOH_FRAME_SIZE"
    and "\<not> (unat (frame_offset x) + length (pending s) = XMODEM_SOH_FRAME_SIZE \<and>
      soh_frame (frame (filled x (pending s))))"
    and "unat (frame_offset x) + length (pending s) \<noteq> 1 \<or>
      frame (filled x (pending s)) ! IDX_FRAME \<notin> {XM_FRAME_EOT, XM_FRAME_CAN}"
    and "int_sub t (prev_time x) = Some d" "d < XM_SOH_RECV_TIMEOUT"
  shows "\<exists>s'. ok s' \<and> pending s' = [] \<and> view s' = view s \<and>
    xModemFSM t x s = Some (xmState x, filled x (pending s), s')"
proof -
  obtain s' where s': "ok s'" "pending s' = []" "view s' = view s"
    "xmState x = XMSTA_WAIT_TRANS \<Longrightarrow> dealSohFrame x s = Some (False, filled x (pending s), s')"
    "xmState x = XMSTA_TRANSMIT \<Longrightarrow> \<exists>s1 s2. dealExceptionFrame x s = Some (XM_FRAME_UNKOWN, filled x (pending s), s1) \<and>
       dealExceptionFrame (filled x (pending s)) s1 = Some (XM_FRAME_UNKOWN, filled x (pending s), s2) \<and>
       dealSohFrame (filled x (pending s)) s2 = Some (False, filled x (pending s), s')"
    using unfinished [OF assms(1-6)] by blast
  show ?thesis
  proof (cases "xmState x = XMSTA_WAIT_TRANS")
    case True
    then show ?thesis using s'(1-4) assms(7,8) by (simp add: xModemFSM_def xm_wait_trans_def prev_time_def)
  next
    case False
    with assms(3) have st: "xmState x = XMSTA_TRANSMIT" by (simp add: receiving_def)
    from s'(5) [OF st] obtain s1 s2 where "dealExceptionFrame x s = Some (XM_FRAME_UNKOWN, filled x (pending s), s1)"
      "dealExceptionFrame (filled x (pending s)) s1 = Some (XM_FRAME_UNKOWN, filled x (pending s), s2)"
      "dealSohFrame (filled x (pending s)) s2 = Some (False, filled x (pending s), s')" by blast
    then show ?thesis using st s'(1-3) assms(7,8) by (simp add: xModemFSM_def xm_transmit_def prev_time_def)
  qed
qed

lemma cb_Some:
  assumes "cbv e d b n (view s) = Some v"
  obtains s' where "cb e d b n s = Some s'" "view s' = v" "ok s' = ok s" "pending s' = pending s"
  using cb_view [of e d b n s] assms cb_keeps [of e d b n s] by auto

lemma put_Some:
  assumes "putv [b] (view s) = Some v"
  obtains r s' where "put [b] 1 s = Some (r, s')" "view s' = v" "ok s' = ok s" "pending s' = pending s"
  using put_view [of "[b]" s] assms put_keeps [of "[b]" 1 s] by fastforce

text \<open>A timeout discards the bytes so far and asks the sender again, until the patience of the state is exhausted.\<close>

lemma sint_tries: "k \<le> 200 \<Longrightarrow> sint (of_nat k :: u32) = int k"
  by (simp add: sint_uint uint_nat unat_of_nat signed_take_bit_int_eq_self take_bit_eq_mod)

lemma fsm_lapse:
  assumes "on_port x" "ok s" "receiving x"
    and "unat (frame_offset x) + length (pending s) \<le> XMODEM_SOH_FRAME_SIZE"
    and "\<not> (unat (frame_offset x) + length (pending s) = XMODEM_SOH_FRAME_SIZE \<and>
      soh_frame (frame (filled x (pending s))))"
    and "unat (frame_offset x) + length (pending s) \<noteq> 1 \<or>
      frame (filled x (pending s)) ! IDX_FRAME \<notin> {XM_FRAME_EOT, XM_FRAME_CAN}"
    and "late (prev_time x) t" "tries x = of_nat k" "k \<le> patience x"
    and "putv [request x] (view s) = Some v"
  shows "\<exists>x' s'. xModemFSM t x s = Some (xmState x', x', s') \<and> ok s' \<and> pending s' = [] \<and>
    (if k = patience x then xmState x' = XMSTA_EXIT \<and> view s' = view s
     else view s' = v \<and> on_port x' \<and> xmState x' = xmState x \<and> frame_offset x' = 0 \<and> prev_time x' = t \<and> tries x' = of_nat (Suc k))"
proof -
  let ?x = "filled x (pending s)"
  obtain s' where s': "ok s'" "pending s' = []" "view s' = view s"
    "xmState x = XMSTA_WAIT_TRANS \<Longrightarrow> dealSohFrame x s = Some (False, ?x, s')"
    "xmState x = XMSTA_TRANSMIT \<Longrightarrow> \<exists>s1 s2. dealExceptionFrame x s = Some (XM_FRAME_UNKOWN, ?x, s1) \<and>
       dealExceptionFrame ?x s1 = Some (XM_FRAME_UNKOWN, ?x, s2) \<and> dealSohFrame ?x s2 = Some (False, ?x, s')"
    using unfinished [OF assms(1-6)] by blast
  obtain r s2 where s2: "put [request x] 1 s' = Some (r, s2)" "view s2 = v" "ok s2 = ok s'" "pending s2 = pending s'"
    by (rule put_Some [OF assms(10) [folded s'(3)]])
  have on: "on_port ?x" "putData ?x = Some put" using filled_linked [OF assms(1,4)] by (simp_all add: linked_def)
  obtain d where d: "int_sub t (prev_time x) = Some d" "XM_SOH_RECV_TIMEOUT \<le> d" using assms(7) unfolding late_def by blast
  have k: "sint (of_nat k :: u32) = int k" using assms(9) by (intro sint_tries) (auto simp: patience_def split: if_splits)
  note def = xModemFSM_def put_byte_def dealSohFrameTimeout_def Let_def
  show ?thesis
  proof (cases "xmState x = XMSTA_WAIT_TRANS")
    case True
    have n: "ncg_send_retry_times ?x = of_nat k" "int_sub t (timestamp_ncg_sent_prev x) = Some d" "request x = XM_FRAME_NCG"
      using assms(8) d(1) True by (simp_all add: tries_def filled_def prev_time_def request_def)
    note w = s'(4) [OF True]
    show ?thesis
    proof (cases "k = 101")
      case k1: True
      have "xModemFSM t x s = Some (XMSTA_EXIT, ?x\<lparr>ncg_send_retry_times := of_nat k + 1, xmState := XMSTA_EXIT\<rparr>, s')"
        using d(2) k k1 by (simp add: def xm_wait_trans_def True w n)
      then show ?thesis using True k1 s'(1-3) by (simp add: patience_def)
    next
      case False
      then have "\<not> 100 < sint (of_nat k :: u32)" using assms(9) True k by (simp add: patience_def)
      then have "xModemFSM t x s =
          Some (XMSTA_WAIT_TRANS, ?x\<lparr>ncg_send_retry_times := of_nat k + 1, frame_offset := 0, timestamp_ncg_sent_prev := t\<rparr>, s2)"
        using d(2) s2(1) on(2) by (simp add: def xm_wait_trans_def True w n)
      then show ?thesis using False True s'(1,2) s2(2-4) on(1)
        by (simp add: patience_def prev_time_def tries_def linked_def add.commute)
    qed
  next
    case False
    with assms(3) have st: "xmState x = XMSTA_TRANSMIT" by (simp add: receiving_def)
    from s'(5) [OF st] obtain s3 s4 where f: "dealExceptionFrame x s = Some (XM_FRAME_UNKOWN, ?x, s3)"
      "dealExceptionFrame ?x s3 = Some (XM_FRAME_UNKOWN, ?x, s4)" "dealSohFrame ?x s4 = Some (False, ?x, s')" by blast
    have n: "soh_nak_retry_times ?x = of_nat k" "int_sub t (timestamp_soh_recv_prev x) = Some d" "request x = XM_FRAME_NAK"
      using assms(8) d(1) st by (simp_all add: tries_def filled_def prev_time_def request_def)
    show ?thesis
    proof (cases "k = 51")
      case k1: True
      have "xModemFSM t x s = Some (XMSTA_EXIT, ?x\<lparr>frame_offset := 0, soh_nak_retry_times := of_nat k + 1, xmState := XMSTA_EXIT\<rparr>, s')"
        using d(2) k k1 by (simp add: def xm_transmit_def st f n)
      then show ?thesis using st k1 s'(1-3) by (simp add: patience_def)
    next
      case k1: False
      then have "\<not> 50 < sint (of_nat k :: u32)" using assms(9) st k by (simp add: patience_def)
      then have "xModemFSM t x s =
          Some (XMSTA_TRANSMIT, ?x\<lparr>frame_offset := 0, soh_nak_retry_times := of_nat k + 1, timestamp_soh_recv_prev := t\<rparr>, s2)"
        using d(2) s2(1) on(2) by (simp add: def xm_transmit_def st f n)
      then show ?thesis using k1 st s'(1,2) s2(2-4) on(1)
        by (simp add: patience_def prev_time_def tries_def linked_def add.commute)
    qed
  qed
qed

lemma fsm_complete:
  assumes "on_port x" "ok s" "receiving x"
    and "unat (frame_offset x) + length (pending s) = XMODEM_SOH_FRAME_SIZE"
    and "soh_frame (frame (filled x (pending s)))"
  shows "\<exists>s'. ok s' \<and> pending s' = [] \<and> view s' = view s \<and>
    xModemFSM t x s = do {
      let x = filled x (pending s);
      s \<leftarrow> cb XMEVT_SOH (ucast (frame x ! IDX_PKT_NUM)) (Some (drop IDX_DATAS (frame x))) (of_nat XMODEM_DATA_SIZE) s';
      (_, s) \<leftarrow> put [XM_FRAME_ACK] 1 s;
      let x = x\<lparr>frame_offset := 0, soh_nak_retry_times := 0, timestamp_soh_recv_prev := t, xmState := XMSTA_TRANSMIT\<rparr>;
      Some (XMSTA_TRANSMIT, x, s)
    }"
proof -
  let ?x = "filled x (pending s)"
  let ?done = "\<lambda>s'. do {
      s \<leftarrow> cb XMEVT_SOH (ucast (frame ?x ! IDX_PKT_NUM)) (Some (drop IDX_DATAS (frame ?x))) (of_nat XMODEM_DATA_SIZE) s';
      Some (True, ?x\<lparr>frame_offset := 0\<rparr>, s) }"
  from assms(4) have le: "unat (frame_offset x) + length (pending s) \<le> XMODEM_SOH_FRAME_SIZE" by simp
  note off = filled_offset [OF le] and on = filled_linked [OF assms(1) le]
  have put: "putData ?x = Some put" using on by (simp add: linked_def)
  show ?thesis
  proof (cases "xmState x = XMSTA_WAIT_TRANS")
    case True
    from dealSohFrame_step [OF assms(1,2) le, unfolded Let_def] obtain s' where s': "ok s'" "pending s' = []" "view s' = view s"
        "dealSohFrame x s = ?done s'"
      using assms(4,5) off by auto
    show ?thesis
      using True s' put
      by (intro exI [of _ s']) (auto simp: xModemFSM_def xm_wait_trans_def put_byte_def Let_def split: bind_splits)
  next
    case False
    with assms(3) have st: "xmState x = XMSTA_TRANSMIT" by (simp add: receiving_def)
    from dealExceptionFrame_step [OF assms(1,2) le, unfolded Let_def] obtain s1 where s1: "ok s1" "pending s1 = []" "view s1 = view s"
        "dealExceptionFrame x s = Some (XM_FRAME_UNKOWN, ?x, s1)"
      using assms(4) off by auto
    from dealExceptionFrame_step [OF on s1(1), unfolded Let_def] off assms(4) s1(2) obtain s2 where s2: "ok s2" "pending s2 = []" "view s2 = view s1"
        "dealExceptionFrame ?x s1 = Some (XM_FRAME_UNKOWN, ?x, s2)"
      by auto
    from dealSohFrame_step [OF on s2(1), unfolded Let_def] off assms(4,5) s2(2) obtain s3 where s3: "ok s3" "pending s3 = []" "view s3 = view s2"
        "dealSohFrame ?x s2 = ?done s3"
      by auto
    show ?thesis
      using st s1 s2 s3 put
      by (intro exI [of _ s3]) (auto simp: xModemFSM_def xm_transmit_def put_byte_def Let_def split: bind_splits)
  qed
qed

lemma fsm_eot:
  assumes "on_port x" "ok s" "xmState x = XMSTA_TRANSMIT" "frame_offset x = 0" "pending s = [XM_FRAME_EOT]"
  shows "\<exists>s'. ok s' \<and> pending s' = [] \<and> view s' = view s \<and>
    xModemFSM t x s = do {
      s \<leftarrow> cb XMEVT_EOT 0 None 0 s';
      Some (XMSTA_EXIT, (filled x [XM_FRAME_EOT])\<lparr>frame_offset := 0, xmState := XMSTA_EXIT\<rparr>, s)
    }"
proof -
  from dealExceptionFrame_step [OF assms(1,2), unfolded Let_def] assms(4,5) obtain s' where
    s': "ok s'" "pending s' = []" "view s' = view s"
      "dealExceptionFrame x s = do { s \<leftarrow> cb XMEVT_EOT 0 None 0 s';
        Some (XM_FRAME_EOT, (filled x [XM_FRAME_EOT])\<lparr>frame_offset := 0\<rparr>, s) }"
    by (auto simp: filled_def)
  with assms(3) show ?thesis
    by (intro exI [of _ s']) (auto simp: xModemFSM_def xm_transmit_def split: bind_splits)
qed

lemma fsm_can:
  assumes "on_port x" "ok s" "xmState x = XMSTA_TRANSMIT" "frame_offset x = 0" "pending s = [XM_FRAME_CAN]"
    and "int_sub t (timestamp_soh_recv_prev x) = Some d" "d < XM_SOH_RECV_TIMEOUT"
    and cb: "\<And>s. pending s = [] \<Longrightarrow> cb XMEVT_CAN 0 None 0 s = Some s"
  shows "\<exists>s'. ok s' \<and> pending s' = [] \<and> view s' = view s \<and>
    xModemFSM t x s = Some (XMSTA_TRANSMIT, (filled x [XM_FRAME_CAN])\<lparr>frame_offset := 0\<rparr>, s')"
proof -
  let ?x = "(filled x [XM_FRAME_CAN])\<lparr>frame_offset := 0\<rparr>"
  from dealExceptionFrame_step [OF assms(1,2), unfolded Let_def] assms(4,5) obtain s1 where
    s1: "ok s1" "pending s1 = []" "view s1 = view s" "dealExceptionFrame x s = Some (XM_FRAME_CAN, ?x, s1)"
    using cb by (auto simp: filled_def)
  have on: "on_port ?x" using filled_linked [OF assms(1), of "[XM_FRAME_CAN]"] assms(4) by (simp add: linked_def)
  from dealExceptionFrame_step [OF on s1(1), unfolded Let_def] s1(2) obtain s2 where
    s2: "ok s2" "pending s2 = []" "view s2 = view s1" "dealExceptionFrame ?x s1 = Some (XM_FRAME_UNKOWN, ?x, s2)"
    by auto
  from dealSohFrame_step [OF on s2(1), unfolded Let_def] s2(2) obtain s3 where
    s3: "ok s3" "pending s3 = []" "view s3 = view s2" "dealSohFrame ?x s2 = Some (False, ?x, s3)"
    by auto
  show ?thesis
    using assms(3,6,7) s1 s2 s3 by (intro exI [of _ s3]) (simp add: xModemFSM_def xm_transmit_def)
qed

abbreviation feed :: "u8 option \<Rightarrow> 's \<Rightarrow> 's" where
  "feed c s \<equiv> (case c of None \<Rightarrow> s | Some c \<Rightarrow> recv c s)"

lemma feed_props:
  assumes "ok s" "pending s = []"
  shows "ok (feed c s)" "pending (feed c s) = received [(c, t)]" "view (feed c s) = view s"
  using assms by (auto simp: recv_ok recv_pending recv_view split: option.splits)

lemma turns_partial:
  assumes "on_port x" "ok s" "pending s = []" "receiving x"
    and "unat (frame_offset x) + length (received ts) \<le> XMODEM_SOH_FRAME_SIZE"
    and "\<not> (unat (frame_offset x) + length (received ts) = XMODEM_SOH_FRAME_SIZE \<and>
      soh_frame (frame (filled x (received ts))))"
    and "frame_offset x = 0 \<or> frame x ! IDX_FRAME \<notin> {XM_FRAME_EOT, XM_FRAME_CAN}"
    and "frame_offset x = 0 \<Longrightarrow> received ts \<noteq> [] \<Longrightarrow> hd (received ts) \<notin> {XM_FRAME_EOT, XM_FRAME_CAN}"
    and "punctual (prev_time x) ts"
  shows "\<exists>s'. ok s' \<and> pending s' = [] \<and> view s' = view s \<and>
    turns recv ts x s = Some (filled x (received ts), s')"
  using assms
proof (induction ts arbitrary: x s)
  case Nil
  then show ?case by auto
next
  case (Cons a ts)
  obtain c t where a: "a = (c, t)" by fastforce
  let ?b = "received [(c, t)]" and ?x = "filled x (received [(c, t)])"
  note fp = feed_props [OF Cons.prems(2,3), of c]
  have split: "received (a # ts) = ?b @ received ts" "length ?b \<le> 1" by (cases c; simp add: a)+
  with Cons.prems(5) have le: "unat (frame_offset x) + length ?b \<le> XMODEM_SOH_FRAME_SIZE"
    "unat (frame_offset x) + length ?b + length (received ts) \<le> XMODEM_SOH_FRAME_SIZE" by simp_all
  note off = filled_offset [OF le(1)]
  have len: "length (frame x) = XMODEM_SOH_FRAME_SIZE" using Cons.prems(1) by (simp add: linked_def)
  have two: "filled ?x (received ts) = filled x (received (a # ts))"
    using filled_filled [of x ?b "received ts"] le(2) len split(1) by simp
  have head: "frame_offset ?x = 0 \<or> frame ?x ! IDX_FRAME \<notin> {XM_FRAME_EOT, XM_FRAME_CAN}"
  proof (cases "frame_offset x = 0")
    case True
    with Cons.prems(8) show ?thesis by (cases c) (simp_all add: a filled_def)
  next
    case False
    then have "0 < unat (frame_offset x)" by (simp add: word_eq_0_unat)
    with Cons.prems(7) False len le(1) show ?thesis by (simp add: filled_def nth_append)
  qed
  have bad: "\<not> (unat (frame_offset x) + length ?b = XMODEM_SOH_FRAME_SIZE \<and> soh_frame (frame ?x))"
  proof
    assume f: "unat (frame_offset x) + length ?b = XMODEM_SOH_FRAME_SIZE \<and> soh_frame (frame ?x)"
    then have r: "received ts = []" using le(2) by simp
    have "filled x (received (a # ts)) = ?x" unfolding two [symmetric] r by (rule filled_Nil)
    moreover have "length (received (a # ts)) = length ?b" unfolding split(1) r by (simp only: append_Nil2)
    ultimately show False using f Cons.prems(6) by (simp only:) blast
  qed
  from Cons.prems(9) a obtain d where d: "int_sub t (prev_time x) = Some d" "d < XM_SOH_RECV_TIMEOUT"
    "punctual (prev_time x) ts" by auto
  have "\<exists>s'. ok s' \<and> pending s' = [] \<and> view s' = view (feed c s) \<and>
      xModemFSM t x (feed c s) = Some (xmState x, ?x, s')"
    unfolding fp(2) [of t, symmetric]
  proof (rule fsm_partial [OF Cons.prems(1) fp(1) Cons.prems(4) _ _ _ d(1,2)])
    have "frame_offset ?x \<noteq> 0" if "unat (frame_offset x) + length ?b = 1" using off that by auto
    then show "unat (frame_offset x) + length (pending (feed c s)) \<noteq> 1 \<or>
        frame (filled x (pending (feed c s))) ! IDX_FRAME \<notin> {XM_FRAME_EOT, XM_FRAME_CAN}"
      using head unfolding fp(2) [of t] by blast
  qed (use le(1) bad in \<open>simp_all add: fp(2) [of t]\<close>)
  then obtain s1 where s1: "ok s1" "pending s1 = []" "view s1 = view s"
    "xModemFSM t x (feed c s) = Some (xmState x, ?x, s1)" using fp(3) by auto
  have "\<exists>s'. ok s' \<and> pending s' = [] \<and> view s' = view s1 \<and>
      turns recv ts ?x s1 = Some (filled ?x (received ts), s')"
  proof (rule Cons.IH)
    show "on_port ?x" by (rule filled_linked [OF Cons.prems(1) le(1)])
    show "unat (frame_offset ?x) + length (received ts) \<le> XMODEM_SOH_FRAME_SIZE" using le(2) off by simp
    show "\<not> (unat (frame_offset ?x) + length (received ts) = XMODEM_SOH_FRAME_SIZE \<and> soh_frame (frame (filled ?x (received ts))))"
      using Cons.prems(6) two off split(1) by simp
    show "hd (received ts) \<notin> {XM_FRAME_EOT, XM_FRAME_CAN}" if "frame_offset ?x = 0" "received ts \<noteq> []"
      using that Cons.prems(8) off split by (cases c) (auto simp: word_eq_0_unat a)
  qed (use s1 head Cons.prems(4) d in simp_all)
  then show ?case using s1 two by (auto simp: a)
qed

lemma turns_attempts:
  assumes "on_port x" "ok s" "pending s = []" "receiving x" "frame_offset x = 0" "attempts (prev_time x) as"
    and "tries x = of_nat k" "k + length as \<le> patience x" "puts putv (replicate (length as) (request x)) (view s) = Some v"
  shows "\<exists>x' s'. turns recv (concat (map attempt_turns as)) x s = Some (x', s') \<and> on_port x' \<and> ok s' \<and> pending s' = [] \<and>
    view s' = v \<and> xmState x' = xmState x \<and> frame_offset x' = 0 \<and> prev_time x' = last_time (prev_time x) as"
  using assms
proof (induction as arbitrary: x s k)
  case (Cons a as)
  obtain us c u where a: "a = (us, c, u)" by (metis prod.exhaust)
  note at = Cons.prems(6) [unfolded a, simplified]
  let ?b = "received us" and ?c = "received [(c, u)]"
  have br: "broken (?b @ ?c)" using at by (cases c) auto
  have len: "length (frame x) = XMODEM_SOH_FRAME_SIZE" using Cons.prems(1) by (simp add: linked_def)
  have fit: "length ?b + length ?c \<le> XMODEM_SOH_FRAME_SIZE" using br by (simp add: broken_def)
  have whole: "frame (filled x bs) = bs" if "length bs = XMODEM_SOH_FRAME_SIZE" for bs
    using that len Cons.prems(5) by (simp add: filled_def)
  have "\<exists>s'. ok s' \<and> pending s' = [] \<and> view s' = view s \<and> turns recv us x s = Some (filled x ?b, s')"
  proof (rule turns_partial [OF Cons.prems(1-4)])
    show "\<not> (unat (frame_offset x) + length ?b = XMODEM_SOH_FRAME_SIZE \<and> soh_frame (frame (filled x ?b)))"
      using br fit whole [of ?b] Cons.prems(5) by (auto simp: broken_def)
    show "hd ?b \<notin> {XM_FRAME_EOT, XM_FRAME_CAN}" if "?b \<noteq> []" using br that by (auto simp: broken_def)
  qed (use fit Cons.prems(5) at in simp_all)
  then obtain s1 where s1: "ok s1" "pending s1 = []" "view s1 = view s" "turns recv us x s = Some (filled x ?b, s1)" by blast
  let ?x = "filled x ?b"
  have le: "unat (frame_offset x) + length ?b \<le> XMODEM_SOH_FRAME_SIZE" using fit Cons.prems(5) by simp
  note off = filled_offset [OF le] and on = filled_linked [OF Cons.prems(1) le] and fp = feed_props [OF s1(1,2), of c]
  have two: "filled ?x ?c = filled x (?b @ ?c)" using filled_filled [of x ?b ?c] fit len Cons.prems(5) by simp
  have hd: "frame (filled x (?b @ ?c)) ! IDX_FRAME \<notin> {XM_FRAME_EOT, XM_FRAME_CAN}" if "length ?b + length ?c = 1"
  proof -
    have "length (?b @ ?c) = Suc 0" using that by simp
    then obtain z where z: "?b @ ?c = [z]" unfolding length_Suc_conv length_0_conv by blast
    with br show ?thesis using Cons.prems(5) by (simp add: broken_def filled_def)
  qed
  obtain v1 where v1: "putv [request x] (view s) = Some v1" "puts putv (replicate (length as) (request x)) v1 = Some v"
    using Cons.prems(9) by (auto simp: bind_Some_iff)
  have k: "k \<noteq> patience x" "k < patience x" using Cons.prems(8) by simp_all
  have "\<exists>x' s'. xModemFSM u ?x (feed c s1) = Some (xmState x', x', s') \<and> ok s' \<and> pending s' = [] \<and>
    (if k = patience ?x then xmState x' = XMSTA_EXIT \<and> view s' = view (feed c s1)
     else view s' = v1 \<and> on_port x' \<and> xmState x' = xmState ?x \<and> frame_offset x' = 0 \<and> prev_time x' = u \<and> tries x' = of_nat (Suc k))"
  proof (rule fsm_lapse [OF on fp(1)])
    show "\<not> (unat (frame_offset ?x) + length (pending (feed c s1)) = XMODEM_SOH_FRAME_SIZE \<and>
        soh_frame (frame (filled ?x (pending (feed c s1)))))"
      using br off fp(2) Cons.prems(5) two whole [of "?b @ ?c"] by (auto simp: broken_def)
    show "unat (frame_offset ?x) + length (pending (feed c s1)) \<noteq> 1 \<or>
        frame (filled ?x (pending (feed c s1))) ! IDX_FRAME \<notin> {XM_FRAME_EOT, XM_FRAME_CAN}"
      using hd off fp(2) Cons.prems(5) two by auto
  qed (use off fp fit at k Cons.prems(4,5,7) v1(1) s1(3) in simp_all)
  then obtain x2 s2 where s2: "xModemFSM u ?x (feed c s1) = Some (xmState x2, x2, s2)" "ok s2" "pending s2 = []" "view s2 = v1"
      "on_port x2" "xmState x2 = xmState x" "frame_offset x2 = 0" "prev_time x2 = u" "tries x2 = of_nat (Suc k)"
    using k(1) by auto
  have same: "patience x2 = patience x" "request x2 = request x" "receiving x2" using s2(6) Cons.prems(4)
    by (simp_all add: patience_def request_def receiving_def)
  have "\<exists>x' s'. turns recv (concat (map attempt_turns as)) x2 s2 = Some (x', s') \<and> on_port x' \<and> ok s' \<and> pending s' = [] \<and>
    view s' = v \<and> xmState x' = xmState x2 \<and> frame_offset x' = 0 \<and> prev_time x' = last_time (prev_time x2) as"
    by (rule Cons.IH [of x2 s2 "Suc k"]) (use s2 same at v1(2) Cons.prems(8) in simp_all)
  then show ?case using s1(4) s2(1,6,8) by (auto simp: a turns_append)
qed simp

text \<open>One whole frame, byte by byte with idle turns in between.\<close>

lemma turns_frame:
  assumes "on_port x" "ok s" "pending s = []" "receiving x" "frame_offset x = 0"
    and "received ts @ [c] = fr" "soh_frame fr" "punctual (prev_time x) ts"
  shows "\<exists>s'. ok s' \<and> pending s' = [] \<and> view s' = view s \<and>
    turns recv (ts @ [(Some c, t)]) x s = do {
      s \<leftarrow> cb XMEVT_SOH (ucast (fr ! IDX_PKT_NUM)) (Some (drop IDX_DATAS fr)) (of_nat XMODEM_DATA_SIZE) s';
      (_, s) \<leftarrow> put [XM_FRAME_ACK] 1 s;
      Some (x\<lparr>frame := fr, frame_offset := 0, soh_nak_retry_times := 0, timestamp_soh_recv_prev := t,
              xmState := XMSTA_TRANSMIT\<rparr>, s)
    }"
proof -
  from assms(7) have len: "length fr = XMODEM_SOH_FRAME_SIZE" "fr ! 0 = XM_FRAME_SOH" by (simp_all add: soh_frame_def)
  with assms(6) have lr: "length (received ts) = 132" by auto
  then have "received ts \<noteq> []" by auto
  with len assms(6) lr have hd: "hd (received ts) = XM_FRAME_SOH" by (auto simp: hd_conv_nth nth_append)
  have "\<exists>s'. ok s' \<and> pending s' = [] \<and> view s' = view s \<and> turns recv ts x s = Some (filled x (received ts), s')"
    by (rule turns_partial) (use assms(1-5,8) lr hd in simp_all)
  then obtain s1 where s1: "ok s1" "pending s1 = []" "view s1 = view s"
    "turns recv ts x s = Some (filled x (received ts), s1)" by blast
  let ?x = "filled x (received ts)"
  have le: "unat (frame_offset x) + length (received ts) \<le> XMODEM_SOH_FRAME_SIZE" using assms(5) lr by simp
  have lx: "length (frame x) = XMODEM_SOH_FRAME_SIZE" using assms(1) by (simp add: linked_def)
  have "filled ?x [c] = filled x fr"
    using filled_filled [of x "received ts" "[c]"] assms(5,6) lr lx by simp
  moreover have "frame (filled x fr) = fr" using assms(5) len lx by (simp add: filled_def)
  ultimately have fx: "filled ?x [c] = filled x fr" "frame (filled ?x [c]) = fr" by simp_all
  have "\<exists>s'. ok s' \<and> pending s' = [] \<and> view s' = view (feed (Some c) s1) \<and>
    xModemFSM t ?x (feed (Some c) s1) = do {
      let x = filled ?x [c];
      s \<leftarrow> cb XMEVT_SOH (ucast (frame x ! IDX_PKT_NUM)) (Some (drop IDX_DATAS (frame x))) (of_nat XMODEM_DATA_SIZE) s';
      (_, s) \<leftarrow> put [XM_FRAME_ACK] 1 s;
      let x = x\<lparr>frame_offset := 0, soh_nak_retry_times := 0, timestamp_soh_recv_prev := t, xmState := XMSTA_TRANSMIT\<rparr>;
      Some (XMSTA_TRANSMIT, x, s)
    }"
    using fsm_complete [OF filled_linked [OF assms(1) le], of "feed (Some c) s1" t] feed_props [OF s1(1,2), of "Some c"]
      filled_offset [OF le] assms(4,5,7) lr fx(2) by simp
  then obtain s2 where s2: "ok s2" "pending s2 = []" "view s2 = view s"
    "xModemFSM t ?x (recv c s1) = do {
      let x = filled x fr;
      s \<leftarrow> cb XMEVT_SOH (ucast (fr ! IDX_PKT_NUM)) (Some (drop IDX_DATAS fr)) (of_nat XMODEM_DATA_SIZE) s2;
      (_, s) \<leftarrow> put [XM_FRAME_ACK] 1 s;
      let x = x\<lparr>frame_offset := 0, soh_nak_retry_times := 0, timestamp_soh_recv_prev := t, xmState := XMSTA_TRANSMIT\<rparr>;
      Some (XMSTA_TRANSMIT, x, s)
    }"
    using s1(3) fx by (auto simp: Let_def recv_view)
  have upd: "(filled x fr)\<lparr>frame_offset := 0, soh_nak_retry_times := 0, timestamp_soh_recv_prev := t,
      xmState := XMSTA_TRANSMIT\<rparr> = x\<lparr>frame := fr, frame_offset := 0, soh_nak_retry_times := 0,
      timestamp_soh_recv_prev := t, xmState := XMSTA_TRANSMIT\<rparr>"
    using assms(5) len lx by (simp add: filled_def)
  show ?thesis
    using s1 s2 upd by (intro exI [of _ s2]) (auto simp: turns_append Let_def split: bind_splits)
qed

lemma turns_packet:
  assumes "on_port x" "ok s" "pending s = []" "receiving x" "frame_offset x = 0"
    and "attempts (prev_time x) as" "tries x = 0" "length as \<le> patience x"
    and "punctual (last_time (prev_time x) as) ts" "received ts @ [c] = fr" "soh_frame fr"
    and "puts putv (replicate (length as) (request x)) (view s) = Some v1"
    and "cbv XMEVT_SOH (ucast (fr ! IDX_PKT_NUM)) (Some (drop IDX_DATAS fr)) (of_nat XMODEM_DATA_SIZE) v1 = Some v2"
    and "putv [XM_FRAME_ACK] v2 = Some v3"
  shows "\<exists>x' s'. turns recv (packet_turns (as, ts, c, t)) x s = Some (x', s') \<and> on_port x' \<and> ok s' \<and> pending s' = [] \<and>
    view s' = v3 \<and> frame_offset x' = 0 \<and> xmState x' = XMSTA_TRANSMIT \<and> prev_time x' = t \<and> tries x' = 0"
proof -
  from turns_attempts [OF assms(1-6), of 0] assms(7,8,12) obtain x1 s1 where
    a: "turns recv (concat (map attempt_turns as)) x s = Some (x1, s1)" "on_port x1" "ok s1" "pending s1 = []" "view s1 = v1"
      "xmState x1 = xmState x" "frame_offset x1 = 0" "prev_time x1 = last_time (prev_time x) as" by auto
  have rc: "receiving x1" using assms(4) a(6) by (simp add: receiving_def)
  let ?x = "x1\<lparr>frame := fr, frame_offset := 0, soh_nak_retry_times := 0, timestamp_soh_recv_prev := t, xmState := XMSTA_TRANSMIT\<rparr>"
  from turns_frame [OF a(2-4) rc a(7) assms(10,11), of t] assms(9) a(8) obtain s' where
    s': "ok s'" "pending s' = []" "view s' = view s1"
    "turns recv (ts @ [(Some c, t)]) x1 s1 = do {
      s \<leftarrow> cb XMEVT_SOH (ucast (fr ! IDX_PKT_NUM)) (Some (drop IDX_DATAS fr)) (of_nat XMODEM_DATA_SIZE) s';
      (_, s) \<leftarrow> put [XM_FRAME_ACK] 1 s; Some (?x, s) }" by auto
  have v: "view s' = v1" using s'(3) a(5) by simp
  obtain s2 where s2: "cb XMEVT_SOH (ucast (fr ! IDX_PKT_NUM)) (Some (drop IDX_DATAS fr)) (of_nat XMODEM_DATA_SIZE) s' = Some s2"
    "view s2 = v2" "ok s2 = ok s'" "pending s2 = pending s'" by (rule cb_Some [OF assms(13) [folded v]])
  obtain r s3 where s3: "put [XM_FRAME_ACK] 1 s2 = Some (r, s3)"
    "view s3 = v3" "ok s3 = ok s2" "pending s3 = pending s2" by (rule put_Some [OF assms(14) [folded s2(2)]])
  have "on_port ?x" using a(2) assms(11) by (simp add: linked_def soh_frame_def)
  then show ?thesis using a(1) s'(1,2,4) s2 s3
    by (auto simp: turns_append [of recv "concat (map attempt_turns as)"] prev_time_def tries_def)
qed

lemma turns_session:
  assumes "on_port x" "ok s" "pending s = []" "receiving x" "frame_offset x = 0" "tries x = 0"
    and "session (patience x) (prev_time x) ps ae es" "accept cbv putv (request x) ps ae (view s) = Some v'"
  shows "\<exists>x' s'. turns recv (session_turns ps ae es) x s = Some (x', s') \<and> on_port x' \<and> ok s' \<and>
    pending s' = [] \<and> frame_offset x' = 0 \<and> view s' = v' \<and> xmState x' = (if ps = [] then xmState x else XMSTA_TRANSMIT)"
  using assms
proof (induction ps arbitrary: x s)
  case Nil
  from turns_attempts [OF Nil.prems(1-5), of ae 0 v'] Nil.prems(6-8) obtain x1 s1 where
    a: "turns recv (concat (map attempt_turns ae)) x s = Some (x1, s1)" "on_port x1" "ok s1" "pending s1 = []" "view s1 = v'"
      "xmState x1 = xmState x" "frame_offset x1 = 0" "prev_time x1 = last_time (prev_time x) ae" by auto
  have rc: "receiving x1" using Nil.prems(4) a(6) by (simp add: receiving_def)
  have "\<exists>s'. ok s' \<and> pending s' = [] \<and> view s' = view s1 \<and> turns recv es x1 s1 = Some (filled x1 (received es), s')"
    by (rule turns_partial [OF a(2-4) rc]) (use Nil.prems(7) a(7,8) in simp_all)
  then obtain s2 where "ok s2" "pending s2 = []" "view s2 = view s1" "turns recv es x1 s1 = Some (x1, s2)"
    using Nil.prems(7) by auto
  then show ?case using a by (auto simp: session_turns_def turns_append)
next
  case (Cons p ps)
  obtain as ts c t where p: "p = (as, ts, c, t)" by (cases p) auto
  let ?fr = "received ts @ [c]"
  note se = Cons.prems(7) [unfolded p, simplified]
  from Cons.prems(8) p obtain v1 v2 v3 where v: "puts putv (replicate (length as) (request x)) (view s) = Some v1"
    "cbv XMEVT_SOH (ucast (?fr ! IDX_PKT_NUM)) (Some (drop IDX_DATAS ?fr)) (of_nat XMODEM_DATA_SIZE) v1 = Some v2"
    "putv [XM_FRAME_ACK] v2 = Some v3" "accept cbv putv XM_FRAME_NAK ps ae v3 = Some v'"
    by (simp only: accept.simps Let_def packet_bytes.simps fst_conv bind_Some_iff) blast
  from turns_packet [OF Cons.prems(1-5) _ Cons.prems(6) _ _ refl _ v(1-3), of t] se obtain x1 s1 where
    a: "turns recv (packet_turns p) x s = Some (x1, s1)" "on_port x1" "ok s1" "pending s1 = []" "view s1 = v3" "frame_offset x1 = 0"
      "xmState x1 = XMSTA_TRANSMIT" "prev_time x1 = t" "tries x1 = 0" by (auto simp: p)
  have "receiving x1" "patience x1 = 51" "request x1 = XM_FRAME_NAK"
    using a(7) by (simp_all add: receiving_def patience_def request_def)
  with Cons.IH [of x1 s1] a se v(4) obtain x2 s2 where
    "turns recv (session_turns ps ae es) x1 s1 = Some (x2, s2)" "on_port x2" "ok s2" "pending s2 = []" "frame_offset x2 = 0"
    "view s2 = v'" "xmState x2 = XMSTA_TRANSMIT" by auto
  then show ?case using a(1) by (auto simp: session_turns_def turns_append)
qed

lemma fsm_entry:
  assumes "on_port x" "ok s" "pending s = []" "xmState x = XMSTA_ENTRY" "cbv XMEVT_ENTRY 0 None 0 (view s) = Some v"
  shows "\<exists>x' s'. xModemFSM t x s = Some (XMSTA_WAIT_TRANS, x', s') \<and> on_port x' \<and> ok s' \<and> pending s' = [] \<and>
    view s' = v \<and> frame_offset x' = 0 \<and> xmState x' = XMSTA_WAIT_TRANS \<and> timestamp_ncg_sent_prev x' = 0 \<and>
    ncg_send_retry_times x' = 0"
proof -
  obtain s' where "cb XMEVT_ENTRY 0 None 0 s = Some s'" "view s' = v" "ok s' = ok s" "pending s' = pending s"
    by (rule cb_Some [OF assms(5)])
  with assms show ?thesis by (auto simp: xModemFSM_def xm_entry_def callback_def linked_def)
qed

text \<open>A whole transfer, from the start to the end of transmission.\<close>

lemma transfer:
  assumes "on_port x" "ok s" "pending s = []" "xmState x = XMSTA_ENTRY"
    and "cbv XMEVT_ENTRY 0 None 0 (view s) = Some v0"
    and "session 101 0 ps ae es" "ps \<noteq> []" "accept cbv putv XM_FRAME_NCG ps ae v0 = Some v1"
    and "cbv XMEVT_EOT 0 None 0 v1 = Some v2"
  shows "\<exists>x' s'. turns recv ((None, t0) # session_turns ps ae es @ [(Some XM_FRAME_EOT, t1), (None, t2)]) x s =
      Some (x', s') \<and> xmState x' = XMSTA_STOP \<and> view s' = v2"
proof -
  from fsm_entry [OF assms(1-5), of t0] obtain xa sa where a: "xModemFSM t0 x s = Some (XMSTA_WAIT_TRANS, xa, sa)"
    "on_port xa" "ok sa" "pending sa = []" "view sa = v0" "frame_offset xa = 0" "xmState xa = XMSTA_WAIT_TRANS"
    "timestamp_ncg_sent_prev xa = 0" "ncg_send_retry_times xa = 0" by blast
  have w: "receiving xa" "patience xa = 101" "request xa = XM_FRAME_NCG" "tries xa = 0" "prev_time xa = 0"
    using a(7-9) by (simp_all add: receiving_def patience_def request_def tries_def prev_time_def)
  from turns_session [OF a(2-4) w(1) a(6) w(4), of ps ae es v1] a(5) w assms(6-8) obtain xb sb where
    b: "turns recv (session_turns ps ae es) xa sa = Some (xb, sb)" "on_port xb" "ok sb" "pending sb = []"
      "frame_offset xb = 0" "view sb = v1" "xmState xb = XMSTA_TRANSMIT" by auto
  from fsm_eot [OF b(2) recv_ok [OF b(3)] b(7,5) recv_pending [OF b(3,4)], of t1]
  obtain sc where c: "ok sc" "pending sc = []" "view sc = v1"
    "xModemFSM t1 xb (recv XM_FRAME_EOT sb) = do { s \<leftarrow> cb XMEVT_EOT 0 None 0 sc;
      Some (XMSTA_EXIT, (filled xb [XM_FRAME_EOT])\<lparr>frame_offset := 0, xmState := XMSTA_EXIT\<rparr>, s) }"
    using b(6) recv_view by auto
  obtain sd where d: "cb XMEVT_EOT 0 None 0 sc = Some sd" "view sd = v2"
    by (rule cb_Some [OF assms(9) [folded c(3)]])
  let ?x = "(filled xb [XM_FRAME_EOT])\<lparr>frame_offset := 0, xmState := XMSTA_EXIT\<rparr>"
  have "xModemFSM t2 ?x sd = Some (XMSTA_STOP, ?x\<lparr>xmState := XMSTA_STOP\<rparr>, sd)"
    by (simp add: xModemFSM_def dealExit_def)
  with a(1) b(1) c(4) d show ?thesis by (auto simp: turns_append)
qed

text \<open>A byte that arrives while a full but bad frame is in the buffer is stored behind the buffer.\<close>

lemma fsm_overrun:
  assumes "on_port x" "ok s" "receiving x" "pending s \<noteq> []"
    and "XMODEM_SOH_FRAME_SIZE < unat (frame_offset x) + length (pending s)"
  shows "xModemFSM t x s = None"
proof -
  from get_overrun [OF assms(2,4), of "frame x" "unat (frame_offset x)"] assms(1,5)
  have "get (frame x) (unat (frame_offset x)) n s = None" for n by (simp add: linked_def)
  with assms(1,3) show ?thesis
    by (auto simp: xModemFSM_def xm_wait_trans_def xm_transmit_def dealSohFrame_def dealExceptionFrame_def
        linked_def receiving_def Let_def)
qed

lemma turns_overrun:
  assumes "on_port x" "ok s" "pending s = []" "receiving x" "frame_offset x = 0"
    and "received ts @ [c] = fr" "length fr = XMODEM_SOH_FRAME_SIZE" "fr ! IDX_FRAME = XM_FRAME_SOH" "\<not> soh_frame fr"
    and "punctual (prev_time x) (ts @ [(Some c, t)])"
  shows "turns recv (ts @ [(Some c, t), (Some c', t')]) x s = None"
proof -
  let ?x = "filled x (received ts)"
  from assms(6,7) have lr: "length (received ts) = 132" by auto
  then have "received ts \<noteq> []" by auto
  with assms(6,8) lr have hd: "hd (received ts) = XM_FRAME_SOH" by (auto simp: hd_conv_nth nth_append)
  have "\<exists>s'. ok s' \<and> pending s' = [] \<and> view s' = view s \<and> turns recv ts x s = Some (?x, s')"
    by (rule turns_partial) (use assms(1-5,10) lr hd in simp_all)
  then obtain s1 where s1: "ok s1" "pending s1 = []" "turns recv ts x s = Some (?x, s1)" by blast
  have le: "unat (frame_offset x) + length (received ts) \<le> XMODEM_SOH_FRAME_SIZE" using assms(5) lr by simp
  have lx: "length (frame x) = XMODEM_SOH_FRAME_SIZE" using assms(1) by (simp add: linked_def)
  note off = filled_offset [OF le] and on = filled_linked [OF assms(1) le]
  have p: "pending (recv c s1) = [c]" using s1 recv_pending by simp
  have fx: "filled ?x [c] = filled x fr" "frame (filled x fr) = fr"
    using filled_filled [of x "received ts" "[c]"] assms(5-7) lr lx by (simp_all add: filled_def)
  from assms(10) obtain d where "int_sub t (prev_time x) = Some d" "d < XM_SOH_RECV_TIMEOUT" by auto
  with fsm_partial [OF on recv_ok [OF s1(1)], of c t d] p off lr fx assms(4,5,9)
  obtain s2 where s2: "ok s2" "pending s2 = []" "xModemFSM t ?x (recv c s1) = Some (xmState ?x, filled x fr, s2)"
    by auto
  have le2: "unat (frame_offset x) + length fr \<le> XMODEM_SOH_FRAME_SIZE" using assms(5,7) by simp
  have "xModemFSM t' (filled x fr) (recv c' s2) = None"
    using fsm_overrun [OF filled_linked [OF assms(1) le2] recv_ok [OF s2(1)], of c' t'] recv_pending [OF s2(1,2), of c']
      filled_offset [OF le2] assms(4,5,7) by simp
  with s1(3) s2(3) show ?thesis by (simp add: turns_append)
qed

text \<open>On a silent line the receiver asks 101 times, once per timeout, and gives up at the next one.\<close>

lemma turns_stopping:
  "xmState x = XMSTA_STOP \<or> xmState x = XMSTA_EXIT \<and> ts \<noteq> [] \<Longrightarrow>
   \<exists>x'. turns recv (map (\<lambda>t. (None, of_nat t)) ts) x s = Some (x', s) \<and> xmState x' = XMSTA_STOP"
  by (induction ts arbitrary: x) (auto simp: xModemFSM_def dealExit_def)

lemma int_sub_of_nat: "a < 2 ^ 31 \<Longrightarrow> b < 2 ^ 31 \<Longrightarrow> int_sub (of_nat a) (of_nat b) = Some (int a - int b)"
  by (simp add: int_sub_def sint_uint uint_nat unat_of_nat signed_take_bit_int_eq_self take_bit_eq_mod)

lemma silent:
  assumes "on_port x" "ok s" "pending s = []" "xmState x = XMSTA_WAIT_TRANS" "frame_offset x = 0"
    and "tries x = of_nat k" "k \<le> 101" "prev_time x = of_nat p" "p < 2 ^ 31" "\<forall>t \<in> set ts. t < 2 ^ 31"
    and "\<And>v. \<exists>v'. putv [XM_FRAME_NCG] v = Some v'"
  shows "\<exists>x' s'. turns recv (map (\<lambda>t. (None, of_nat t)) ts) x s = Some (x', s') \<and>
    puts putv (replicate (min 101 (k + lapses p ts) - k) XM_FRAME_NCG) (view s) = Some (view s') \<and>
    (k + lapses p ts \<le> 101 \<longrightarrow> xmState x' = XMSTA_WAIT_TRANS) \<and> (103 \<le> k + lapses p ts \<longrightarrow> xmState x' = XMSTA_STOP)"
  using assms(1-10)
proof (induction ts arbitrary: x s k p)
  case Nil
  then show ?case by simp
next
  case (Cons t ts)
  have rc: "receiving x" "patience x = 101" "request x = XM_FRAME_NCG"
    using Cons.prems(4) by (simp_all add: receiving_def patience_def request_def)
  have t: "t < 2 ^ 31" "\<forall>t \<in> set ts. t < 2 ^ 31" using Cons.prems(10) by auto
  have d: "int_sub (of_nat t) (prev_time x) = Some (int t - int p)"
    using int_sub_of_nat [OF t(1) Cons.prems(9)] Cons.prems(8) by simp
  obtain v where v: "putv [request x] (view s) = Some v" using assms(11) rc(3) by auto
  show ?case
  proof (cases "p + 1000 \<le> t")
    case False
    have "\<exists>s'. ok s' \<and> pending s' = [] \<and> view s' = view s \<and> xModemFSM (of_nat t) x s = Some (xmState x, filled x (pending s), s')"
      by (rule fsm_partial [OF Cons.prems(1,2) rc(1) _ _ _ d]) (use False Cons.prems(3,5) in simp_all)
    then obtain s1 where s1: "ok s1" "pending s1 = []" "view s1 = view s" "xModemFSM (of_nat t) x s = Some (xmState x, x, s1)"
      using Cons.prems(3) by auto
    from Cons.IH [OF Cons.prems(1) s1(1,2) Cons.prems(4-9) t(2)] s1(3,4) False show ?thesis by simp
  next
    case True
    have late: "late (prev_time x) (of_nat t)" using d True by (simp add: late_def)
    have "\<exists>x' s'. xModemFSM (of_nat t) x s = Some (xmState x', x', s') \<and> ok s' \<and> pending s' = [] \<and>
      (if k = patience x then xmState x' = XMSTA_EXIT \<and> view s' = view s
       else view s' = v \<and> on_port x' \<and> xmState x' = xmState x \<and> frame_offset x' = 0 \<and> prev_time x' = of_nat t \<and> tries x' = of_nat (Suc k))"
      by (rule fsm_lapse [OF Cons.prems(1,2) rc(1) _ _ _ late Cons.prems(6) _ v]) (use Cons.prems(3,5,7) rc(2) in simp_all)
    then obtain x1 s1 where s1: "xModemFSM (of_nat t) x s = Some (xmState x1, x1, s1)" "ok s1" "pending s1 = []"
      "if k = 101 then xmState x1 = XMSTA_EXIT \<and> view s1 = view s
       else view s1 = v \<and> on_port x1 \<and> xmState x1 = XMSTA_WAIT_TRANS \<and> frame_offset x1 = 0 \<and> prev_time x1 = of_nat t \<and> tries x1 = of_nat (Suc k)"
      using rc(2) Cons.prems(4) by auto
    show ?thesis
    proof (cases "k = 101")
      case k: True
      show ?thesis
      proof (cases "ts = []")
        case True
        then show ?thesis using s1 k \<open>p + 1000 \<le> t\<close> by simp
      next
        case False
        with turns_stopping [of x1 ts s1] s1(4) k obtain x2 where
          "turns recv (map (\<lambda>t. (None, of_nat t)) ts) x1 s1 = Some (x2, s1)" "xmState x2 = XMSTA_STOP" by auto
        then show ?thesis using s1 k True by simp
      qed
    next
      case False
      then have x1: "view s1 = v" "on_port x1" "xmState x1 = XMSTA_WAIT_TRANS" "frame_offset x1 = 0" "prev_time x1 = of_nat t"
        "tries x1 = of_nat (Suc k)" using s1(4) by simp_all
      have k: "Suc k \<le> 101" using False Cons.prems(7) by simp
      obtain x2 s2 where x2: "turns recv (map (\<lambda>t. (None, of_nat t)) ts) x1 s1 = Some (x2, s2)"
        "puts putv (replicate (min 101 (Suc k + lapses t ts) - Suc k) XM_FRAME_NCG) (view s1) = Some (view s2)"
        "Suc k + lapses t ts \<le> 101 \<longrightarrow> xmState x2 = XMSTA_WAIT_TRANS" "103 \<le> Suc k + lapses t ts \<longrightarrow> xmState x2 = XMSTA_STOP"
        using Cons.IH [OF x1(2) s1(2,3) x1(3,4,6) k x1(5) t] by blast
      have "min 101 (k + Suc (lapses t ts)) - k = Suc (min 101 (Suc k + lapses t ts) - Suc k)" using k by simp
      then show ?thesis using x2 s1(1) v x1(1) rc(3) True by simp
    qed
  qed
qed

end

end
