(* ===== verification/Spl_Main.thy ===== *)
theory Spl_Main
  imports Spl_Clock Nand_Chip Xm_Link
begin

text \<open>
  The main program of the loader, \<^verbatim>\<open>board/samsung/smdkv210/spl/board_init_f_spl.c\<close> with
  \<^verbatim>\<open>myboot_cfg.h\<close>: the page buffer between the XMODEM receiver and the NAND flash, the functions it
  installs in the receiver, the copy of the second stage to memory, the NAND self test, the read-back,
  the boot menu and the main loop. The globals of the file are the fields of \<open>board\<close> and \<open>spl\<close>; the
  history of bus accesses is the field \<open>hist\<close>.
\<close>

unbundle bit_operations_syntax

abbreviation (input) BL1_NF_ADDR :: u32 where "BL1_NF_ADDR \<equiv> 0"
abbreviation BL1_APP_SIZE :: u32 where "BL1_APP_SIZE \<equiv> 16384"
abbreviation BL2_NF_ADDR :: u32 where "BL2_NF_ADDR \<equiv> BL1_APP_SIZE"
abbreviation BL2_APP_MAX_SIZE :: u32 where "BL2_APP_MAX_SIZE \<equiv> 262144"
abbreviation BL2_RAM_ADDR :: u32 where "BL2_RAM_ADDR \<equiv> 0x20000000"
abbreviation TEST_BLOCK_ADDR :: u32 where "TEST_BLOCK_ADDR \<equiv> 131072"
abbreviation (input) AUTOBOOT_TIMEOUTS :: u32 where "AUTOBOOT_TIMEOUTS \<equiv> 5"

record board =
  nand_buff :: "u8 list"
  buff_offset :: u32
  nand_address :: u32
  uart_buf :: "u8 list"
  buf_len :: u8
  hist :: bus

definition printf :: "hw \<Rightarrow> string \<Rightarrow> va_arg list \<Rightarrow> board \<Rightarrow> board option" where
  "printf hw fmt ap b = do { h \<leftarrow> uart_printf hw (bytes_of fmt) ap (hist b); Some (b\<lparr>hist := h\<rparr>) }"

subsection \<open>Programming the flash\<close>

definition program_tonand :: "hw \<Rightarrow> board \<Rightarrow> board option" where
  "program_tonand hw b = do {
     h \<leftarrow> (if nand_address b mod of_nat BLOCK_SIZE = 0 then nand_erase hw (nand_address b) (hist b)
           else Some (hist b));
     h \<leftarrow> nand_write_page_8bit hw (nand_buff b) (nand_address b) h;
     Some (b\<lparr>hist := h, nand_address := nand_address b + of_nat PAGE_SIZE\<rparr>)
   }"

fun try_program_loop :: "hw \<Rightarrow> u8 list \<Rightarrow> board \<Rightarrow> board option" where
  "try_program_loop hw [] b = Some b"
| "try_program_loop hw (c # cs) b = do {
     nb \<leftarrow> arr_set (nand_buff b) (unat (buff_offset b)) c;
     let b = b\<lparr>nand_buff := nb, buff_offset := buff_offset b + 1\<rparr>;
     b \<leftarrow> (if buff_offset b \<ge> of_nat PAGE_SIZE then do {
             b \<leftarrow> program_tonand hw b;
             Some (b\<lparr>buff_offset := 0\<rparr>)
           }
           else Some b);
     try_program_loop hw cs b
   }"

text \<open>The loop reads \<open>buffer_len\<close> bytes of the buffer; a NULL buffer has none.\<close>

definition try_program :: "hw \<Rightarrow> u8 list option \<Rightarrow> u32 \<Rightarrow> bool \<Rightarrow> board \<Rightarrow> board option" where
  "try_program hw buffer buffer_len bfinish b =
     (if bfinish then program_tonand hw b
      else
        (let bs = (case buffer of None \<Rightarrow> [] | Some bs \<Rightarrow> bs) in
         if unat buffer_len \<le> length bs then try_program_loop hw (take (unat buffer_len) bs) b else None))"

definition uart_buff :: "u8 \<Rightarrow> board \<Rightarrow> board" where
  "uart_buff c b =
     (if unat (buf_len b) < length (uart_buf b)
      then b\<lparr>uart_buf := (uart_buf b)[unat (buf_len b) := c], buf_len := buf_len b + 1\<rparr>
      else b)"

definition xmCallback :: "hw \<Rightarrow> board xModemCallback" where
  "xmCallback hw evt data buffer buffer_len b =
     (if evt = XMEVT_ENTRY then Some (b\<lparr>buff_offset := 0\<rparr>)
      else if evt = XMEVT_SOH then try_program hw buffer buffer_len False b
      else if evt = XMEVT_EOT then try_program hw buffer buffer_len True b
      else Some b)"

definition xmPutData :: "hw \<Rightarrow> board xModemPutData" where
  "xmPutData hw buffer buffer_len b =
     (if unat buffer_len \<le> length buffer then do {
        h \<leftarrow> put_chars hw (take (unat buffer_len) buffer) (hist b);
        Some (True, b\<lparr>hist := h\<rparr>)
      }
      else None)"

text \<open>
  \<open>xmGetData\<close> is passed a buffer and a length that are never NULL; it does not look at the length it
  is given.
\<close>

definition xmGetData :: "board xModemGetData" where
  "xmGetData buffer off buffer_len b =
     (if unat (buf_len b) \<le> length (uart_buf b) then do {
        buffer \<leftarrow> arr_blit buffer off (take (unat (buf_len b)) (uart_buf b));
        Some (True, buffer, ucast (buf_len b), b\<lparr>buf_len := 0\<rparr>)
      }
      else None)"

definition doXmodemDownloadInit ::
  "hw \<Rightarrow> u32 \<Rightarrow> board XMODEM \<Rightarrow> board \<Rightarrow> (board XMODEM \<times> board) option" where
  "doXmodemDownloadInit hw base_addr x b = do {
     let x = xmInit (Some (xmPutData hw)) (Some xmGetData) (Some (xmCallback hw)) x;
     b \<leftarrow> printf hw (''please send your file: '' @ [CHR 0x0A]) [] b;
     let x = xmStart x;
     Some (x, b\<lparr>nand_address := base_addr\<rparr>)
   }"

definition doXmodemDownloading ::
  "u32 \<Rightarrow> board XMODEM \<Rightarrow> board \<Rightarrow> (bool \<times> board XMODEM \<times> board) option" where
  "doXmodemDownloading timestamp x b = do {
     (st, x, b) \<leftarrow> xModemFSM timestamp x b;
     Some (st \<noteq> XMSTA_STOP, x, b)
   }"

subsection \<open>Copying the second stage\<close>

fun ram_store :: "u32 \<Rightarrow> u8 list \<Rightarrow> (u32 \<Rightarrow> u8) \<Rightarrow> u32 \<Rightarrow> u8" where
  "ram_store a [] m = m"
| "ram_store a (b # bs) m = ram_store (a + 1) bs (m(a := b))"

definition ram_bytes :: "u32 \<Rightarrow> nat \<Rightarrow> (u32 \<Rightarrow> u8) \<Rightarrow> u8 list" where
  "ram_bytes a n m = map (\<lambda>i. m (a + of_nat i)) [0..<n]"

lemma sint_sub_page:
  fixes n :: u32
  assumes "0 < sint n"
  shows "sint (n - 2048) = sint n - 2048"
proof -
  have "sint n < 2 ^ 31" using sint_lt [of n] by simp
  with assms show ?thesis
    by (simp add: sint_word_ariths(2) signed_take_bit_int_eq_self)
qed

function copybl2_loop ::
  "hw \<Rightarrow> u32 \<Rightarrow> u32 \<Rightarrow> u32 \<Rightarrow> (u32 \<Rightarrow> u8) \<Rightarrow> bus \<Rightarrow> (u32 \<Rightarrow> u8) \<times> bus" where
  "copybl2_loop hw size_copy addr_copy addr_ram m h =
     (if sint size_copy > 0 then
        (let (_, bs, h) = NF8_ReadPage_8ECC hw addr_copy (ram_bytes addr_ram PAGE_SIZE m) h;
             m = ram_store addr_ram bs m
         in copybl2_loop hw (size_copy - of_nat PAGE_SIZE) (addr_copy + of_nat PAGE_SIZE)
              (addr_ram + of_nat PAGE_SIZE) m h)
      else (m, h))"
  by auto
termination
  by (relation "measure (\<lambda>(hw, n, _). nat (sint n))") (auto simp: sint_sub_page)

declare copybl2_loop.simps [simp del]

text \<open>The function ends in the call of the second stage: the address control passes to is returned.\<close>

definition copybl2ToRamAndRun ::
  "hw \<Rightarrow> (u32 \<Rightarrow> u8) \<Rightarrow> board \<Rightarrow> (u32 \<times> (u32 \<Rightarrow> u8) \<times> board) option" where
  "copybl2ToRamAndRun hw m b = do {
     let size_copy = (BL2_APP_MAX_SIZE div of_nat PAGE_SIZE +
           (if BL2_APP_MAX_SIZE mod of_nat PAGE_SIZE > 0 then 1 else 0)) * of_nat PAGE_SIZE;
     let addr_copy = BL2_NF_ADDR;
     let addr_ram = BL2_RAM_ADDR;
     b \<leftarrow> printf hw (''size_copy=%d,BL2_nf_addr=0x%X,BL2_ram_addr=0x%X'' @ CRLF)
            [VInt size_copy, VInt addr_copy, VInt addr_ram] b;
     let (m, h) = copybl2_loop hw size_copy addr_copy addr_ram m (hist b);
     Some (BL2_RAM_ADDR, m, b\<lparr>hist := h\<rparr>)
   }"

subsection \<open>Self test and read-back\<close>

fun bzero_loop :: "u8 list \<Rightarrow> nat \<Rightarrow> nat \<Rightarrow> u8 list option" where
  "bzero_loop s i 0 = Some s"
| "bzero_loop s i (Suc n) = do { s \<leftarrow> arr_set s i 0; bzero_loop s (Suc i) n }"

definition bzero :: "u8 list \<Rightarrow> u32 \<Rightarrow> u8 list option" where
  "bzero s sz = bzero_loop s 0 (nat (sint sz))"

fun print_bytes :: "hw \<Rightarrow> u8 list \<Rightarrow> board \<Rightarrow> board option" where
  "print_bytes hw [] b = Some b"
| "print_bytes hw (c # cs) b = do { b \<leftarrow> printf hw ''%X '' [VInt (ucast c)] b; print_bytes hw cs b }"

definition testNandEcc :: "hw \<Rightarrow> board \<Rightarrow> board option" where
  "testNandEcc hw b = do {
     h \<leftarrow> nand_erase hw TEST_BLOCK_ADDR (hist b);
     let buf = map (\<lambda>i. ucast ((of_nat i :: u32) AND 0xFF)) [0..<PAGE_SIZE];
     b \<leftarrow> printf hw (''begin write data..'' @ CRLF) [] (b\<lparr>hist := h\<rparr>);
     h \<leftarrow> nand_write_page_8bit hw buf TEST_BLOCK_ADDR (hist b);
     (oob, h) \<leftarrow> nand_read_oob hw TEST_BLOCK_ADDR (of_nat OOB_SIZE) h;
     h \<leftarrow> nand_erase hw TEST_BLOCK_ADDR h;
     let buf = map (\<lambda>c. c XOR 0x01) (take 8 buf) @ drop 8 buf;
     h \<leftarrow> nand_write_page hw buf TEST_BLOCK_ADDR (Some oob) h;
     buf \<leftarrow> bzero buf (of_nat PAGE_SIZE);
     (ret, buf, h) \<leftarrow> nand_read_page_8bit hw buf TEST_BLOCK_ADDR h;
     b \<leftarrow> printf hw (''ret = %d, addr=0x%X'' @ CRLF) [VInt ret, VInt TEST_BLOCK_ADDR] (b\<lparr>hist := h\<rparr>);
     b \<leftarrow> print_bytes hw (take 10 buf) b;
     printf hw CRLF [] b
   }"

fun print_page :: "hw \<Rightarrow> nat \<Rightarrow> u8 list \<Rightarrow> board \<Rightarrow> board option" where
  "print_page hw i [] b = Some b"
| "print_page hw i (c # cs) b = do {
     b \<leftarrow> (if i mod 16 = 0 then printf hw CRLF [] b else Some b);
     b \<leftarrow> printf hw ''%X '' [VInt (ucast c)] b;
     print_page hw (Suc i) cs b
   }"

function checkAppInNand_loop :: "hw \<Rightarrow> u32 \<Rightarrow> u8 list \<Rightarrow> board \<Rightarrow> board option" where
  "checkAppInNand_loop hw addr buf b =
     (if addr < BL1_NF_ADDR + BL1_APP_SIZE + BL2_APP_MAX_SIZE then do {
        let (ret, buf, h) = NF8_ReadPage_8ECC hw addr buf (hist b);
        b \<leftarrow> printf hw (''ret = %d, addr = 0x%X'' @ CRLF) [VInt ret, VInt addr] (b\<lparr>hist := h\<rparr>);
        b \<leftarrow> print_page hw 0 (take PAGE_SIZE buf) b;
        b \<leftarrow> printf hw CRLF [] b;
        checkAppInNand_loop hw (addr + of_nat PAGE_SIZE) buf b
      }
      else Some b)"
  by auto
termination
proof (relation "measure (\<lambda>(hw, addr, _). 278528 - unat addr)", goal_cases)
  case (2 hw addr buf b)
  then show ?case by (simp add: word_less_nat_alt unat_word_ariths)
qed simp

text \<open>The page buffer is a local array without initial value; the ROM reader fills it.\<close>

definition checkAppInNand :: "hw \<Rightarrow> board \<Rightarrow> board option" where
  "checkAppInNand hw b = do {
     b \<leftarrow> printf hw (''SIZE = %d'' @ CRLF) [VInt (BL1_APP_SIZE + BL2_APP_MAX_SIZE)] b;
     checkAppInNand_loop hw BL1_NF_ADDR (replicate PAGE_SIZE 0) b
   }"

subsection \<open>Menu and main loop\<close>

datatype MENU_STATE = MENU_ENTRY | MENU_AUTO_BOOT | MENU_CMD | MENU_DOWNLOAD | MENU_BOOT

record spl =
  brd :: board
  xmodem :: "board XMODEM"
  ram :: "u32 \<Rightarrow> u8"
  g_counter :: u32
  menu_state :: MENU_STATE
  timestamp_auto_boot :: u32
  auto_boot_timeout :: u32

definition print_menu :: "hw \<Rightarrow> board \<Rightarrow> board option" where
  "print_menu hw b = do {
     b \<leftarrow> printf hw (CRLF @ CRLF @
            ''---------------- boot menu, please input your command: ----------------'' @ CRLF) [] b;
     b \<leftarrow> printf hw (''>> D: download myboot(SPL+uboot) into nandflash(uart2, xModem, 0)'' @ CRLF) [] b;
     b \<leftarrow> printf hw (''>> B: start uboot'' @ CRLF) [] b;
     b \<leftarrow> printf hw (''>> N: test nand with ecc'' @ CRLF) [] b;
     b \<leftarrow> printf hw (''>> C: readback nand(BL1+BL2)'' @ CRLF) [] b;
     printf hw CRLF [] b
   }"

abbreviation continue :: "spl \<Rightarrow> (spl \<times> u32 option) option" where
  "continue m \<equiv> Some (m, None)"

definition menu_auto_boot :: "hw \<Rightarrow> u32 \<Rightarrow> bool \<Rightarrow> spl \<Rightarrow> (spl \<times> u32 option) option" where
  "menu_auto_boot hw timestamp recved m =
     (if recved then do {
        b \<leftarrow> print_menu hw (brd m);
        continue (m\<lparr>brd := b, menu_state := MENU_CMD\<rparr>)
      }
      else if sint (auto_boot_timeout m) \<le> 0 then continue (m\<lparr>menu_state := MENU_BOOT\<rparr>)
      else do {
        m \<leftarrow> (if timestamp_auto_boot m = 0 then do {
                let m = m\<lparr>timestamp_auto_boot := timestamp\<rparr>;
                b \<leftarrow> printf hw ([CHR 0x0D] @ ''Auto boot in %d second...'') [VInt (auto_boot_timeout m)] (brd m);
                Some (m\<lparr>brd := b\<rparr>)
              }
              else Some m);
        if timestamp - timestamp_auto_boot m \<ge> 1000 then do {
          let m = m\<lparr>auto_boot_timeout := auto_boot_timeout m - 1\<rparr>;
          let m = m\<lparr>timestamp_auto_boot := timestamp\<rparr>;
          b \<leftarrow> printf hw ([CHR 0x0D] @ ''Auto boot in %d second...'') [VInt (auto_boot_timeout m)] (brd m);
          continue (m\<lparr>brd := b\<rparr>)
        }
        else continue m
      })"

definition menu_cmd :: "hw \<Rightarrow> bool \<Rightarrow> u8 \<Rightarrow> spl \<Rightarrow> (spl \<times> u32 option) option" where
  "menu_cmd hw recved c m =
     (if \<not> recved then continue m
      else if c = 0x64 \<or> c = 0x44 then do {
        (x, b) \<leftarrow> doXmodemDownloadInit hw BL1_NF_ADDR (xmodem m) (brd m);
        continue (m\<lparr>xmodem := x, brd := b, menu_state := MENU_DOWNLOAD\<rparr>)
      }
      else if c = 0x62 \<or> c = 0x42 then continue (m\<lparr>menu_state := MENU_BOOT\<rparr>)
      else if c = 0x6E \<or> c = 0x4E then do {
        b \<leftarrow> testNandEcc hw (brd m);
        continue (m\<lparr>brd := b\<rparr>)
      }
      else if c = 0x63 \<or> c = 0x43 then do {
        b \<leftarrow> checkAppInNand hw (brd m);
        continue (m\<lparr>brd := b\<rparr>)
      }
      else continue m)"

definition menu_download :: "hw \<Rightarrow> u32 \<Rightarrow> bool \<Rightarrow> u8 \<Rightarrow> spl \<Rightarrow> (spl \<times> u32 option) option" where
  "menu_download hw timestamp recved c m = do {
     let b = (if recved then uart_buff c (brd m) else brd m);
     (busy, x, b) \<leftarrow> doXmodemDownloading timestamp (xmodem m) b;
     let m = m\<lparr>xmodem := x\<rparr>;
     if \<not> busy then do {
       b \<leftarrow> printf hw (''program finished!'' @ [CHR 0x0A]) [] b;
       b \<leftarrow> print_menu hw b;
       continue (m\<lparr>brd := b, menu_state := MENU_CMD\<rparr>)
     }
     else continue (m\<lparr>brd := b\<rparr>)
   }"

definition menu_boot :: "hw \<Rightarrow> spl \<Rightarrow> (spl \<times> u32 option) option" where
  "menu_boot hw m = do {
     let b = (brd m)\<lparr>hist := led_off hw (hist (brd m))\<rparr>;
     b \<leftarrow> printf hw (CRLF @ ''Booting...'' @ CRLF) [] b;
     (entry, r, b) \<leftarrow> copybl2ToRamAndRun hw (ram m) b;
     Some (m\<lparr>brd := b, ram := r\<rparr>, Some entry)
   }"

definition menu :: "hw \<Rightarrow> u32 \<Rightarrow> bool \<Rightarrow> u8 \<Rightarrow> spl \<Rightarrow> (spl \<times> u32 option) option" where
  "menu hw timestamp recved c m =
     (case menu_state m of
        MENU_AUTO_BOOT \<Rightarrow> menu_auto_boot hw timestamp recved m
      | MENU_CMD \<Rightarrow> menu_cmd hw recved c m
      | MENU_DOWNLOAD \<Rightarrow> menu_download hw timestamp recved c m
      | MENU_BOOT \<Rightarrow> menu_boot hw m
      | MENU_ENTRY \<Rightarrow> do {
          b \<leftarrow> printf hw (''Going to auto boot, press any KEY to cancel!'' @ CRLF) [] (brd m);
          continue (m\<lparr>brd := b, menu_state := MENU_AUTO_BOOT, timestamp_auto_boot := 0,
                      auto_boot_timeout := AUTOBOOT_TIMEOUTS\<rparr>)
        })"

definition spl_start :: "hw \<Rightarrow> spl \<Rightarrow> spl option" where
  "spl_start hw m = do {
     let b = brd m;
     let h = uart_init hw (hist b);
     h \<leftarrow> nand_init hw h;
     let (g, h) = tim4_init hw (g_counter m) h;
     h \<leftarrow> print_clock hw h;
     let h = led_on hw h;
     let (id, h) = nand_read_id hw h;
     b \<leftarrow> printf hw (''nand id: %X%X%X%X%X'' @ CRLF) (map (\<lambda>c. VInt (ucast c)) id) (b\<lparr>hist := h\<rparr>);
     Some (m\<lparr>brd := b, g_counter := g\<rparr>)
   }"

text \<open>
  One turn of the endless loop; the variable \<open>c\<close> is only read where a character was received. The
  loop runs until the menu passes control to the second stage; \<open>spl_loop\<close> is its first \<open>n\<close> turns.
\<close>

definition spl_turn :: "hw \<Rightarrow> spl \<Rightarrow> (spl \<times> u32 option) option" where
  "spl_turn hw m =
     (let b = brd m;
          (recved, c, h) = try_get_char hw True (hist b);
          (timestamp, h) = tim4_poll hw (g_counter m) h
      in menu hw timestamp recved (case c of None \<Rightarrow> 0 | Some c \<Rightarrow> c)
           (m\<lparr>brd := b\<lparr>hist := h\<rparr>, g_counter := timestamp\<rparr>))"

fun spl_loop :: "hw \<Rightarrow> nat \<Rightarrow> spl \<Rightarrow> (spl \<times> u32 option) option" where
  "spl_loop hw 0 m = continue m"
| "spl_loop hw (Suc n) m = do {
     (m, entry) \<leftarrow> spl_turn hw m;
     case entry of None \<Rightarrow> spl_loop hw n m | Some a \<Rightarrow> Some (m, Some a)
   }"

definition board_init_f_spl :: "hw \<Rightarrow> nat \<Rightarrow> spl \<Rightarrow> (spl \<times> u32 option) option" where
  "board_init_f_spl hw n m = do { m \<leftarrow> spl_start hw m; spl_loop hw n m }"

end
