(* ===== verification/Spl_Download.thy ===== *)
theory Spl_Download
  imports Spl_Main
begin

text \<open>
  The download over XMODEM into the flash, end to end: the functions of the loader satisfy the
  contract of the receiver, the page buffer cuts the received bytes into pages, and the pages arrive on
  the flash. The chip behind the controller is the one of \<open>Nand_Chip\<close>.
\<close>

unbundle bit_operations_syntax

subsection \<open>The port of the receiver\<close>

definition port_ok :: "board \<Rightarrow> bool" where
  "port_ok b \<longleftrightarrow> length (uart_buf b) = 128 \<and> unat (buf_len b) \<le> 128"

definition port_pending :: "board \<Rightarrow> u8 list" where
  "port_pending b = take (unat (buf_len b)) (uart_buf b)"

definition port_view :: "board \<Rightarrow> board" where
  "port_view b = b\<lparr>uart_buf := [], buf_len := 0\<rparr>"

definition port_put :: "hw \<Rightarrow> u8 list \<Rightarrow> board \<Rightarrow> board option" where
  "port_put hw bs b = map_option snd (xmPutData hw bs (of_nat (length bs)) b)"

text \<open>
  The functions of the page buffer neither read nor change the UART buffer: they commute with every
  change of it.
\<close>

definition set_uart :: "u8 list \<Rightarrow> u8 \<Rightarrow> board \<Rightarrow> board" where
  "set_uart ub n b = b\<lparr>uart_buf := ub, buf_len := n\<rparr>"

lemma set_uart_fields [simp]:
  "nand_buff (set_uart ub n b) = nand_buff b" "buff_offset (set_uart ub n b) = buff_offset b"
  "nand_address (set_uart ub n b) = nand_address b" "hist (set_uart ub n b) = hist b"
  by (simp_all add: set_uart_def)

lemma set_uart_upd [simp]:
  "(set_uart ub n b)\<lparr>nand_buff := x\<rparr> = set_uart ub n (b\<lparr>nand_buff := x\<rparr>)"
  "(set_uart ub n b)\<lparr>buff_offset := y\<rparr> = set_uart ub n (b\<lparr>buff_offset := y\<rparr>)"
  "(set_uart ub n b)\<lparr>nand_address := y\<rparr> = set_uart ub n (b\<lparr>nand_address := y\<rparr>)"
  "(set_uart ub n b)\<lparr>hist := h\<rparr> = set_uart ub n (b\<lparr>hist := h\<rparr>)"
  by (simp_all add: set_uart_def)

lemma program_tonand_uart:
  "program_tonand hw (set_uart ub n b) = map_option (set_uart ub n) (program_tonand hw b)"
  by (simp add: program_tonand_def split: bind_splits)

lemma try_program_loop_uart:
  "try_program_loop hw cs (set_uart ub n b) = map_option (set_uart ub n) (try_program_loop hw cs b)"
proof (induction cs arbitrary: b)
  case (Cons c cs)
  then show ?case
    by (auto simp: Let_def program_tonand_uart split: bind_splits)
qed simp

lemma xmCallback_uart:
  "xmCallback hw e d buf k (set_uart ub n b) = map_option (set_uart ub n) (xmCallback hw e d buf k b)"
  by (simp add: xmCallback_def try_program_def program_tonand_uart try_program_loop_uart Let_def)

lemma xmCallback_keeps:
  assumes "xmCallback hw e d buf k b = Some b'"
  shows "uart_buf b' = uart_buf b \<and> buf_len b' = buf_len b"
proof -
  have "set_uart (uart_buf b) (buf_len b) b = b" by (simp add: set_uart_def)
  with xmCallback_uart [of hw e d buf k "uart_buf b" "buf_len b" b] assms
  have "b' = set_uart (uart_buf b) (buf_len b) b'" by simp
  then show ?thesis by (cases b') (simp add: set_uart_def)
qed

interpretation port: xmodem_port "xmPutData hw" xmGetData "xmCallback hw" uart_buff port_ok port_pending
  port_view "port_put hw" "xmCallback hw" for hw
proof (unfold_locales, goal_cases)
  case (1 s c)
  then show ?case by (auto simp: port_ok_def uart_buff_def unat_word_ariths)
next
  case (2 s c)
  then have "buf_len s = 0" by (auto simp: port_ok_def port_pending_def word_eq_0_unat)
  with 2 show ?case by (cases "uart_buf s") (auto simp: port_ok_def port_pending_def uart_buff_def)
next
  case (3 c s)
  show ?case by (simp add: port_view_def uart_buff_def)
next
  case (4 s off fr)
  then show ?case
    by (intro exI [of _ "s\<lparr>buf_len := 0\<rparr>"])
      (auto simp: xmGetData_def port_ok_def port_pending_def port_view_def arr_blit_eq min_absorb2 of_nat_unat)
next
  case (5 s fr off n)
  then show ?case
    by (auto simp: xmGetData_def port_ok_def port_pending_def arr_blit_overrun)
next
  case (6 bs s)
  show ?case by (simp add: port_put_def xmPutData_def port_view_def split: bind_splits)
next
  case (7 bs n s r s')
  then show ?case by (auto simp: xmPutData_def port_ok_def port_pending_def split: if_splits bind_splits)
next
  case (8 e d b n s)
  show ?case using xmCallback_uart [of hw e d b n "[]" 0 s] by (simp add: port_view_def [abs_def] set_uart_def [abs_def])
next
  case (9 e d b n s s')
  then show ?case using xmCallback_keeps [OF 9] by (simp add: port_ok_def port_pending_def)
qed


subsection \<open>Pages on the flash\<close>

text \<open>Sending bytes leaves the flash alone.\<close>

lemma chip_of_tx_access: "tx_access x \<Longrightarrow> chip_step x c = c"
  by (cases x) auto

lemma chip_of_tx_ext:
  assumes "tx_ext h h'"
  shows "chip_of c0 h' = chip_of c0 h"
proof -
  from assms obtain xs where xs: "h' = xs @ h" "\<forall>x \<in> set xs. tx_access x" by (auto simp: tx_ext_def)
  have "chip_of c0 (xs @ h) = chip_of c0 h" using xs(2) by (induction xs) (auto simp: chip_of_tx_access)
  with xs(1) show ?thesis by simp
qed

lemma emits_chip:
  assumes "emits f bs"
  obtains h' where "f h = Some h'" "tx_bytes h' = tx_bytes h @ bs" "chip_of c0 h' = chip_of c0 h"
  using emitsD [OF assms, of h] chip_of_tx_ext [of h _ c0] by metis

text \<open>Programming the flash sends no byte.\<close>

lemma tx_bytes_ops [simp]:
  "a \<noteq> UTXH2 \<Longrightarrow> tx_bytes (wr a v h) = tx_bytes h" "a \<noteq> UTXH2 \<Longrightarrow> tx_bytes (rmw hw a f h) = tx_bytes h"
  "tx_bytes (snd (rd hw b h)) = tx_bytes h"
  by (simp_all add: tx_bytes_def)

lemma tx_bytes_poll: "poll hw a p h = Some h' \<Longrightarrow> tx_bytes h' = tx_bytes h"
  by (simp add: tx_bytes_def poll_writes)

lemma tx_bytes_nand [simp]:
  "tx_bytes (nand_select_chip hw h) = tx_bytes h" "tx_bytes (nand_deselect_chip hw h) = tx_bytes h"
  "tx_bytes (nand_cmd c h) = tx_bytes h" "tx_bytes (nand_addr addr h) = tx_bytes h"
  "tx_bytes (nand_write_buf bs h) = tx_bytes h" "tx_bytes (nand_init_hwecc_8bit hw md h) = tx_bytes h"
proof -
  show "tx_bytes (nand_write_buf bs h) = tx_bytes h" by (induction bs arbitrary: h) simp_all
qed (simp_all add: nand_select_chip_def nand_deselect_chip_def nand_cmd_def nand_addr_def nand_init_hwecc_8bit_def Let_def)

lemma tx_bytes_ready: "nand_wait_ready hw h = Some h' \<Longrightarrow> tx_bytes h' = tx_bytes h"
  unfolding nand_wait_ready_def by (rule tx_bytes_poll)

lemma tx_bytes_ecc: "nand_calculate_ecc_8bit hw md h = Some (ecc, h') \<Longrightarrow> tx_bytes h' = tx_bytes h"
  by (auto simp: nand_calculate_ecc_8bit_def Let_def case_prod_unfold bind_Some_iff dest!: tx_bytes_poll split: if_splits)

lemma tx_bytes_page_loop: "write_page_8bit_loop hw n i buf oob h = Some (oob', h') \<Longrightarrow> tx_bytes h' = tx_bytes h"
proof (induction n arbitrary: i buf oob h)
  case (Suc n)
  then show ?case by (auto simp: Let_def bind_Some_iff dest!: tx_bytes_ecc)
qed simp

lemma tx_bytes_erase: "nand_erase hw addr h = Some h' \<Longrightarrow> tx_bytes h' = tx_bytes h"
  by (auto simp: nand_erase_def Let_def bind_Some_iff dest!: tx_bytes_ready split: if_splits)

lemma tx_bytes_page: "nand_write_page_8bit hw buf addr h = Some h' \<Longrightarrow> tx_bytes h' = tx_bytes h"
  by (auto simp: nand_write_page_8bit_def Let_def bind_Some_iff dest!: tx_bytes_ready tx_bytes_page_loop split: if_splits)

lemma tx_bytes_program: "program_tonand hw b = Some b' \<Longrightarrow> tx_bytes (hist b') = tx_bytes (hist b)"
  by (auto simp: program_tonand_def bind_Some_iff dest!: tx_bytes_page tx_bytes_erase split: if_splits)

lemma tx_bytes_try_program: "try_program_loop hw cs b = Some b' \<Longrightarrow> tx_bytes (hist b') = tx_bytes (hist b)"
proof (induction cs arbitrary: b)
  case (Cons c cs)
  then show ?case by (auto simp: Let_def bind_Some_iff dest!: tx_bytes_program split: if_splits)
qed simp

text \<open>\<open>flash c0 b\<close>: the cells of the chip in board state \<open>b\<close>.\<close>

abbreviation flash :: "chip \<Rightarrow> board \<Rightarrow> cell_array" where
  "flash c0 b \<equiv> cells (chip_of c0 (hist b))"

abbreviation page_data :: "cell_array \<Rightarrow> nat \<Rightarrow> u8 list" where
  "page_data cs r \<equiv> map (cs r) [0..<PAGE_SIZE]"

text \<open>The rest of the block that page \<open>q\<close> continues is erased.\<close>

definition fresh :: "cell_array \<Rightarrow> nat \<Rightarrow> bool" where
  "fresh cs q \<longleftrightarrow> (\<forall>r. \<not> PAGE_PER_BLK dvd q \<and> r div PAGE_PER_BLK = q div PAGE_PER_BLK \<and> q \<le> r \<longrightarrow>
     cs r = (\<lambda>_. 0xFF))"

lemma page_address:
  assumes "q < 2 ^ 19" "a = of_nat (PAGE_SIZE * q)"
  shows "unat (a :: u32) = PAGE_SIZE * q" "page_row a = q" "a AND (of_nat PAGE_SIZE - 1) = 0"
    "a mod of_nat BLOCK_SIZE = 0 \<longleftrightarrow> PAGE_PER_BLK dvd q" "a AND (of_nat BLOCK_SIZE - 1) = 0 \<longleftrightarrow> PAGE_PER_BLK dvd q"
proof -
  from assms(1) have "PAGE_SIZE * q < 2 ^ 32" by simp
  with assms(2) show u: "unat a = PAGE_SIZE * q"
    by (simp only: unat_of_nat) (simp add: take_bit_eq_mod)
  then show "page_row a = q" using assms(1) by (simp add: page_row_def)
  show "a AND (of_nat PAGE_SIZE - 1) = 0"
    using page_aligned_iff [of a] u by simp
  have "PAGE_SIZE * q mod BLOCK_SIZE = PAGE_SIZE * (q mod PAGE_PER_BLK)"
    by (simp add: mult_mod_right)
  then have "unat a mod BLOCK_SIZE = 0 \<longleftrightarrow> PAGE_PER_BLK dvd q"
    unfolding u dvd_eq_mod_eq_0 by simp
  then show "a mod of_nat BLOCK_SIZE = 0 \<longleftrightarrow> PAGE_PER_BLK dvd q"
      "a AND (of_nat BLOCK_SIZE - 1) = 0 \<longleftrightarrow> PAGE_PER_BLK dvd q"
    using block_aligned_iff [of a] by (simp_all add: word_eq_0_unat unat_mod)
qed

lemma same_block_next:
  "\<not> PAGE_PER_BLK dvd Suc q \<Longrightarrow> Suc q div PAGE_PER_BLK = q div PAGE_PER_BLK"
  by (simp add: div_Suc dvd_eq_mod_eq_0)

lemma lower_block:
  "PAGE_PER_BLK dvd q \<Longrightarrow> r < q \<Longrightarrow> r div PAGE_PER_BLK \<noteq> q div PAGE_PER_BLK"
  by (auto elim!: dvdE simp: less_mult_imp_div_less)

lemma program_tonand_page:
  assumes dev: "nand_device hw c0" and q: "q < 2 ^ 19" "nand_address b = of_nat (PAGE_SIZE * q)"
    and len: "length (nand_buff b) = PAGE_SIZE" and fresh: "fresh (flash c0 b) q"
  shows "\<exists>h'. program_tonand hw b = Some (b\<lparr>hist := h', nand_address := of_nat (PAGE_SIZE * Suc q)\<rparr>) \<and>
    page_data (cells (chip_of c0 h')) q = nand_buff b \<and> (\<forall>r < q. cells (chip_of c0 h') r = flash c0 b r) \<and>
    fresh (cells (chip_of c0 h')) (Suc q)"
proof -
  note adr = page_address [OF q]
  have "\<exists>h1. (if nand_address b mod of_nat BLOCK_SIZE = 0 then nand_erase hw (nand_address b) (hist b)
        else Some (hist b)) = Some h1 \<and> (\<forall>r. r div PAGE_PER_BLK = q div PAGE_PER_BLK \<and> q \<le> r \<longrightarrow>
        cells (chip_of c0 h1) r = (\<lambda>_. 0xFF)) \<and> (\<forall>r < q. cells (chip_of c0 h1) r = flash c0 b r)"
  proof (cases "PAGE_PER_BLK dvd q")
    case True
    with nand_erase_chip [OF dev, of "nand_address b" "hist b"] adr obtain h1 where
      "nand_erase hw (nand_address b) (hist b) = Some h1"
      "chip_of c0 h1 = at_rest CIdle (erase_block q (flash c0 b))" by auto
    with True adr show ?thesis by (auto simp: erase_block_same erase_block_other lower_block)
  next
    case False
    with adr fresh show ?thesis by (auto simp: fresh_def)
  qed
  then obtain h1 where h1: "(if nand_address b mod of_nat BLOCK_SIZE = 0 then nand_erase hw (nand_address b) (hist b)
        else Some (hist b)) = Some h1"
      "\<And>r. r div PAGE_PER_BLK = q div PAGE_PER_BLK \<Longrightarrow> q \<le> r \<Longrightarrow> cells (chip_of c0 h1) r = (\<lambda>_. 0xFF)"
      "\<And>r. r < q \<Longrightarrow> cells (chip_of c0 h1) r = flash c0 b r" by blast
  from nand_write_page_8bit_chip [OF dev adr(3) len, of h1] adr(2) obtain h2 oob where h2:
    "nand_write_page_8bit hw (nand_buff b) (nand_address b) h1 = Some h2"
    "chip_of c0 h2 = at_rest CIdle (program_page q (put_bytes (\<lambda>_. 0xFF) 0 (nand_buff b @ oob)) (cells (chip_of c0 h1)))"
    by auto
  have "nand_address b + of_nat PAGE_SIZE = of_nat (PAGE_SIZE * Suc q)" using q(2) by simp
  then have "program_tonand hw b = Some (b\<lparr>hist := h2, nand_address := of_nat (PAGE_SIZE * Suc q)\<rparr>)"
    using h1(1) h2(1) by (simp add: program_tonand_def)
  moreover have "page_data (cells (chip_of c0 h2)) q = nand_buff b"
    using program_erased_page [of "cells (chip_of c0 h1)" q "nand_buff b" oob] h1(2) [of q] h2(2) len
    by (simp del: upt_rec_numeral)
  moreover have "cells (chip_of c0 h2) r = flash c0 b r" if "r < q" for r
    using that h1(3) h2(2) by (simp add: program_page_def)
  moreover have "fresh (cells (chip_of c0 h2)) (Suc q)"
    using h1(2) h2(2) by (auto simp: fresh_def same_block_next program_page_def)
  ultimately show ?thesis by blast
qed

text \<open>
  The state after the bytes \<open>dat\<close> went through the page buffer, starting at page \<open>r0\<close>: the full pages
  are on the flash, the rest is in the buffer, and the pages below \<open>r0\<close> are as in \<open>cs0\<close>.
\<close>

definition buffered :: "chip \<Rightarrow> cell_array \<Rightarrow> nat \<Rightarrow> board \<Rightarrow> u8 list \<Rightarrow> bool" where
  "buffered c0 cs0 r0 b dat \<longleftrightarrow>
     (let k = length dat div PAGE_SIZE; j = length dat mod PAGE_SIZE in
      length (nand_buff b) = PAGE_SIZE \<and> buff_offset b = of_nat j \<and>
      nand_address b = of_nat (PAGE_SIZE * (r0 + k)) \<and>
      take j (nand_buff b) = drop (PAGE_SIZE * k) dat \<and>
      (\<forall>p < k. page_data (flash c0 b) (r0 + p) = take PAGE_SIZE (drop (PAGE_SIZE * p) dat)) \<and>
      (\<forall>r < r0. flash c0 b r = cs0 r) \<and> fresh (flash c0 b) (r0 + k))"

lemma buffered_byte:
  assumes dev: "nand_device hw c0" and "buffered c0 cs0 r0 b dat"
    and room: "r0 + length dat div PAGE_SIZE < 2 ^ 19"
  shows "\<exists>b'. try_program_loop hw [c] b = Some b' \<and> buffered c0 cs0 r0 b' (dat @ [c])"
proof -
  define k j where "k = length dat div PAGE_SIZE" and "j = length dat mod PAGE_SIZE"
  have dl: "length dat = PAGE_SIZE * k + j" "j < PAGE_SIZE" by (simp_all add: k_def j_def)
  from assms(2) have inv: "length (nand_buff b) = PAGE_SIZE" "buff_offset b = of_nat j"
    "nand_address b = of_nat (PAGE_SIZE * (r0 + k))" "take j (nand_buff b) = drop (PAGE_SIZE * k) dat"
    "\<And>p. p < k \<Longrightarrow> page_data (flash c0 b) (r0 + p) = take PAGE_SIZE (drop (PAGE_SIZE * p) dat)"
    "\<And>r. r < r0 \<Longrightarrow> flash c0 b r = cs0 r" "fresh (flash c0 b) (r0 + k)"
    unfolding buffered_def Let_def k_def [symmetric] j_def [symmetric] by blast+
  let ?nb = "(nand_buff b)[j := c]"
  let ?b = "b\<lparr>nand_buff := ?nb, buff_offset := of_nat (Suc j)\<rparr>"
  have uj: "unat (of_nat j :: u32) = j" "unat (of_nat (Suc j) :: u32) = Suc j"
    using dl(2) by (simp_all only: unat_of_nat) (simp_all add: take_bit_eq_mod)
  have bo: "of_nat j + 1 = (of_nat (Suc j) :: u32)" by simp
  have full: "of_nat PAGE_SIZE \<le> (of_nat (Suc j) :: u32) \<longleftrightarrow> Suc j = PAGE_SIZE"
    unfolding word_le_nat_alt uj using dl(2) by auto
  have step: "try_program_loop hw [c] b =
      (if Suc j = PAGE_SIZE then program_tonand hw ?b \<bind> (\<lambda>b. Some (b\<lparr>buff_offset := 0\<rparr>)) else Some ?b)"
    using inv(1) dl(2) by (simp add: Let_def bo full uj inv(2) del: of_nat_Suc of_nat_numeral)
  have tk: "take (Suc j) ?nb = drop (PAGE_SIZE * k) (dat @ [c])"
    using dl inv(1,4) by (simp add: take_Suc_conv_app_nth)
  have old: "take PAGE_SIZE (drop (PAGE_SIZE * p) (dat @ [c])) = take PAGE_SIZE (drop (PAGE_SIZE * p) dat)" if "p < k" for p
  proof -
    have "PAGE_SIZE * Suc p \<le> length dat" using that dl(1) mult_le_mono2 [of "Suc p" k PAGE_SIZE] by linarith
    then show ?thesis by simp
  qed
  show ?thesis
  proof (cases "Suc j = PAGE_SIZE")
    case False
    then have "length (dat @ [c]) div PAGE_SIZE = k" "length (dat @ [c]) mod PAGE_SIZE = Suc j"
      using dl by simp_all
    moreover have "try_program_loop hw [c] b = Some ?b"
      unfolding step by (rule if_not_P [OF False])
    ultimately show ?thesis
      using inv tk old by (auto simp: buffered_def Let_def)
  next
    case True
    then have n: "length (dat @ [c]) div PAGE_SIZE = Suc k" "length (dat @ [c]) mod PAGE_SIZE = 0"
      using dl by simp_all
    from program_tonand_page [OF dev, of "r0 + k" ?b] inv room
    obtain h' where h': "program_tonand hw ?b = Some (?b\<lparr>hist := h', nand_address := of_nat (PAGE_SIZE * Suc (r0 + k))\<rparr>)"
      "page_data (cells (chip_of c0 h')) (r0 + k) = ?nb" "\<And>r. r < r0 + k \<Longrightarrow> cells (chip_of c0 h') r = flash c0 b r"
      "fresh (cells (chip_of c0 h')) (Suc (r0 + k))"
      by (auto simp: k_def simp del: of_nat_mult upt_rec_numeral)
    let ?b' = "?b\<lparr>hist := h', nand_address := of_nat (PAGE_SIZE * Suc (r0 + k)), buff_offset := 0\<rparr>"
    have "try_program_loop hw [c] b = Some ?b'"
      unfolding step if_P [OF True] h'(1) by simp
    moreover have "page_data (cells (chip_of c0 h')) (r0 + p) = take PAGE_SIZE (drop (PAGE_SIZE * p) (dat @ [c]))"
      if "p < Suc k" for p
      using that inv(1,5) h'(2) h'(3) [of "r0 + p"] tk True old dl by (cases "p = k") (auto simp del: upt_rec_numeral)
    ultimately show ?thesis
      using inv(1,6) h'(3,4) n dl by (auto simp: buffered_def Let_def simp del: upt_rec_numeral)
  qed
qed

lemma buffered_bytes:
  assumes "nand_device hw c0"
  shows "buffered c0 cs0 r0 b dat \<Longrightarrow> r0 + length (dat @ bs) div PAGE_SIZE < 2 ^ 19 \<Longrightarrow>
    \<exists>b'. try_program_loop hw bs b = Some b' \<and> buffered c0 cs0 r0 b' (dat @ bs)"
proof (induction bs arbitrary: b dat)
  case (Cons c bs)
  have "length dat div PAGE_SIZE \<le> length (dat @ c # bs) div PAGE_SIZE" by (rule div_le_mono) simp
  with Cons.prems(2) have "r0 + length dat div PAGE_SIZE < 2 ^ 19" by linarith
  from buffered_byte [OF assms Cons.prems(1) this, of c] obtain b1 where
    b1: "try_program_loop hw [c] b = Some b1" "buffered c0 cs0 r0 b1 (dat @ [c])" by blast
  from Cons.IH [OF b1(2)] Cons.prems(2) obtain b' where
    b': "try_program_loop hw bs b1 = Some b'" "buffered c0 cs0 r0 b' (dat @ c # bs)" by auto
  have "try_program_loop hw (c # bs) b = try_program_loop hw [c] b \<bind> try_program_loop hw bs"
    by (simp add: Let_def bind_assoc)
  with b1(1) b' show ?case by simp
qed simp

definition payload :: "u8 list \<Rightarrow> u8 list" where
  "payload fr = take XMODEM_DATA_SIZE (drop IDX_DATAS fr)"

lemma buffered_hist:
  "buffered c0 cs0 r0 b dat \<Longrightarrow> chip_of c0 h = chip_of c0 (hist b) \<Longrightarrow> buffered c0 cs0 r0 (b\<lparr>hist := h\<rparr>) dat"
  by (simp add: buffered_def Let_def)

lemma port_put_chip:
  assumes "tx_drains hw"
  shows "\<exists>h. port_put hw [c] b = Some (b\<lparr>hist := h\<rparr>) \<and> chip_of c0 h = chip_of c0 (hist b) \<and> tx_bytes h = tx_bytes (hist b) @ [c]"
proof -
  obtain h where "put_chars hw [c] (hist b) = Some h" "tx_bytes h = tx_bytes (hist b) @ [c]" "chip_of c0 h = chip_of c0 (hist b)"
    by (rule emits_chip [OF emits_put_chars [OF assms, of "[c]"]])
  then show ?thesis by (auto simp: port_put_def xmPutData_def)
qed

lemma port_puts_chip:
  assumes "tx_drains hw"
  shows "\<exists>h. puts (port_put hw) cs b = Some (b\<lparr>hist := h\<rparr>) \<and> chip_of c0 h = chip_of c0 (hist b) \<and>
    tx_bytes h = tx_bytes (hist b) @ cs"
proof (induction cs arbitrary: b)
  case Nil
  show ?case by (rule exI [of _ "hist b"]) simp
next
  case (Cons c cs)
  from port_put_chip [OF assms, of c b c0] obtain h1 where h1: "port_put hw [c] b = Some (b\<lparr>hist := h1\<rparr>)"
    "chip_of c0 h1 = chip_of c0 (hist b)" "tx_bytes h1 = tx_bytes (hist b) @ [c]" by blast
  from Cons.IH [of "b\<lparr>hist := h1\<rparr>"] h1 show ?case by auto
qed

lemma accept_buffered:
  assumes "nand_device hw c0" "tx_drains hw"
  shows "buffered c0 cs0 r0 b dat \<Longrightarrow> \<forall>p \<in> set ps. soh_frame (packet_bytes p) \<Longrightarrow>
    r0 + length (dat @ concat (map (payload \<circ> packet_bytes) ps)) div PAGE_SIZE < 2 ^ 19 \<Longrightarrow>
    \<exists>b'. accept (xmCallback hw) (port_put hw) r ps ae b = Some b' \<and>
      buffered c0 cs0 r0 b' (dat @ concat (map (payload \<circ> packet_bytes) ps)) \<and>
      tx_bytes (hist b') = tx_bytes (hist b) @ replies r ps ae"
proof (induction ps arbitrary: b dat r)
  case Nil
  from port_puts_chip [OF assms(2), of "replicate (length ae) r" b c0] Nil show ?case by (auto intro: buffered_hist)
next
  case (Cons p ps)
  obtain as ts c t where p: "p = (as, ts, c, t)" by (cases p) auto
  let ?fr = "packet_bytes p"
  from port_puts_chip [OF assms(2), of "replicate (length as) r" b c0] obtain h0 where
    h0: "puts (port_put hw) (replicate (length as) r) b = Some (b\<lparr>hist := h0\<rparr>)" "chip_of c0 h0 = chip_of c0 (hist b)"
      "tx_bytes h0 = tx_bytes (hist b) @ replicate (length as) r" by blast
  have "length (dat @ payload ?fr) div PAGE_SIZE \<le> length (dat @ concat (map (payload \<circ> packet_bytes) (p # ps))) div PAGE_SIZE"
    by (rule div_le_mono) simp
  with Cons.prems(3) have "r0 + length (dat @ payload ?fr) div PAGE_SIZE < 2 ^ 19" by linarith
  from buffered_bytes [OF assms(1) buffered_hist [OF Cons.prems(1) h0(2)] this] obtain b1 where
    b1: "try_program_loop hw (payload ?fr) (b\<lparr>hist := h0\<rparr>) = Some b1" "buffered c0 cs0 r0 b1 (dat @ payload ?fr)" by blast
  have tx1: "tx_bytes (hist b1) = tx_bytes h0" using tx_bytes_try_program [OF b1(1)] by simp
  have cb: "xmCallback hw XMEVT_SOH n (Some (drop IDX_DATAS ?fr)) (of_nat XMODEM_DATA_SIZE) (b\<lparr>hist := h0\<rparr>) = Some b1" for n
    using b1(1) Cons.prems(2) by (simp add: xmCallback_def try_program_def payload_def soh_frame_def)
  from port_put_chip [OF assms(2), of XM_FRAME_ACK b1 c0] obtain h where
    h: "port_put hw [XM_FRAME_ACK] b1 = Some (b1\<lparr>hist := h\<rparr>)" "chip_of c0 h = chip_of c0 (hist b1)"
      "tx_bytes h = tx_bytes (hist b1) @ [XM_FRAME_ACK]" by blast
  from Cons.IH [OF buffered_hist [OF b1(2) h(2)], of XM_FRAME_NAK] Cons.prems(2,3) obtain b' where
    "accept (xmCallback hw) (port_put hw) XM_FRAME_NAK ps ae (b1\<lparr>hist := h\<rparr>) = Some b'"
    "buffered c0 cs0 r0 b' (dat @ concat (map (payload \<circ> packet_bytes) (p # ps)))"
    "tx_bytes (hist b') = tx_bytes h @ replies XM_FRAME_NAK ps ae" by (auto simp: comp_def)
  with h0(1,3) cb h(1,3) tx1 p show ?case by (simp add: Let_def comp_def)
qed

lemma buffered_start:
  assumes "length (nand_buff b) = PAGE_SIZE" "nand_address b = of_nat (PAGE_SIZE * r0)" "PAGE_PER_BLK dvd r0"
  shows "buffered c0 (flash c0 b) r0 (b\<lparr>buff_offset := 0\<rparr>) []"
  using assms by (simp add: buffered_def fresh_def)

lemma buffered_finish:
  assumes "nand_device hw c0" "buffered c0 cs0 r0 b dat" "r0 + length dat div PAGE_SIZE < 2 ^ 19"
  shows "\<exists>b'. program_tonand hw b = Some b' \<and> (\<forall>r < r0. flash c0 b' r = cs0 r) \<and>
    (\<forall>i < length dat. flash c0 b' (r0 + i div PAGE_SIZE) (i mod PAGE_SIZE) = dat ! i)"
proof -
  define k j where "k = length dat div PAGE_SIZE" and "j = length dat mod PAGE_SIZE"
  have dl: "length dat = PAGE_SIZE * k + j" "j < PAGE_SIZE" by (simp_all add: k_def j_def)
  from assms(2) have inv: "length (nand_buff b) = PAGE_SIZE"
    "nand_address b = of_nat (PAGE_SIZE * (r0 + k))" "take j (nand_buff b) = drop (PAGE_SIZE * k) dat"
    "\<And>p. p < k \<Longrightarrow> page_data (flash c0 b) (r0 + p) = take PAGE_SIZE (drop (PAGE_SIZE * p) dat)"
    "\<And>r. r < r0 \<Longrightarrow> flash c0 b r = cs0 r" "fresh (flash c0 b) (r0 + k)"
    unfolding buffered_def Let_def k_def [symmetric] j_def [symmetric] by blast+
  from program_tonand_page [OF assms(1) _ inv(2,1,6)] assms(3) obtain h' where
    h': "program_tonand hw b = Some (b\<lparr>hist := h', nand_address := of_nat (PAGE_SIZE * Suc (r0 + k))\<rparr>)"
      "page_data (cells (chip_of c0 h')) (r0 + k) = nand_buff b"
      "\<And>r. r < r0 + k \<Longrightarrow> cells (chip_of c0 h') r = flash c0 b r"
    unfolding k_def by blast
  have "cells (chip_of c0 h') (r0 + i div PAGE_SIZE) (i mod PAGE_SIZE) = dat ! i" if i: "i < length dat" for i
  proof -
    let ?p = "i div PAGE_SIZE" and ?c = "i mod PAGE_SIZE"
    have ic: "i = PAGE_SIZE * ?p + ?c" "?c < PAGE_SIZE" by simp_all
    have "?p \<le> k" using i unfolding k_def by (intro div_le_mono) simp
    moreover have "cells (chip_of c0 h') (r0 + ?p) ?c = page_data (cells (chip_of c0 h')) (r0 + ?p) ! ?c"
      using ic(2) by (simp del: upt_rec_numeral)
    moreover have "page_data (cells (chip_of c0 h')) (r0 + ?p) ! ?c = dat ! i" if "?p < k"
    proof -
      have "page_data (cells (chip_of c0 h')) (r0 + ?p) = take PAGE_SIZE (drop (PAGE_SIZE * ?p) dat)"
        using that inv(4) h'(3) by simp
      then have "page_data (cells (chip_of c0 h')) (r0 + ?p) ! ?c = take PAGE_SIZE (drop (PAGE_SIZE * ?p) dat) ! ?c"
        by (rule arg_cong)
      also have "\<dots> = dat ! (PAGE_SIZE * ?p + ?c)" using i ic by simp
      finally show ?thesis by (simp only: ic(1) [symmetric])
    qed
    moreover have "page_data (cells (chip_of c0 h')) (r0 + ?p) ! ?c = dat ! i" if "?p = k"
    proof -
      have cj: "?c < j" using that i ic dl by linarith
      have "nand_buff b ! ?c = take j (nand_buff b) ! ?c" using cj by simp
      also have "\<dots> = dat ! (PAGE_SIZE * k + ?c)" using inv(3) i ic that by simp
      finally show ?thesis using h'(2) that ic(1) by metis
    qed
    ultimately show ?thesis by (metis le_neq_implies_less)
  qed
  with h' inv(5) show ?thesis by auto
qed

subsection \<open>A whole download\<close>

lemma session_soh: "session n t ps ae es \<Longrightarrow> p \<in> set ps \<Longrightarrow> soh_frame (packet_bytes p)"
  by (induction n t ps ae es rule: session.induct) auto

lemma download_init:
  assumes "tx_drains hw" "length (frame x) = XMODEM_SOH_FRAME_SIZE"
  shows "\<exists>x' h. doXmodemDownloadInit hw base x b = Some (x', b\<lparr>hist := h, nand_address := base\<rparr>) \<and>
    linked (xmPutData hw) xmGetData (xmCallback hw) x' \<and> xmState x' = XMSTA_ENTRY \<and>
    chip_of c0 h = chip_of c0 (hist b)"
proof -
  let ?fmt = "bytes_of (''please send your file: '' @ [CHR 0x0A])"
  have "render ?fmt [] = Some ?fmt" by (simp add: bytes_of_def)
  from emits_chip [OF emits_uart_printf [OF assms(1) this], where h = "hist b" and ?c0.0 = c0]
  obtain h where "uart_printf hw ?fmt [] (hist b) = Some h" "chip_of c0 h = chip_of c0 (hist b)" by blast
  with assms(2) show ?thesis
    by (auto simp: doXmodemDownloadInit_def printf_def xmInit_def xmStart_def linked_def)
qed

lemma download_on_flash:
  assumes "nand_device hw c0" "tx_drains hw"
    and "length (frame x) = XMODEM_SOH_FRAME_SIZE" "length (nand_buff b) = PAGE_SIZE"
    and "length (uart_buf b) = 128" "buf_len b = 0"
    and "unat base = BLOCK_SIZE * k" "session 101 0 ps ae es" "ps \<noteq> []"
    and "dat = concat (map (payload \<circ> packet_bytes) ps)"
    and "unat base div PAGE_SIZE + length dat div PAGE_SIZE < 2 ^ 19"
  shows "\<exists>x1 b1 x2 b2. doXmodemDownloadInit hw base x b = Some (x1, b1) \<and>
    turns uart_buff ((None, t0) # session_turns ps ae es @ [(Some XM_FRAME_EOT, t1), (None, t2)]) x1 b1 = Some (x2, b2) \<and>
    xmState x2 = XMSTA_STOP \<and> tx_bytes (hist b2) = tx_bytes (hist b1) @ replies XM_FRAME_NCG ps ae \<and>
    (\<forall>i < length dat. flash c0 b2 ((unat base + i) div PAGE_SIZE) (i mod PAGE_SIZE) = dat ! i) \<and>
    (\<forall>r < unat base div PAGE_SIZE. flash c0 b2 r = flash c0 b r)"
proof -
  define r0 where "r0 = PAGE_PER_BLK * k"
  have r0: "unat base = PAGE_SIZE * r0" "base = of_nat (PAGE_SIZE * r0)" "unat base div PAGE_SIZE = r0"
    using assms(7) of_nat_unat [of base, where ?'a = u32] by (simp_all add: r0_def)
  from download_init [OF assms(2,3), of base b c0] obtain x1 h1 where
    init: "doXmodemDownloadInit hw base x b = Some (x1, b\<lparr>hist := h1, nand_address := base\<rparr>)"
      "linked (xmPutData hw) xmGetData (xmCallback hw) x1" "xmState x1 = XMSTA_ENTRY"
      "chip_of c0 h1 = chip_of c0 (hist b)" by blast
  let ?b1 = "b\<lparr>hist := h1, nand_address := base\<rparr>"
  let ?v0 = "(port_view ?b1)\<lparr>buff_offset := 0\<rparr>"
  have ok: "port_ok ?b1" "port_pending ?b1 = []"
    using assms(5,6) by (simp_all add: port_ok_def port_pending_def)
  have "buffered c0 (flash c0 (port_view ?b1)) r0 ?v0 []"
    by (rule buffered_start) (simp_all add: port_view_def assms(4) r0(2) r0_def)
  then have start: "buffered c0 (flash c0 b) r0 ?v0 []" by (simp add: port_view_def init(4))
  have good: "\<forall>p \<in> set ps. soh_frame (packet_bytes p)" using assms(8) by (auto dest: session_soh)
  from accept_buffered [OF assms(1,2) start good, of XM_FRAME_NCG ae] assms(10,11) r0(3) obtain v1 where
    v1: "accept (xmCallback hw) (port_put hw) XM_FRAME_NCG ps ae ?v0 = Some v1" "buffered c0 (flash c0 b) r0 v1 dat"
      "tx_bytes (hist v1) = tx_bytes h1 @ replies XM_FRAME_NCG ps ae" by (auto simp: port_view_def)
  from buffered_finish [OF assms(1) v1(2)] assms(11) r0(3) obtain v2 where
    v2: "program_tonand hw v1 = Some v2" "\<forall>r < r0. flash c0 v2 r = flash c0 b r"
      "\<forall>i < length dat. flash c0 v2 (r0 + i div PAGE_SIZE) (i mod PAGE_SIZE) = dat ! i" by auto
  have "xmCallback hw XMEVT_ENTRY 0 None 0 (port_view ?b1) = Some ?v0"
    "xmCallback hw XMEVT_EOT 0 None 0 v1 = Some v2" using v2(1) by (simp_all add: xmCallback_def try_program_def)
  from port.transfer [OF init(2) ok init(3) this(1) assms(8,9) v1(1) this(2), of t0 t1 t2] obtain x2 b2 where
    fin: "turns uart_buff ((None, t0) # session_turns ps ae es @ [(Some XM_FRAME_EOT, t1), (None, t2)]) x1 ?b1 =
      Some (x2, b2)" "xmState x2 = XMSTA_STOP" "port_view b2 = v2" by blast
  from fin(3) have h2: "hist b2 = hist v2" by (auto simp: port_view_def)
  moreover have "(unat base + i) div PAGE_SIZE = r0 + i div PAGE_SIZE" for i using r0(1) by simp
  moreover have "tx_bytes (hist b2) = tx_bytes (hist ?b1) @ replies XM_FRAME_NCG ps ae"
    using tx_bytes_program [OF v2(1)] v1(3) h2 by simp
  ultimately show ?thesis using init(1) fin(1,2) v2(2,3) r0(3) by auto
qed

text \<open>
  C2. A download programs the flash and answers the sender. The sender may let up to 101 timeouts of the handshake pass before the first packet and up
  to 51 before every other one and before it ends the transmission: each of these attempts is silent or delivers at most one frame that is
  incomplete or has an error, and the next attempt starts after the timeout. The bytes of a packet that is received arrive in turns with any idle turns
  in between, each less than a second after the last timeout or packet (\<open>session\<close>). Then the receiver stops; it has sent one 'C' per timeout of
  the handshake, one NAK per later timeout and one ACK per packet; every byte of the file is at its place on the flash, counted from the
  block-aligned base address, and the pages below the base address are untouched. The chip follows its data sheet, the UART accepts what is
  sent, and the buffers have their declared sizes, the one of received bytes being empty at the start.
\<close>

theorem download_programs_flash:
  assumes "nand_device hw c0" "tx_drains hw"
    and "length (frame x) = XMODEM_SOH_FRAME_SIZE" "length (nand_buff b) = PAGE_SIZE"
    and "length (uart_buf b) = 128" "buf_len b = 0"
    and "unat base = BLOCK_SIZE * k" "session 101 0 ps ae es" "ps \<noteq> []"
    and "dat = concat (map (payload \<circ> packet_bytes) ps)"
    and "unat base div PAGE_SIZE + length dat div PAGE_SIZE < 2 ^ 19"
  shows "\<exists>x1 b1 x2 b2. doXmodemDownloadInit hw base x b = Some (x1, b1) \<and>
    turns uart_buff ((None, t0) # session_turns ps ae es @ [(Some XM_FRAME_EOT, t1), (None, t2)]) x1 b1 = Some (x2, b2) \<and>
    xmState x2 = XMSTA_STOP \<and> tx_bytes (hist b2) = tx_bytes (hist b1) @ replies XM_FRAME_NCG ps ae \<and>
    (\<forall>i < length dat. flash c0 b2 ((unat base + i) div PAGE_SIZE) (i mod PAGE_SIZE) = dat ! i) \<and>
    (\<forall>r < unat base div PAGE_SIZE. flash c0 b2 r = flash c0 b r)"
  by (rule download_on_flash [OF assms])

text \<open>A board whose transmitter is always ready, with a chip behind the controller, for witnesses.\<close>

definition spl_hw :: "chip \<Rightarrow> hw" where
  "spl_hw c0 = (nand_hw c0)\<lparr>mmio := (\<lambda>h a. if a = UTRSTAT2 then 4 else mmio (nand_hw c0) h a)\<rparr>"

lemma spl_hw_drains: "tx_drains (spl_hw c0)"
  by (simp add: tx_drains_def responsive_def spl_hw_def)

lemma spl_hw_idle_reads:
  "a \<noteq> UTRSTAT2 \<Longrightarrow> idle_reads (spl_hw c0) a n h = idle_reads (nand_hw c0) a n h"
  by (induction n arbitrary: h) (simp_all add: rd_def spl_hw_def)

lemma spl_hw_device: "nand_device (spl_hw c0) c0"
  using nand_hw_device [of c0]
  by (simp add: nand_device_def responsive_def spl_hw_idle_reads plain_reg_def) (simp add: spl_hw_def)

text \<open>A packet of zeros, all bytes at one time, after given failed attempts; and an attempt that is cut off after three bytes.\<close>

definition blank_packet :: "attempt list \<Rightarrow> u32 \<Rightarrow> packet" where
  "blank_packet as t = (as, map (\<lambda>c. (Some c, t)) (butlast (blank_frame 1)), 0, t)"

definition cut_off :: "u32 \<Rightarrow> u32 \<Rightarrow> attempt" where
  "cut_off t u = ([(Some XM_FRAME_SOH, t), (Some 1, t), (Some 0xFE, t)], (None, u))"

lemma received_bytes: "received (map (\<lambda>c. (Some c, t)) cs) = cs"
  by (induction cs) simp_all

lemma blank_packet_bytes: "packet_bytes (blank_packet as t) = blank_frame 1"
proof -
  have "last (blank_frame 1) = 0" "blank_frame 1 \<noteq> []" by (simp_all add: blank_frame_def)
  then show ?thesis
    using append_butlast_last_id [of "blank_frame 1"] by (simp add: blank_packet_def received_bytes)
qed

lemma punctual_at: "int_sub t t0 = Some d \<Longrightarrow> d < XM_SOH_RECV_TIMEOUT \<Longrightarrow> punctual t0 (map (\<lambda>c. (Some c, t)) cs)"
  by (auto simp: punctual_def)

lemma blank_packet_session:
  assumes "int_sub t (last_time t0 as) = Some d" "d < XM_SOH_RECV_TIMEOUT"
  shows "session n t0 (blank_packet as t # ps) ae es \<longleftrightarrow> length as \<le> n \<and> attempts t0 as \<and> session 51 t ps ae es"
  using soh_blank_frame [of 1] blank_packet_bytes [of as t] punctual_at [OF assms] by (simp add: blank_packet_def)

lemma broken_few: "length bs < XMODEM_SOH_FRAME_SIZE \<Longrightarrow> (bs \<noteq> [] \<Longrightarrow> hd bs \<notin> {XM_FRAME_EOT, XM_FRAME_CAN}) \<Longrightarrow> broken bs"
  by (auto simp: broken_def soh_frame_def)

lemma cut_off_attempt:
  assumes "int_sub t t0 = Some d" "d < XM_SOH_RECV_TIMEOUT" "late t0 u"
  shows "attempts t0 (cut_off t u # as) \<longleftrightarrow> attempts u as"
  using assms broken_few [of "[XM_FRAME_SOH, 1, 0xFE]"] by (simp add: cut_off_def)

lemma silent_attempt: "late t0 u \<Longrightarrow> attempts t0 (([], (None, u)) # as) \<longleftrightarrow> attempts u as"
  using broken_few [of "[]"] by simp

definition blank_board :: board where
  "blank_board = \<lparr>nand_buff = replicate PAGE_SIZE 0x55, buff_offset = 7, nand_address = 0,
     uart_buf = replicate 128 0, buf_len = 0, hist = []\<rparr>"

definition blank_xmodem :: "board XMODEM" where
  "blank_xmodem = \<lparr>putData = None, getData = None, xmCallback = None, xmState = XMSTA_STOP,
     timestamp_ncg_sent_prev = 0, ncg_send_retry_times = 0, timestamp_soh_recv_prev = 0,
     soh_nak_retry_times = 0, frame_offset = 0, frame = replicate XMODEM_SOH_FRAME_SIZE 0\<rparr>"

abbreviation blank_chip :: chip where
  "blank_chip \<equiv> at_rest CIdle (\<lambda>_ _. 0xFF)"

theorem download_programs_flash_witness:
  "\<exists>x1 b1 x2 b2. doXmodemDownloadInit (spl_hw blank_chip) 0x20000 blank_xmodem blank_board = Some (x1, b1) \<and>
    turns uart_buff ((None, 900) # session_turns [blank_packet [([], (None, 1000)), cut_off 1500 2000] 2100, blank_packet [cut_off 2200 3100] 3200]
      [([], (None, 4200))] [(None, 4300)] @ [(Some XM_FRAME_EOT, 4400), (None, 4500)]) x1 b1 = Some (x2, b2) \<and>
    xmState x2 = XMSTA_STOP \<and> flash blank_chip b2 64 5 = 0 \<and>
    tx_bytes (hist b2) = tx_bytes (hist b1) @
      [XM_FRAME_NCG, XM_FRAME_NCG, XM_FRAME_ACK, XM_FRAME_NAK, XM_FRAME_ACK, XM_FRAME_NAK]"
proof -
  let ?ps = "[blank_packet [([], (None, 1000)), cut_off 1500 2000] 2100, blank_packet [cut_off 2200 3100] 3200]"
  let ?ae = "[([], (None, 4200))]" and ?es = "[(None, 4300)]"
  have late: "late 0 1000" "late 1000 2000" "late 2100 3100" "late 3200 4200" by (simp_all add: late_def int_sub_def)
  have sub: "int_sub 1500 1000 = Some 500" "int_sub 2100 2000 = Some 100" "int_sub 2200 2100 = Some 100" "int_sub 3200 3100 = Some 100"
      "int_sub 4300 4200 = Some 100"
    by (simp_all add: int_sub_def)
  have lt: "last_time t (cut_off a u # as) = last_time u as" for t a u as by (simp add: cut_off_def)
  have se: "session 101 0 ?ps ?ae ?es"
    by (simp add: blank_packet_session [where d = 100] silent_attempt cut_off_attempt [where d = 500] cut_off_attempt [where d = 100]
        late sub lt del: attempts.simps(2))
  have p: "length (payload (blank_frame 1)) = 128" "payload (blank_frame 1) ! 5 = 0"
    by (simp_all add: payload_def blank_frame_def nth_append nth_Cons')
  have "replies XM_FRAME_NCG ?ps ?ae = [XM_FRAME_NCG, XM_FRAME_NCG, XM_FRAME_ACK, XM_FRAME_NAK, XM_FRAME_ACK, XM_FRAME_NAK]"
    by (simp add: blank_packet_def)
  with download_programs_flash [OF spl_hw_device spl_hw_drains, of blank_xmodem blank_board "0x20000" 1 ?ps ?ae ?es
      "payload (blank_frame 1) @ payload (blank_frame 1)" blank_chip 900 4400 4500] se p
  show ?thesis
    by (fastforce simp: blank_xmodem_def blank_board_def blank_packet_bytes nth_append dest: spec [of _ 5])
qed

text \<open>
  C18. When nothing is sent, a download ends, and not too early. The clock is read at least once a second, any number of times in
  between, and stays below 2^31 ms. Once 206 seconds have passed since the first call after the start, the receiver has sent 'C' exactly 101 times and has stopped;
  as long as the clock shows less than 102 seconds it still waits for the first packet. The UART accepts what is sent, and the buffers have their
  declared sizes, the one of received bytes being empty at the start.
\<close>

theorem download_gives_up:
  assumes "tx_drains hw" "length (frame x) = XMODEM_SOH_FRAME_SIZE" "length (uart_buf b) = 128" "buf_len b = 0"
    and "steady t1 ts" "last (t1 # ts) < 2 ^ 31"
  shows "\<exists>x1 b1 x2 b2. doXmodemDownloadInit hw base x b = Some (x1, b1) \<and>
    turns uart_buff ((None, t0) # map (\<lambda>t. (None, of_nat t)) (t1 # ts)) x1 b1 = Some (x2, b2) \<and>
    (t1 + 206000 \<le> last (t1 # ts) \<longrightarrow> xmState x2 = XMSTA_STOP \<and> tx_bytes (hist b2) = tx_bytes (hist b1) @ replicate 101 XM_FRAME_NCG) \<and>
    (last (t1 # ts) < 102000 \<longrightarrow> xmState x2 = XMSTA_WAIT_TRANS)"
proof -
  let ?n = "lapses 0 (t1 # ts)"
  from download_init [OF assms(1,2), of base b] obtain x1 h1 where
    init: "doXmodemDownloadInit hw base x b = Some (x1, b\<lparr>hist := h1, nand_address := base\<rparr>)"
      "linked (xmPutData hw) xmGetData (xmCallback hw) x1" "xmState x1 = XMSTA_ENTRY" by blast
  let ?b1 = "b\<lparr>hist := h1, nand_address := base\<rparr>"
  have ok: "port_ok ?b1" "port_pending ?b1 = []"
    using assms(3,4) by (simp_all add: port_ok_def port_pending_def)
  have "xmCallback hw XMEVT_ENTRY 0 None 0 (port_view ?b1) = Some ((port_view ?b1)\<lparr>buff_offset := 0\<rparr>)"
    by (simp add: xmCallback_def)
  from port.fsm_entry [OF init(2) ok init(3) this, of t0] obtain xa ba where
    a: "xModemFSM t0 x1 ?b1 = Some (XMSTA_WAIT_TRANS, xa, ba)" "linked (xmPutData hw) xmGetData (xmCallback hw) xa"
      "port_ok ba" "port_pending ba = []" "port_view ba = (port_view ?b1)\<lparr>buff_offset := 0\<rparr>" "frame_offset xa = 0"
      "xmState xa = XMSTA_WAIT_TRANS" "timestamp_ncg_sent_prev xa = 0" "ncg_send_retry_times xa = 0" by blast
  have st: "tries xa = of_nat 0" "prev_time xa = of_nat 0" using a(7-9) by (simp_all add: tries_def prev_time_def)
  have total: "\<exists>v'. port_put hw [XM_FRAME_NCG] v = Some v'" for v using port_put_chip [OF assms(1)] by blast
  have range: "\<forall>t \<in> set (t1 # ts). t < 2 ^ 31" using steady_le_last [OF assms(5)] assms(6) by fastforce
  obtain xb bb where b: "turns uart_buff (map (\<lambda>t. (None, of_nat t)) (t1 # ts)) xa ba = Some (xb, bb)"
    "puts (port_put hw) (replicate (min 101 (0 + ?n) - 0) XM_FRAME_NCG) (port_view ba) = Some (port_view bb)"
    "0 + ?n \<le> 101 \<longrightarrow> xmState xb = XMSTA_WAIT_TRANS" "103 \<le> 0 + ?n \<longrightarrow> xmState xb = XMSTA_STOP"
    using port.silent [OF a(2-4,7,6) st(1) _ st(2) _ range total] by auto
  obtain h where h: "puts (port_put hw) (replicate (min 101 ?n) XM_FRAME_NCG) (port_view ba) = Some ((port_view ba)\<lparr>hist := h\<rparr>)"
    "tx_bytes h = tx_bytes (hist (port_view ba)) @ replicate (min 101 ?n) XM_FRAME_NCG"
    using port_puts_chip [OF assms(1)] by blast
  have "port_view bb = (port_view ba)\<lparr>hist := h\<rparr>" using b(2) h(1) by simp
  then have "hist (port_view bb) = h" by simp
  then have "hist bb = h" by (simp add: port_view_def)
  moreover have "hist (port_view ba) = h1" unfolding a(5) by (simp add: port_view_def)
  ultimately have tx: "tx_bytes (hist bb) = tx_bytes (hist ?b1) @ replicate (min 101 ?n) XM_FRAME_NCG"
    using h(2) by simp
  have more: "103 \<le> ?n" if "t1 + 206000 \<le> last (t1 # ts)" using that lapses_first_least [OF assms(5)] by linarith
  have less: "?n \<le> 101" if "last (t1 # ts) < 102000" using that lapses_first_most [OF assms(5)] by linarith
  show ?thesis
    using init(1) a(1) b(1) b(3) b(4) tx more less by (auto simp: min_absorb1)
qed

lemma steady_half_seconds: "steady (500 * k) (map (\<lambda>i. 500 * i) [Suc k..<Suc (k + n)])"
proof (induction n arbitrary: k)
  case (Suc n)
  from Suc [of "Suc k"] show ?case by (simp add: upt_conv_Cons del: upt_Suc)
qed simp

theorem download_gives_up_witness:
  "\<exists>x1 b1 x2 b2. doXmodemDownloadInit (spl_hw blank_chip) 0 blank_xmodem blank_board = Some (x1, b1) \<and>
    turns uart_buff ((None, 0) # map (\<lambda>t. (None, of_nat t)) (500 # map (\<lambda>i. 500 * i) [2..<2 + 500])) x1 b1 = Some (x2, b2) \<and>
    xmState x2 = XMSTA_STOP \<and> tx_bytes (hist b2) = tx_bytes (hist b1) @ replicate 101 XM_FRAME_NCG"
proof -
  let ?ts = "map (\<lambda>i. 500 * i) [2..<2 + 500] :: nat list"
  have st: "steady 500 ?ts" using steady_half_seconds [of 1 500] by (simp add: numeral_2_eq_2 del: upt_rec_numeral upt_Suc)
  have l: "last (500 # ?ts) = 250500" by (simp add: last_map del: upt_rec_numeral)
  show ?thesis
    using download_gives_up [OF spl_hw_drains _ _ _ st, of blank_xmodem blank_board blank_chip 0 0]
    unfolding l by (simp add: blank_xmodem_def blank_board_def del: upt_rec_numeral)
qed

text \<open>
  A cancel byte from the sender does not end a running transfer: the receiver reads it, reports it
  to the callback, which does nothing, and stays in the transfer state.
\<close>

theorem download_ignores_cancel:
  assumes "linked (xmPutData hw) xmGetData (xmCallback hw) x" "xmState x = XMSTA_TRANSMIT" "frame_offset x = 0"
    and "length (uart_buf b) = 128" "buf_len b = 0"
    and "int_sub t (timestamp_soh_recv_prev x) = Some d" "d < XM_SOH_RECV_TIMEOUT"
  shows "\<exists>x' b'. xModemFSM t x (uart_buff XM_FRAME_CAN b) = Some (XMSTA_TRANSMIT, x', b') \<and>
    xmState x' = XMSTA_TRANSMIT \<and> hist b' = hist b"
proof -
  have ok: "port_ok b" "port_pending b = []" using assms(4,5) by (simp_all add: port_ok_def port_pending_def)
  have "xmCallback hw XMEVT_CAN 0 None 0 s = Some s" for s by (simp add: xmCallback_def)
  from port.fsm_can [OF assms(1) port.recv_ok [OF ok(1)] assms(2,3) port.recv_pending [OF ok] assms(6,7) this]
  obtain b' where b': "port_view b' = port_view (uart_buff XM_FRAME_CAN b)"
    "xModemFSM t x (uart_buff XM_FRAME_CAN b) = Some (XMSTA_TRANSMIT, (filled x [XM_FRAME_CAN])\<lparr>frame_offset := 0\<rparr>, b')"
    by blast
  from b'(1) have "hist (port_view b') = hist (port_view (uart_buff XM_FRAME_CAN b))" by (rule arg_cong)
  then have "hist b' = hist b" by (simp add: port_view_def uart_buff_def)
  then show ?thesis using b'(2) assms(2) by auto
qed

theorem download_ignores_cancel_witness:
  "\<exists>x' b'. xModemFSM 20 (blank_xmodem\<lparr>putData := Some (xmPutData (spl_hw blank_chip)), getData := Some xmGetData,
      xmCallback := Some (xmCallback (spl_hw blank_chip)), xmState := XMSTA_TRANSMIT\<rparr>)
      (uart_buff XM_FRAME_CAN blank_board) = Some (XMSTA_TRANSMIT, x', b') \<and> xmState x' = XMSTA_TRANSMIT"
  using download_ignores_cancel [of "spl_hw blank_chip" "blank_xmodem\<lparr>putData := Some (xmPutData (spl_hw blank_chip)),
      getData := Some xmGetData, xmCallback := Some (xmCallback (spl_hw blank_chip)), xmState := XMSTA_TRANSMIT\<rparr>"
      blank_board 20 20]
  by (auto simp: linked_def blank_xmodem_def blank_board_def int_sub_def Let_def)

text \<open>
  C19. A packet whose check code is wrong stays in the frame buffer until the timeout; a byte that
  arrives before it is stored behind the end of the buffer, so the turn has no defined result.
\<close>

theorem download_overruns_frame:
  assumes "linked (xmPutData hw) xmGetData (xmCallback hw) x" "receiving x" "frame_offset x = 0"
    and "length (uart_buf b) = 128" "buf_len b = 0"
    and "received ts @ [c] = fr" "length fr = XMODEM_SOH_FRAME_SIZE" "fr ! IDX_FRAME = XM_FRAME_SOH" "\<not> soh_frame fr"
    and "punctual (prev_time x) (ts @ [(Some c, t)])"
  shows "turns uart_buff (ts @ [(Some c, t), (Some c', t')]) x b = None"
  by (rule port.turns_overrun [OF assms(1) _ _ assms(2,3,6-10)])
    (use assms(4,5) in \<open>simp_all add: port_ok_def port_pending_def\<close>)

theorem download_overruns_frame_witness:
  "turns uart_buff (map (\<lambda>c. (Some c, 10)) (XM_FRAME_SOH # replicate 131 0) @ [(Some 0, 10), (Some 0, 10)])
     (blank_xmodem\<lparr>putData := Some (xmPutData (spl_hw blank_chip)), getData := Some xmGetData,
      xmCallback := Some (xmCallback (spl_hw blank_chip)), xmState := XMSTA_WAIT_TRANS\<rparr>) blank_board = None"
proof (rule download_overruns_frame [where fr = "XM_FRAME_SOH # replicate 132 0"])
  have "replicate 132 (0 :: u8) ! 0 = 0" "replicate 132 (0 :: u8) ! 1 = 0" by (simp_all only: nth_replicate)
  then show "\<not> soh_frame (XM_FRAME_SOH # replicate 132 0)" by (simp add: soh_frame_def)
  show "punctual (prev_time (blank_xmodem\<lparr>putData := Some (xmPutData (spl_hw blank_chip)), getData := Some xmGetData,
      xmCallback := Some (xmCallback (spl_hw blank_chip)), xmState := XMSTA_WAIT_TRANS\<rparr>))
      (map (\<lambda>c. (Some c, 10)) (XM_FRAME_SOH # replicate 131 0) @ [(Some 0, 10)])"
    by (auto simp: punctual_def int_sub_def Let_def prev_time_def blank_xmodem_def)
  show "received (map (\<lambda>c. (Some c, 10)) (XM_FRAME_SOH # replicate 131 0)) @ [0] = XM_FRAME_SOH # replicate 132 0"
    unfolding received_bytes
    using replicate_append_same [of 131 "0 :: u8"] replicate_Suc [of 131 "0 :: u8"] by simp
qed (simp_all add: linked_def receiving_def blank_xmodem_def blank_board_def)

end
