(* ===== verification/Spl_Boot.thy ===== *)
theory Spl_Boot
  imports Spl_Download
begin

text \<open>
  Starting the second stage: the copy from the flash to memory, which closes the path from the sender
  of a file to the code that runs, and the boot menu as a transition system.
\<close>

unbundle bit_operations_syntax

subsection \<open>Memory\<close>

lemma ram_store_eq:
  "length bs \<le> 2 ^ 32 \<Longrightarrow>
   ram_store a bs m x = (if unat (x - a) < length bs then bs ! unat (x - a) else m x)"
proof (induction bs arbitrary: a m)
  case (Cons b bs)
  show ?case
  proof (cases "x = a")
    case True
    have "unat (a - (a + 1)) = 2 ^ 32 - 1" by (simp add: unsigned_minus_1_eq_mask mask_eq_exp_minus_1)
    with True Cons show ?thesis by simp
  next
    case False
    then have "x - a \<noteq> 0" by simp
    then have "unat (x - a) = Suc (unat (x - (a + 1)))"
      using unat_minus_one [of "x - a"] by (simp add: diff_diff_eq word_eq_0_unat)
    with False Cons show ?thesis by simp
  qed
qed simp

text \<open>The page reader in the ROM returns what is on the flash, without errors.\<close>

definition rom_reads :: "hw \<Rightarrow> chip \<Rightarrow> bool" where
  "rom_reads hw c0 \<longleftrightarrow> (\<forall>h b p. unat p < PAGE_PER_BLK \<longrightarrow>
     irom hw h b p = (0, page_data (cells (chip_of c0 h)) (unat b * PAGE_PER_BLK + unat p)))"

lemma NF8_ReadPage_page:
  assumes "rom_reads hw c0" "q < 2 ^ 19"
  shows "\<exists>h'. NF8_ReadPage_8ECC hw (of_nat (PAGE_SIZE * q)) buf h = (0, page_data (cells (chip_of c0 h)) q, h') \<and>
    chip_of c0 h' = chip_of c0 h"
proof -
  let ?a = "of_nat (PAGE_SIZE * q) :: u32"
  note adr = page_address [OF assms(2) refl]
  let ?page = "?a div of_nat PAGE_SIZE"
  have "unat ?page = q" using adr(1) by (simp add: unat_div)
  then have u: "unat (?page div of_nat PAGE_PER_BLK) = q div PAGE_PER_BLK" "unat (?page mod of_nat PAGE_PER_BLK) = q mod PAGE_PER_BLK"
    by (simp_all add: unat_div unat_mod)
  then have "irom hw h (?page div of_nat PAGE_PER_BLK) (?page mod of_nat PAGE_PER_BLK) = (0, page_data (cells (chip_of c0 h)) q)"
    using assms(1) by (simp add: rom_reads_def del: upt_rec_numeral of_nat_mult)
  with adr(3) show ?thesis
    by (simp add: NF8_ReadPage_8ECC_def Let_def del: upt_rec_numeral of_nat_mult)
qed

lemma unat_sub_page:
  "unat (w - 2048) = (if 2048 \<le> unat w then unat w - 2048 else unat w + 2 ^ 32 - 2048)" for w :: u32
  using unat_sub_if' [of w 2048] by (simp add: word_le_nat_alt)

lemma copybl2_loop_copies:
  assumes "rom_reads hw c0"
  shows "n \<le> 2 ^ 19 \<Longrightarrow> q + n \<le> 2 ^ 19 \<Longrightarrow>
    \<exists>m' h'. copybl2_loop hw (of_nat (PAGE_SIZE * n)) (of_nat (PAGE_SIZE * q)) a m h = (m', h') \<and>
      chip_of c0 h' = chip_of c0 h \<and>
      (\<forall>x. m' x = (if unat (x - a) < PAGE_SIZE * n
        then cells (chip_of c0 h) (q + unat (x - a) div PAGE_SIZE) (unat (x - a) mod PAGE_SIZE) else m x))"
proof (induction n arbitrary: q a m h)
  case 0
  then show ?case by (simp add: copybl2_loop.simps)
next
  case (Suc n)
  let ?cs = "cells (chip_of c0 h)" and ?m = "ram_store a (page_data (cells (chip_of c0 h)) q) m"
  from NF8_ReadPage_page [OF assms, of q "ram_bytes a PAGE_SIZE m" h] Suc.prems(2) obtain h1 where
    rd: "NF8_ReadPage_8ECC hw (of_nat (PAGE_SIZE * q)) (ram_bytes a PAGE_SIZE m) h = (0, page_data ?cs q, h1)"
      "chip_of c0 h1 = chip_of c0 h" by auto
  have pos: "sint (of_nat (PAGE_SIZE * Suc n) :: u32) > 0"
    using Suc.prems(1) sint_of_nat_small [of "PAGE_SIZE * Suc n"] by simp
  have arg: "of_nat (PAGE_SIZE * Suc n) - of_nat PAGE_SIZE = (of_nat (PAGE_SIZE * n) :: u32)"
      "of_nat (PAGE_SIZE * q) + of_nat PAGE_SIZE = (of_nat (PAGE_SIZE * Suc q) :: u32)" by simp_all
  have step: "copybl2_loop hw (of_nat (PAGE_SIZE * Suc n)) (of_nat (PAGE_SIZE * q)) a m h =
      copybl2_loop hw (of_nat (PAGE_SIZE * n)) (of_nat (PAGE_SIZE * Suc q)) (a + of_nat PAGE_SIZE) ?m h1"
    by (subst copybl2_loop.simps) (simp only: if_P [OF pos] rd(1) Let_def prod.case arg)
  from Suc.IH [of "Suc q" "a + of_nat PAGE_SIZE" ?m h1] Suc.prems obtain m' h' where
    IH: "copybl2_loop hw (of_nat (PAGE_SIZE * n)) (of_nat (PAGE_SIZE * Suc q)) (a + of_nat PAGE_SIZE) ?m h1 = (m', h')"
      "chip_of c0 h' = chip_of c0 h1"
      "\<And>x. m' x = (if unat (x - (a + of_nat PAGE_SIZE)) < PAGE_SIZE * n
        then cells (chip_of c0 h1) (Suc q + unat (x - (a + of_nat PAGE_SIZE)) div PAGE_SIZE)
          (unat (x - (a + of_nat PAGE_SIZE)) mod PAGE_SIZE) else ?m x)" by auto
  have "m' x = (if unat (x - a) < PAGE_SIZE * Suc n
      then ?cs (q + unat (x - a) div PAGE_SIZE) (unat (x - a) mod PAGE_SIZE) else m x)" for x
  proof -
    have m: "?m x = (if unat (x - a) < PAGE_SIZE then ?cs q (unat (x - a)) else m x)"
      by (subst ram_store_eq) (simp_all del: upt_rec_numeral)
    have u: "unat (x - (a + of_nat PAGE_SIZE)) =
        (if PAGE_SIZE \<le> unat (x - a) then unat (x - a) - PAGE_SIZE else unat (x - a) + 2 ^ 32 - PAGE_SIZE)"
      using unat_sub_page [of "x - a"] by (simp add: diff_diff_eq)
    show ?thesis
    proof (cases "PAGE_SIZE \<le> unat (x - a)")
      case True
      then have "unat (x - a) div PAGE_SIZE = Suc ((unat (x - a) - PAGE_SIZE) div PAGE_SIZE)"
        "unat (x - a) mod PAGE_SIZE = (unat (x - a) - PAGE_SIZE) mod PAGE_SIZE"
        by (simp_all add: le_div_geq le_mod_geq)
      with True u m IH(3) [of x] rd(2) show ?thesis by auto
    next
      case False
      with u m IH(3) [of x] Suc.prems(1) show ?thesis by auto
    qed
  qed
  with step IH(1,2) rd(2) show ?case by auto
qed

lemma printf_emits:
  assumes "tx_drains hw" "render (bytes_of fmt) ap = Some out"
  obtains h where "printf hw fmt ap b = Some (b\<lparr>hist := h\<rparr>)" "chip_of c0 h = chip_of c0 (hist b)"
  using emits_chip [OF emits_uart_printf [OF assms], where h = "hist b" and ?c0.0 = c0]
  by (metis (no_types, lifting) bind.bind_lunit printf_def)

lemma boot_copies:
  assumes "tx_drains hw" "rom_reads hw c0"
  shows "\<exists>m' b'. copybl2ToRamAndRun hw m b = Some (BL2_RAM_ADDR, m', b') \<and>
    (\<forall>i < 262144. m' (BL2_RAM_ADDR + of_nat i) = flash c0 b (8 + i div PAGE_SIZE) (i mod PAGE_SIZE))"
proof -
  let ?fmt = "''size_copy=%d,BL2_nf_addr=0x%X,BL2_ram_addr=0x%X'' @ CRLF"
  let ?ap = "[VInt 262144, VInt 16384, VInt BL2_RAM_ADDR]"
  obtain out where "render (bytes_of ?fmt) ?ap = Some out" by (simp add: bytes_of_def CRLF_def)
  from printf_emits [OF assms(1) this, of b c0] obtain h where
    h: "printf hw ?fmt ?ap b = Some (b\<lparr>hist := h\<rparr>)" "chip_of c0 h = chip_of c0 (hist b)" by blast
  from copybl2_loop_copies [OF assms(2), of 128 8 BL2_RAM_ADDR m h] obtain m' h' where
    c: "copybl2_loop hw 262144 16384 BL2_RAM_ADDR m h = (m', h')"
      "\<And>x. m' x = (if unat (x - BL2_RAM_ADDR) < 262144
        then cells (chip_of c0 h) (8 + unat (x - BL2_RAM_ADDR) div PAGE_SIZE) (unat (x - BL2_RAM_ADDR) mod PAGE_SIZE) else m x)"
    by auto
  have "copybl2ToRamAndRun hw m b = Some (BL2_RAM_ADDR, m', b\<lparr>hist := h'\<rparr>)"
    using h(1) c(1) by (simp add: copybl2ToRamAndRun_def)
  moreover have "m' (BL2_RAM_ADDR + of_nat i) = flash c0 b (8 + i div PAGE_SIZE) (i mod PAGE_SIZE)" if "i < 262144" for i
  proof -
    have "unat (of_nat i :: u32) = i" using that by (simp add: unat_of_nat take_bit_eq_mod)
    with c(2) [of "BL2_RAM_ADDR + of_nat i"] that h(2) show ?thesis by simp
  qed
  ultimately show ?thesis by blast
qed

text \<open>
  C1. What a sender transmits is what runs: after a download to address 0, with up to 101 timeouts of the handshake before the first packet and up to
  51 failed attempts before every other one (\<open>session\<close>, as in the download property), the boot copy passes control to 0x20000000, where memory holds the
  file from its byte 16384 on, up to 256 KiB. The chip follows its data sheet, the ROM reader returns the pages of the flash, the
  UART accepts what is sent, and the buffers have their declared sizes, the one of received bytes being empty at the start.
\<close>

theorem download_then_boot:
  assumes "nand_device hw c0" "tx_drains hw" "rom_reads hw c0"
    and "length (frame x) = XMODEM_SOH_FRAME_SIZE" "length (nand_buff b) = PAGE_SIZE"
    and "length (uart_buf b) = 128" "buf_len b = 0" "session 101 0 ps ae es" "ps \<noteq> []"
    and "dat = concat (map (payload \<circ> packet_bytes) ps)" "length dat div PAGE_SIZE < 2 ^ 19"
  shows "\<exists>x1 b1 x2 b2 m' b3. doXmodemDownloadInit hw BL1_NF_ADDR x b = Some (x1, b1) \<and>
    turns uart_buff ((None, t0) # session_turns ps ae es @ [(Some XM_FRAME_EOT, t1), (None, t2)]) x1 b1 =
      Some (x2, b2) \<and>
    copybl2ToRamAndRun hw m b2 = Some (BL2_RAM_ADDR, m', b3) \<and>
    (\<forall>i < 262144. 16384 + i < length dat \<longrightarrow> m' (BL2_RAM_ADDR + of_nat i) = dat ! (16384 + i))"
proof -
  have start: "\<exists>x1 b1 x2 b2. doXmodemDownloadInit hw BL1_NF_ADDR x b = Some (x1, b1) \<and>
    turns uart_buff ((None, t0) # session_turns ps ae es @ [(Some XM_FRAME_EOT, t1), (None, t2)]) x1 b1 =
      Some (x2, b2) \<and> (\<forall>i < length dat. flash c0 b2 (i div PAGE_SIZE) (i mod PAGE_SIZE) = dat ! i)"
    using download_on_flash [OF assms(1,2,4-7) _ assms(8-10), of BL1_NF_ADDR 0 t0 t1 t2] assms(11) by auto
  then obtain x1 b1 x2 b2 where d: "doXmodemDownloadInit hw BL1_NF_ADDR x b = Some (x1, b1)"
    "turns uart_buff ((None, t0) # session_turns ps ae es @ [(Some XM_FRAME_EOT, t1), (None, t2)]) x1 b1 = Some (x2, b2)"
    "\<And>i. i < length dat \<Longrightarrow> flash c0 b2 (i div PAGE_SIZE) (i mod PAGE_SIZE) = dat ! i" by blast
  from boot_copies [OF assms(2,3), of m b2] obtain m' b3 where
    c: "copybl2ToRamAndRun hw m b2 = Some (BL2_RAM_ADDR, m', b3)"
      "\<And>i. i < 262144 \<Longrightarrow> m' (BL2_RAM_ADDR + of_nat i) = flash c0 b2 (8 + i div PAGE_SIZE) (i mod PAGE_SIZE)" by blast
  have "(16384 + i) div PAGE_SIZE = 8 + i div PAGE_SIZE" "(16384 + i) mod PAGE_SIZE = i mod PAGE_SIZE" for i :: nat
    using mod_mult_self1 [of i 8 PAGE_SIZE] by (simp_all add: add.commute)
  with d(3) c(2) have "\<forall>i < 262144. 16384 + i < length dat \<longrightarrow> m' (BL2_RAM_ADDR + of_nat i) = dat ! (16384 + i)"
    by metis
  with d(1,2) c(1) show ?thesis by blast
qed

lemma spl_hw_rom: "rom_reads (spl_hw c0) c0"
  by (simp add: rom_reads_def spl_hw_def nand_hw_def)

text \<open>A file of 129 packets of zeros, of which the first one follows the handshake.\<close>

definition blank_file :: "packet list" where
  "blank_file = blank_packet [([], (None, 1000))] 1100 # replicate 128 (blank_packet [] 1100)"

lemma blank_file_session: "session 101 0 blank_file [] []"
proof -
  have d: "int_sub 1100 1100 = Some 0" "int_sub 1100 1000 = Some 100" and l: "late 0 1000" by (simp_all add: late_def int_sub_def)
  have "session 51 1100 (replicate n (blank_packet [] 1100)) [] []" for n
    by (induction n) (simp_all add: blank_packet_session [where d = 0] d)
  then show ?thesis
    unfolding blank_file_def by (simp add: blank_packet_session [where d = 100] d silent_attempt l del: attempts.simps(2))
qed

lemma concat_zeros: "concat (replicate n (replicate 128 (0 :: u8))) = replicate (128 * n) 0"
  by (induction n) (simp_all add: replicate_add)

lemma blank_file_data:
  "concat (map (payload \<circ> packet_bytes) blank_file) = replicate (128 * 129) 0"
proof -
  have "payload (blank_frame 1) = replicate 128 0" by (simp add: payload_def blank_frame_def)
  then have "map (payload \<circ> packet_bytes) blank_file = replicate (Suc 128) (replicate 128 0)"
    unfolding blank_file_def replicate_Suc by (simp only: list.map map_replicate comp_apply blank_packet_bytes)
  then show ?thesis by (simp only: concat_zeros) simp
qed

theorem download_then_boot_witness:
  "\<exists>x1 b1 x2 b2 m' b3. doXmodemDownloadInit (spl_hw blank_chip) 0 blank_xmodem blank_board = Some (x1, b1) \<and>
    turns uart_buff ((None, 900) # session_turns blank_file [] [] @ [(Some XM_FRAME_EOT, 1200), (None, 1300)]) x1 b1 = Some (x2, b2) \<and>
    copybl2ToRamAndRun (spl_hw blank_chip) (\<lambda>_. 0x55) b2 = Some (BL2_RAM_ADDR, m', b3) \<and> m' 0x20000007 = 0"
proof -
  define dat :: "u8 list" where "dat = concat (map (payload \<circ> packet_bytes) blank_file)"
  have dat: "length dat = 16512" "dat ! 16391 = 0"
    unfolding dat_def blank_file_data length_replicate by (simp, rule nth_replicate, simp)
  have ne: "blank_file \<noteq> []" by (simp add: blank_file_def)
  have "\<exists>x1 b1 x2 b2 m' b3. doXmodemDownloadInit (spl_hw blank_chip) 0 blank_xmodem blank_board = Some (x1, b1) \<and>
    turns uart_buff ((None, 900) # session_turns blank_file [] [] @ [(Some XM_FRAME_EOT, 1200), (None, 1300)]) x1 b1 = Some (x2, b2) \<and>
    copybl2ToRamAndRun (spl_hw blank_chip) (\<lambda>_. 0x55) b2 = Some (BL2_RAM_ADDR, m', b3) \<and>
    (\<forall>i < 262144. 16384 + i < length dat \<longrightarrow> m' (BL2_RAM_ADDR + of_nat i) = dat ! (16384 + i))"
    by (rule download_then_boot [OF spl_hw_device spl_hw_drains spl_hw_rom _ _ _ _ blank_file_session ne dat_def])
      (simp_all add: blank_xmodem_def blank_board_def dat)
  then obtain x1 b1 x2 b2 m' b3 where r: "doXmodemDownloadInit (spl_hw blank_chip) 0 blank_xmodem blank_board = Some (x1, b1)"
    "turns uart_buff ((None, 900) # session_turns blank_file [] [] @ [(Some XM_FRAME_EOT, 1200), (None, 1300)]) x1 b1 = Some (x2, b2)"
    "copybl2ToRamAndRun (spl_hw blank_chip) (\<lambda>_. 0x55) b2 = Some (BL2_RAM_ADDR, m', b3)"
    "\<forall>i < 262144. 16384 + i < length dat \<longrightarrow> m' (BL2_RAM_ADDR + of_nat i) = dat ! (16384 + i)" by blast
  have "m' 0x20000007 = 0" using r(4) [rule_format, of 7] dat by simp
  then show ?thesis using r(1-3) by blast
qed

subsection \<open>The boot menu\<close>

lemma menu_print_line:
  assumes "tx_drains hw" "0x25 \<notin> set (bytes_of fmt)"
  shows "\<exists>h. printf hw fmt [] b = Some (b\<lparr>hist := h\<rparr>) \<and> chip_of c0 h = chip_of c0 (hist b)"
proof -
  have "render (bytes_of fmt) [] = Some (bytes_of fmt)" using render_append [OF assms(2), of "[]" "[]"] by simp
  from printf_emits [OF assms(1) this] show ?thesis by blast
qed

lemma menu_print_count:
  assumes "tx_drains hw"
  shows "\<exists>h. printf hw ([CHR 0x0D] @ ''Auto boot in %d second...'') [VInt v] b = Some (b\<lparr>hist := h\<rparr>) \<and> chip_of c0 h = chip_of c0 (hist b)"
proof -
  obtain out where "render (bytes_of ([CHR 0x0D] @ ''Auto boot in %d second...'')) [VInt v] = Some out"
    by (simp add: bytes_of_def)
  from printf_emits [OF assms this] show ?thesis by blast
qed

text \<open>Calls of the menu without a key, at given times.\<close>

fun menu_idle :: "hw \<Rightarrow> u32 list \<Rightarrow> spl \<Rightarrow> (spl \<times> u32 option) option" where
  "menu_idle hw [] m = continue m"
| "menu_idle hw (t # ts) m = do {
     (m, entry) \<leftarrow> menu hw t False 0 m;
     case entry of None \<Rightarrow> menu_idle hw ts m | Some a \<Rightarrow> Some (m, Some a)
   }"

fun spaced :: "u32 \<Rightarrow> u32 list \<Rightarrow> bool" where
  "spaced t0 [] \<longleftrightarrow> True"
| "spaced t0 (t # ts) \<longleftrightarrow> t \<noteq> 0 \<and> 1000 \<le> t - t0 \<and> spaced t ts"

lemma auto_boot_countdown:
  assumes "tx_drains hw"
  shows "menu_state m = MENU_AUTO_BOOT \<Longrightarrow> auto_boot_timeout m = of_nat (length ts) \<Longrightarrow> length ts < 2 ^ 31 \<Longrightarrow>
    timestamp_auto_boot m \<noteq> 0 \<Longrightarrow> spaced (timestamp_auto_boot m) ts \<Longrightarrow>
    \<exists>m'. menu_idle hw (ts @ [tz]) m = continue m' \<and> menu_state m' = MENU_BOOT"
proof (induction ts arbitrary: m)
  case Nil
  then show ?case by (simp add: menu_def menu_auto_boot_def)
next
  case (Cons t ts)
  have pos: "\<not> sint (auto_boot_timeout m) \<le> 0"
    using Cons.prems(2,3) sint_of_nat_small [of "length (t # ts)"] by simp
  let ?n = "of_nat (length ts) :: u32"
  have dec: "auto_boot_timeout m - 1 = ?n" using Cons.prems(2) by simp
  obtain h where h: "printf hw ([CHR 0x0D] @ ''Auto boot in %d second...'') [VInt ?n] (brd m) = Some ((brd m)\<lparr>hist := h\<rparr>)"
    using menu_print_count [OF assms] by blast
  let ?m = "m\<lparr>auto_boot_timeout := ?n, timestamp_auto_boot := t, brd := (brd m)\<lparr>hist := h\<rparr>\<rparr>"
  have "menu hw t False 0 m = continue ?m"
    using Cons.prems pos h dec by (simp add: menu_def menu_auto_boot_def)
  moreover from Cons.IH [of ?m] Cons.prems obtain m' where
    "menu_idle hw (ts @ [tz]) ?m = continue m'" "menu_state m' = MENU_BOOT" by auto
  ultimately show ?case by simp
qed

lemma auto_boots:
  assumes "tx_drains hw" "menu_state m = MENU_ENTRY" "t0 \<noteq> 0" "spaced t0 ts" "length ts = 5"
  shows "\<exists>m'. menu_idle hw (te # t0 # ts @ [tz]) m = continue m' \<and> menu_state m' = MENU_BOOT"
proof -
  obtain h where h: "printf hw (''Going to auto boot, press any KEY to cancel!'' @ CRLF) [] (brd m) = Some ((brd m)\<lparr>hist := h\<rparr>)"
    using menu_print_line [OF assms(1), of "''Going to auto boot, press any KEY to cancel!'' @ CRLF"]
    by (auto simp: bytes_of_def CRLF_def)
  let ?m = "m\<lparr>brd := (brd m)\<lparr>hist := h\<rparr>, menu_state := MENU_AUTO_BOOT, timestamp_auto_boot := 0, auto_boot_timeout := 5\<rparr>"
  have e: "menu hw te False 0 m = continue ?m" using assms(2) h by (simp add: menu_def)
  obtain h1 where h1: "printf hw ([CHR 0x0D] @ ''Auto boot in %d second...'') [VInt 5] (brd ?m) = Some ((brd ?m)\<lparr>hist := h1\<rparr>)"
    using menu_print_count [OF assms(1)] by blast
  let ?m1 = "?m\<lparr>timestamp_auto_boot := t0, brd := (brd ?m)\<lparr>hist := h1\<rparr>\<rparr>"
  have "menu hw t0 False 0 ?m = continue ?m1"
    using h1 by (simp add: menu_def menu_auto_boot_def)
  with e auto_boot_countdown [OF assms(1), of ?m1 ts tz] assms(3-5) show ?thesis by simp
qed

text \<open>The boot state starts the second stage, with the contents of the flash.\<close>

lemma menu_boot_runs:
  assumes "tx_drains hw" "rom_reads hw c0"
  shows "\<exists>m'. menu_boot hw m = Some (m', Some BL2_RAM_ADDR) \<and>
    (\<forall>i < 262144. ram m' (BL2_RAM_ADDR + of_nat i) = flash c0 (brd m) (8 + i div PAGE_SIZE) (i mod PAGE_SIZE))"
proof -
  let ?b = "(brd m)\<lparr>hist := led_off hw (hist (brd m))\<rparr>"
  have led: "chip_of c0 (led_off hw (hist (brd m))) = chip_of c0 (hist (brd m))"
    by (simp add: led_off_def chip_of_rmw chip_of_wr Let_def)
  have "0x25 \<notin> set (bytes_of (CRLF @ ''Booting...'' @ CRLF))" by (simp add: bytes_of_def CRLF_def)
  from menu_print_line [OF assms(1) this, of ?b c0] obtain h where
    h: "printf hw (CRLF @ ''Booting...'' @ CRLF) [] ?b = Some (?b\<lparr>hist := h\<rparr>)" "chip_of c0 h = chip_of c0 (hist (brd m))"
    using led by auto
  from boot_copies [OF assms, of "ram m" "?b\<lparr>hist := h\<rparr>"] obtain r b' where
    "copybl2ToRamAndRun hw (ram m) (?b\<lparr>hist := h\<rparr>) = Some (BL2_RAM_ADDR, r, b')"
    "\<forall>i < 262144. r (BL2_RAM_ADDR + of_nat i) = flash c0 (?b\<lparr>hist := h\<rparr>) (8 + i div PAGE_SIZE) (i mod PAGE_SIZE)" by blast
  then show ?thesis using h by (simp add: menu_boot_def)
qed

text \<open>The countdown at arbitrary times: it ends after as many lapsed seconds as it has left, one call later in the boot state.\<close>

lemma auto_boot_idle:
  assumes "tx_drains hw" "rom_reads hw c0"
  shows "menu_state m = MENU_AUTO_BOOT \<Longrightarrow> auto_boot_timeout m = of_nat k \<Longrightarrow> k < 2 ^ 31 \<Longrightarrow>
    timestamp_auto_boot m = of_nat p \<Longrightarrow> 0 < p \<Longrightarrow> steady c ts \<Longrightarrow> p \<le> c \<Longrightarrow> last (c # ts) < 2 ^ 32 \<Longrightarrow>
    (lapses p ts < k \<longrightarrow> (\<exists>m'. menu_idle hw (map of_nat ts) m = continue m' \<and> menu_state m' = MENU_AUTO_BOOT)) \<and>
    (k + 2 \<le> lapses p ts \<longrightarrow> (\<exists>m'. menu_idle hw (map of_nat ts) m = Some (m', Some BL2_RAM_ADDR) \<and>
      (\<forall>i < 262144. ram m' (BL2_RAM_ADDR + of_nat i) = flash c0 (brd m) (8 + i div PAGE_SIZE) (i mod PAGE_SIZE))))"
proof (induction ts arbitrary: m k p c)
  case Nil
  then show ?case by simp
next
  case (Cons t ts)
  have st: "p \<le> t" "steady t ts" "last (t # ts) < 2 ^ 32" using Cons.prems(6-8) by simp_all
  have t: "t < 2 ^ 32" using steady_le_last [OF st(2), of t] st(3) by simp
  have u: "unat (of_nat n :: u32) = n" if "n \<le> t" for n using that t by (simp add: unat_of_nat take_bit_eq_mod)
  have diff: "unat (of_nat t - of_nat p :: u32) = t - p"
    using st(1) u [of t] u [of p] unat_sub_if' [of "of_nat t :: u32" "of_nat p"] by (simp add: word_le_nat_alt)
  have nz: "(of_nat p :: u32) \<noteq> 0" using u [OF st(1)] Cons.prems(5) by (metis unat_0 less_numeral_extra(3))
  have lapse: "1000 \<le> (of_nat t - of_nat p :: u32) \<longleftrightarrow> p + 1000 \<le> t" using diff st(1) by (auto simp: word_le_nat_alt)
  show ?case
  proof (cases "k = 0")
    case True
    let ?m = "m\<lparr>menu_state := MENU_BOOT\<rparr>"
    have b: "menu hw (of_nat t) False 0 m = continue ?m" using Cons.prems(1,2) True by (simp add: menu_def menu_auto_boot_def)
    show ?thesis
    proof (cases ts)
      case Nil
      then show ?thesis using True by simp
    next
      case (Cons t' ts')
      from menu_boot_runs [OF assms, of ?m] obtain m' where
        "menu hw (of_nat t') False 0 ?m = Some (m', Some BL2_RAM_ADDR)"
        "\<forall>i < 262144. ram m' (BL2_RAM_ADDR + of_nat i) = flash c0 (brd m) (8 + i div PAGE_SIZE) (i mod PAGE_SIZE)"
        by (auto simp: menu_def)
      then show ?thesis using b Cons True by simp
    qed
  next
    case False
    then obtain n where n: "k = Suc n" by (cases k) auto
    have pos: "\<not> sint (auto_boot_timeout m) \<le> 0" using Cons.prems(2,3) n sint_of_nat_small [of k] by simp
    show ?thesis
    proof (cases "p + 1000 \<le> t")
      case True
      from menu_print_count [OF assms(1), of "of_nat n" "brd m" c0] obtain h where
        h: "printf hw ([CHR 0x0D] @ ''Auto boot in %d second...'') [VInt (of_nat n)] (brd m) = Some ((brd m)\<lparr>hist := h\<rparr>)"
          "chip_of c0 h = chip_of c0 (hist (brd m))" by blast
      let ?m = "m\<lparr>auto_boot_timeout := of_nat n, timestamp_auto_boot := of_nat t, brd := (brd m)\<lparr>hist := h\<rparr>\<rparr>"
      have step: "menu hw (of_nat t) False 0 m = continue ?m"
        using Cons.prems(1,2,4) pos nz lapse True h(1) n by (simp add: menu_def menu_auto_boot_def)
      have "(lapses t ts < n \<longrightarrow> (\<exists>m'. menu_idle hw (map of_nat ts) ?m = continue m' \<and> menu_state m' = MENU_AUTO_BOOT)) \<and>
        (n + 2 \<le> lapses t ts \<longrightarrow> (\<exists>m'. menu_idle hw (map of_nat ts) ?m = Some (m', Some BL2_RAM_ADDR) \<and>
          (\<forall>i < 262144. ram m' (BL2_RAM_ADDR + of_nat i) = flash c0 (brd ?m) (8 + i div PAGE_SIZE) (i mod PAGE_SIZE))))"
        by (rule Cons.IH [of ?m n t t]) (use Cons.prems(1,3) n True st in simp_all)
      then show ?thesis using step h(2) n True by simp
    next
      case False
      have step: "menu hw (of_nat t) False 0 m = continue m"
        using Cons.prems(1,2,4) pos nz lapse False by (simp add: menu_def menu_auto_boot_def)
      from Cons.IH [OF Cons.prems(1-5) st(2,1,3)] step False show ?thesis by simp
    qed
  qed
qed

text \<open>
  C17. Without a key the loader boots by itself, and not too early. The menu is called at least once a second, any number of times in between, from
  a time that is not 0 and before the clock wraps. Once 14 seconds have passed since the call that starts the countdown, control passes to
  0x20000000, where memory holds the 256 KiB of the flash from byte 16384 on; as long as less than 5 seconds have passed, the menu
  still counts. The UART accepts what is sent and the ROM reader returns the pages of the flash.
\<close>

theorem menu_auto_boots:
  assumes "tx_drains hw" "rom_reads hw c0" "menu_state m = MENU_ENTRY" "0 < t" "steady t ts" "last (t # ts) < 2 ^ 32"
  shows "(t + 14000 \<le> last (t # ts) \<longrightarrow> (\<exists>m'. menu_idle hw (te # map of_nat (t # ts)) m = Some (m', Some BL2_RAM_ADDR) \<and>
      (\<forall>i < 262144. ram m' (BL2_RAM_ADDR + of_nat i) = flash c0 (brd m) (8 + i div PAGE_SIZE) (i mod PAGE_SIZE)))) \<and>
    (last (t # ts) < t + 5000 \<longrightarrow> (\<exists>m'. menu_idle hw (te # map of_nat (t # ts)) m = continue m' \<and> menu_state m' = MENU_AUTO_BOOT))"
proof -
  have "0x25 \<notin> set (bytes_of (''Going to auto boot, press any KEY to cancel!'' @ CRLF))" by (simp add: bytes_of_def CRLF_def)
  from menu_print_line [OF assms(1) this, of "brd m" c0] obtain h where
    h: "printf hw (''Going to auto boot, press any KEY to cancel!'' @ CRLF) [] (brd m) = Some ((brd m)\<lparr>hist := h\<rparr>)"
      "chip_of c0 h = chip_of c0 (hist (brd m))" by blast
  let ?m = "m\<lparr>brd := (brd m)\<lparr>hist := h\<rparr>, menu_state := MENU_AUTO_BOOT, timestamp_auto_boot := 0, auto_boot_timeout := 5\<rparr>"
  have e: "menu hw te False 0 m = continue ?m" using assms(3) h by (simp add: menu_def)
  from menu_print_count [OF assms(1), of 5 "brd ?m" c0] obtain h1 where
    h1: "printf hw ([CHR 0x0D] @ ''Auto boot in %d second...'') [VInt 5] (brd ?m) = Some ((brd ?m)\<lparr>hist := h1\<rparr>)"
      "chip_of c0 h1 = chip_of c0 h" by auto
  let ?m1 = "?m\<lparr>timestamp_auto_boot := of_nat t, brd := (brd ?m)\<lparr>hist := h1\<rparr>\<rparr>"
  have f: "menu hw (of_nat t) False 0 ?m = continue ?m1" using h1(1) by (simp add: menu_def menu_auto_boot_def)
  have "(lapses t ts < 5 \<longrightarrow> (\<exists>m'. menu_idle hw (map of_nat ts) ?m1 = continue m' \<and> menu_state m' = MENU_AUTO_BOOT)) \<and>
    (5 + 2 \<le> lapses t ts \<longrightarrow> (\<exists>m'. menu_idle hw (map of_nat ts) ?m1 = Some (m', Some BL2_RAM_ADDR) \<and>
      (\<forall>i < 262144. ram m' (BL2_RAM_ADDR + of_nat i) = flash c0 (brd ?m1) (8 + i div PAGE_SIZE) (i mod PAGE_SIZE))))"
    by (rule auto_boot_idle [OF assms(1,2)]) (use assms(4-6) in simp_all)
  moreover have "7 \<le> lapses t ts" if "t + 14000 \<le> last (t # ts)" using that lapses_least [OF assms(5), of t] by linarith
  moreover have "lapses t ts < 5" if "last (t # ts) < t + 5000" using that lapses_most [OF assms(5), of t] by linarith
  ultimately show ?thesis using e f h(2) h1(2) by simp
qed

definition blank_spl :: spl where
  "blank_spl = \<lparr>brd = blank_board, xmodem = blank_xmodem, ram = (\<lambda>_. 0), g_counter = 0, menu_state = MENU_ENTRY,
     timestamp_auto_boot = 0, auto_boot_timeout = 5\<rparr>"

theorem menu_auto_boots_witness:
  "(\<exists>m'. menu_idle (spl_hw blank_chip) (10 # map of_nat (500 # map (\<lambda>i. 500 * i) [Suc 1..<Suc (1 + 30)])) blank_spl =
      Some (m', Some BL2_RAM_ADDR) \<and> ram m' 0x20000005 = 0xFF) \<and>
   (\<exists>m'. menu_idle (spl_hw blank_chip) (10 # map of_nat (500 # map (\<lambda>i. 500 * i) [Suc 1..<Suc (1 + 9)])) blank_spl = continue m' \<and>
      menu_state m' = MENU_AUTO_BOOT)"
proof -
  have e: "menu_state blank_spl = MENU_ENTRY" "hist (brd blank_spl) = []" by (simp_all add: blank_spl_def blank_board_def)
  have st: "steady 500 (map (\<lambda>i. 500 * i) [Suc 1..<Suc (1 + n)])" for n using steady_half_seconds [of 1 n] by simp
  have l: "last (500 # map (\<lambda>i. 500 * i) [Suc 1..<Suc (1 + n)]) = 500 * (n + 1)" for n :: nat
    by (cases n) (simp_all add: last_map)
  have c: "cells (chip_of blank_chip []) = (\<lambda>_ _. 0xFF)" by (simp add: chip_of_def)
  note th = menu_auto_boots [OF spl_hw_drains [of blank_chip] spl_hw_rom e(1) _ st, unfolded l e(2) c]
  have a: "\<exists>m'. menu_idle (spl_hw blank_chip) (10 # map of_nat (500 # map (\<lambda>i. 500 * i) [Suc 1..<Suc (1 + 30)])) blank_spl =
      Some (m', Some BL2_RAM_ADDR) \<and> (\<forall>i < 262144. ram m' (BL2_RAM_ADDR + of_nat i) = 0xFF)"
    using th [of 30 10] by (simp del: upt_Suc upt_rec_numeral)
  have b: "\<exists>m'. menu_idle (spl_hw blank_chip) (10 # map of_nat (500 # map (\<lambda>i. 500 * i) [Suc 1..<Suc (1 + 9)])) blank_spl = continue m' \<and>
      menu_state m' = MENU_AUTO_BOOT"
    using th [of 9 10] by (simp del: upt_Suc upt_rec_numeral)
  from a obtain m' where m': "menu_idle (spl_hw blank_chip) (10 # map of_nat (500 # map (\<lambda>i. 500 * i) [Suc 1..<Suc (1 + 30)])) blank_spl =
      Some (m', Some BL2_RAM_ADDR)" "\<forall>i < 262144. ram m' (BL2_RAM_ADDR + of_nat i) = 0xFF" by blast
  have "ram m' 0x20000005 = 0xFF" using m'(2) [rule_format, of 5] by simp
  with m'(1) b show ?thesis by blast
qed

text \<open>All runs of the menu, with the time, whether a key was received, and the key, of every call.\<close>

inductive menu_run :: "hw \<Rightarrow> spl \<Rightarrow> (u32 \<times> bool \<times> u8) list \<Rightarrow> spl \<Rightarrow> bool" for hw m0 where
  run_start: "menu_run hw m0 [] m0"
| run_call: "menu_run hw m0 evs m \<Longrightarrow> menu hw t recved c m = continue m' \<Longrightarrow>
    menu_run hw m0 (evs @ [(t, recved, c)]) m'"

definition keys :: "(u32 \<times> bool \<times> u8) list \<Rightarrow> u8 list" where
  "keys evs = map (snd \<circ> snd) (filter (fst \<circ> snd) evs)"

lemma keys_simps [simp]: "keys [] = []" "keys (xs @ ys) = keys xs @ keys ys"
  "keys [(t, r, c)] = (if r then [c] else [])"
  by (simp_all add: keys_def)

text \<open>The transitions of the menu, from its own conditions.\<close>

lemma menu_next:
  assumes "menu hw t recved c m = Some (m', e)"
  shows "menu_state m = MENU_ENTRY \<Longrightarrow> menu_state m' = MENU_AUTO_BOOT"
    and "menu_state m = MENU_AUTO_BOOT \<Longrightarrow>
      menu_state m' = (if recved then MENU_CMD else if sint (auto_boot_timeout m) \<le> 0 then MENU_BOOT else MENU_AUTO_BOOT)"
    and "menu_state m = MENU_CMD \<Longrightarrow>
      menu_state m' = (if recved \<and> c \<in> {0x64, 0x44} then MENU_DOWNLOAD else if recved \<and> c \<in> {0x62, 0x42} then MENU_BOOT
        else MENU_CMD)"
    and "menu_state m = MENU_DOWNLOAD \<Longrightarrow> menu_state m' \<in> {MENU_DOWNLOAD, MENU_CMD}"
    and "menu_state m = MENU_BOOT \<Longrightarrow> e = Some BL2_RAM_ADDR"
  using assms
  by (auto simp: menu_def menu_auto_boot_def menu_cmd_def menu_download_def menu_boot_def copybl2ToRamAndRun_def Let_def case_prod_unfold bind_Some_iff
      split: if_splits)

lemma menu_run_state:
  assumes "menu_run hw m0 evs m" "menu_state m0 = MENU_ENTRY"
  shows "(evs = [] \<longrightarrow> menu_state m = MENU_ENTRY) \<and> (evs \<noteq> [] \<longrightarrow> menu_state m \<noteq> MENU_ENTRY) \<and>
    (menu_state m = MENU_AUTO_BOOT \<longrightarrow> keys (tl evs) = []) \<and>
    (menu_state m = MENU_BOOT \<longrightarrow> keys (tl evs) = [] \<or> 0x62 \<in> set (keys evs) \<or> 0x42 \<in> set (keys evs))"
  using assms
proof (induction rule: menu_run.induct)
  case (run_call evs m t recved c m')
  have "tl (evs @ [(t, recved, c)]) = (if evs = [] then [] else tl evs @ [(t, recved, c)])" by (cases evs) auto
  with run_call menu_next [OF run_call.hyps(2)] show ?case
    by (cases "menu_state m") (auto split: if_splits)
qed simp

text \<open>
  C16. Whenever the menu reaches the boot state, either no key was received since its second call, or
  one of the keys b and B was: no other key and no interrupted download starts the second stage.
\<close>

theorem menu_boots_for_a_reason:
  assumes "menu_run hw m0 evs m" "menu_state m0 = MENU_ENTRY" "menu_state m = MENU_BOOT"
  shows "keys (tl evs) = [] \<or> 0x62 \<in> set (keys evs) \<or> 0x42 \<in> set (keys evs)"
  using menu_run_state [OF assms(1,2)] assms(3) by blast

lemma menu_idle_run:
  "menu_run hw m0 evs m \<Longrightarrow> menu_idle hw ts m = continue m' \<Longrightarrow>
   \<exists>evs'. menu_run hw m0 (evs @ evs') m' \<and> keys evs' = []"
proof (induction ts arbitrary: evs m)
  case Nil
  then show ?case by (auto intro: exI [of _ "[]"])
next
  case (Cons t ts)
  then obtain m1 where m1: "menu hw t False 0 m = continue m1" "menu_idle hw ts m1 = continue m'"
    by (auto simp: bind_Some_iff split: option.splits)
  from Cons.IH [OF run_call [OF Cons.prems(1) m1(1)] m1(2)] show ?case
    by (metis append.assoc keys_simps(2,3) append_Nil)
qed

theorem menu_boots_for_a_reason_witness:
  "\<exists>evs m. menu_run (spl_hw blank_chip) blank_spl evs m \<and> menu_state m = MENU_BOOT \<and>
    (keys (tl evs) = [] \<or> 0x62 \<in> set (keys evs) \<or> 0x42 \<in> set (keys evs))"
proof -
  have e: "menu_state blank_spl = MENU_ENTRY" by (simp add: blank_spl_def)
  obtain m' where m': "menu_idle (spl_hw blank_chip) [10, 20, 1020, 2020, 3020, 4020, 5020, 5030] blank_spl = continue m'"
      "menu_state m' = MENU_BOOT"
    using auto_boots [OF spl_hw_drains e, of 20 "[1020, 2020, 3020, 4020, 5020]" blank_chip 10 5030]
    by (auto simp: word_le_nat_alt)
  from menu_idle_run [OF run_start m'(1)] obtain evs where "menu_run (spl_hw blank_chip) blank_spl evs m'" by auto
  with menu_boots_for_a_reason [OF this e m'(2)] m'(2) show ?thesis by blast
qed

end
