(* ===== verification/Lmb.thy ===== *)
theory Lmb
  imports Prelude
begin

text \<open>
  The table of logical memory blocks, \<^verbatim>\<open>lib/lmb.c\<close> with \<^verbatim>\<open>include/lmb.h\<close>: the regions of memory and
  of reserved memory that the boot commands place kernel, ramdisk and device tree in. Addresses and
  sizes are 32-bit words, as on this board; the region array has nine entries, an access outside it has
  no defined result. Console messages are not part of the state.
\<close>

unbundle bit_operations_syntax

abbreviation MAX_LMB_REGIONS :: nat where "MAX_LMB_REGIONS \<equiv> 8"
abbreviation (input) LMB_ALLOC_ANYWHERE :: u32 where "LMB_ALLOC_ANYWHERE \<equiv> 0"

record lmb_property =
  pbase :: u32
  psize :: u32

record lmb_region =
  cnt :: u32
  rsize :: u32
  region :: "lmb_property list"

record lmb =
  memory :: lmb_region
  reserved :: lmb_region

definition lmb_addrs_overlap :: "u32 \<Rightarrow> u32 \<Rightarrow> u32 \<Rightarrow> u32 \<Rightarrow> bool" where
  "lmb_addrs_overlap base1 size1 base2 size2 \<longleftrightarrow> base1 < base2 + size2 \<and> base2 < base1 + size1"

definition lmb_addrs_adjacent :: "u32 \<Rightarrow> u32 \<Rightarrow> u32 \<Rightarrow> u32 \<Rightarrow> int" where
  "lmb_addrs_adjacent base1 size1 base2 size2 =
     (if base2 = base1 + size1 then 1 else if base1 = base2 + size2 then -1 else 0)"

definition lmb_regions_adjacent :: "lmb_region \<Rightarrow> nat \<Rightarrow> nat \<Rightarrow> int option" where
  "lmb_regions_adjacent rgn r1 r2 = do {
     p1 \<leftarrow> arr_get (region rgn) r1;
     p2 \<leftarrow> arr_get (region rgn) r2;
     Some (lmb_addrs_adjacent (pbase p1) (psize p1) (pbase p2) (psize p2))
   }"

text \<open>The shift loop, with the number of its remaining iterations.\<close>

fun lmb_remove_loop :: "nat \<Rightarrow> nat \<Rightarrow> lmb_property list \<Rightarrow> lmb_property list option" where
  "lmb_remove_loop 0 i rs = Some rs"
| "lmb_remove_loop (Suc n) i rs = do {
     p \<leftarrow> arr_get rs (i + 1);
     rs \<leftarrow> arr_set rs i p;
     lmb_remove_loop n (i + 1) rs
   }"

definition lmb_remove_region :: "lmb_region \<Rightarrow> nat \<Rightarrow> lmb_region option" where
  "lmb_remove_region rgn r = do {
     rs \<leftarrow> lmb_remove_loop (unat (cnt rgn - 1) - r) r (region rgn);
     Some (rgn\<lparr>region := rs, cnt := cnt rgn - 1\<rparr>)
   }"

definition lmb_coalesce_regions :: "lmb_region \<Rightarrow> nat \<Rightarrow> nat \<Rightarrow> lmb_region option" where
  "lmb_coalesce_regions rgn r1 r2 = do {
     p1 \<leftarrow> arr_get (region rgn) r1;
     p2 \<leftarrow> arr_get (region rgn) r2;
     rs \<leftarrow> arr_set (region rgn) r1 (p1\<lparr>psize := psize p1 + psize p2\<rparr>);
     lmb_remove_region (rgn\<lparr>region := rs\<rparr>) r2
   }"

definition lmb_init :: "lmb \<Rightarrow> lmb option" where
  "lmb_init l = do {
     m \<leftarrow> arr_set (region (memory l)) 0 \<lparr>pbase = 0, psize = 0\<rparr>;
     r \<leftarrow> arr_set (region (reserved l)) 0 \<lparr>pbase = 0, psize = 0\<rparr>;
     Some \<lparr>memory = \<lparr>cnt = 1, rsize = 0, region = m\<rparr>, reserved = \<lparr>cnt = 1, rsize = 0, region = r\<rparr>\<rparr>
   }"

text \<open>
  The search loop of \<open>lmb_add_region\<close>: it returns (the block is there already), breaks at an index
  with the region extended, or ends with \<open>i = cnt\<close>.
\<close>

datatype lmb_scan = Scan_return | Scan_break nat "lmb_property list" | Scan_end nat

fun lmb_add_scan :: "nat \<Rightarrow> nat \<Rightarrow> u32 \<Rightarrow> u32 \<Rightarrow> lmb_property list \<Rightarrow> lmb_scan option" where
  "lmb_add_scan 0 i base sz rs = Some (Scan_end i)"
| "lmb_add_scan (Suc n) i base sz rs = do {
     p \<leftarrow> arr_get rs i;
     let rgnbase = pbase p;
     let rgnsize = psize p;
     if rgnbase = base \<and> rgnsize = sz then Some Scan_return
     else do {
       let adjacent = lmb_addrs_adjacent base sz rgnbase rgnsize;
       if adjacent > 0 then
         Some (Scan_break i (rs[i := \<lparr>pbase = rgnbase - sz, psize = rgnsize + sz\<rparr>]))
       else if adjacent < 0 then
         Some (Scan_break i (rs[i := p\<lparr>psize := rgnsize + sz\<rparr>]))
       else lmb_add_scan n (i + 1) base sz rs
     }
   }"

text \<open>The insertion loop; \<open>n\<close> is \<open>i + 1\<close>.\<close>

fun lmb_insert_loop :: "nat \<Rightarrow> u32 \<Rightarrow> u32 \<Rightarrow> lmb_property list \<Rightarrow> lmb_property list option" where
  "lmb_insert_loop 0 base sz rs = Some rs"
| "lmb_insert_loop (Suc i) base sz rs = do {
     p \<leftarrow> arr_get rs i;
     if base < pbase p then do {
       rs \<leftarrow> arr_set rs (i + 1) p;
       lmb_insert_loop i base sz rs
     }
     else arr_set rs (i + 1) \<lparr>pbase = base, psize = sz\<rparr>
   }"

definition lmb_add_region :: "lmb_region \<Rightarrow> u32 \<Rightarrow> u32 \<Rightarrow> (int \<times> lmb_region) option" where
  "lmb_add_region rgn base sz = do {
     p0 \<leftarrow> arr_get (region rgn) 0;
     if cnt rgn = 1 \<and> psize p0 = 0 then
       Some (0, rgn\<lparr>region := (region rgn)[0 := \<lparr>pbase = base, psize = sz\<rparr>]\<rparr>)
     else do {
       sc \<leftarrow> lmb_add_scan (unat (cnt rgn)) 0 base sz (region rgn);
       case sc of
         Scan_return \<Rightarrow> Some (0, rgn)
       | _ \<Rightarrow> do {
           let (coalesced, i, rgn) =
             (case sc of Scan_break i rs \<Rightarrow> (1, i, rgn\<lparr>region := rs\<rparr>) | Scan_end i \<Rightarrow> (0 :: int, i, rgn)
              | Scan_return \<Rightarrow> (0, 0, rgn));
           (coalesced, rgn) \<leftarrow>
             (if of_nat i < cnt rgn - 1 then do {
                adj \<leftarrow> lmb_regions_adjacent rgn i (i + 1);
                if adj \<noteq> 0 then do {
                  rgn \<leftarrow> lmb_coalesce_regions rgn i (i + 1);
                  Some (coalesced + 1, rgn)
                }
                else Some (coalesced, rgn)
              }
              else Some (coalesced, rgn));
           if coalesced \<noteq> 0 then Some (coalesced, rgn)
           else if cnt rgn \<ge> of_nat MAX_LMB_REGIONS then Some (-1, rgn)
           else do {
             rs \<leftarrow> lmb_insert_loop (unat (cnt rgn)) base sz (region rgn);
             p0 \<leftarrow> arr_get rs 0;
             rs \<leftarrow> (if base < pbase p0 then arr_set rs 0 \<lparr>pbase = base, psize = sz\<rparr> else Some rs);
             Some (0, rgn\<lparr>region := rs, cnt := cnt rgn + 1\<rparr>)
           }
         }
     }
   }"

definition lmb_add :: "lmb \<Rightarrow> u32 \<Rightarrow> u32 \<Rightarrow> (int \<times> lmb) option" where
  "lmb_add l base sz = do { (r, m) \<leftarrow> lmb_add_region (memory l) base sz; Some (r, l\<lparr>memory := m\<rparr>) }"

text \<open>The search loop of \<open>lmb_free\<close> returns the index at which it stops.\<close>

fun lmb_free_scan :: "nat \<Rightarrow> nat \<Rightarrow> u32 \<Rightarrow> u32 \<Rightarrow> lmb_property list \<Rightarrow> nat option" where
  "lmb_free_scan 0 i base fin rs = Some i"
| "lmb_free_scan (Suc n) i base fin rs = do {
     p \<leftarrow> arr_get rs i;
     let rgnbegin = pbase p;
     let rgnend = rgnbegin + psize p;
     if rgnbegin \<le> base \<and> fin \<le> rgnend then Some i else lmb_free_scan n (i + 1) base fin rs
   }"

definition lmb_free :: "lmb \<Rightarrow> u32 \<Rightarrow> u32 \<Rightarrow> (int \<times> lmb) option" where
  "lmb_free l base sz = do {
     let rgn = reserved l;
     let fin = base + sz;
     i \<leftarrow> lmb_free_scan (unat (cnt rgn)) 0 base fin (region rgn);
     if i = unat (cnt rgn) then Some (-1, l)
     else do {
       p \<leftarrow> arr_get (region rgn) i;
       let rgnbegin = pbase p;
       let rgnend = rgnbegin + psize p;
       if rgnbegin = base \<and> rgnend = fin then do {
         rgn \<leftarrow> lmb_remove_region rgn i;
         Some (0, l\<lparr>reserved := rgn\<rparr>)
       }
       else if rgnbegin = base then
         Some (0, l\<lparr>reserved := rgn\<lparr>region := (region rgn)[i := \<lparr>pbase = fin, psize = psize p - sz\<rparr>]\<rparr>\<rparr>)
       else if rgnend = fin then
         Some (0, l\<lparr>reserved := rgn\<lparr>region := (region rgn)[i := p\<lparr>psize := psize p - sz\<rparr>]\<rparr>\<rparr>)
       else do {
         let rgn = rgn\<lparr>region := (region rgn)[i := p\<lparr>psize := base - pbase p\<rparr>]\<rparr>;
         (r, rgn) \<leftarrow> lmb_add_region rgn fin (rgnend - fin);
         Some (r, l\<lparr>reserved := rgn\<rparr>)
       }
     }
   }"

definition lmb_reserve :: "lmb \<Rightarrow> u32 \<Rightarrow> u32 \<Rightarrow> (int \<times> lmb) option" where
  "lmb_reserve l base sz = do { (r, m) \<leftarrow> lmb_add_region (reserved l) base sz; Some (r, l\<lparr>reserved := m\<rparr>) }"

fun lmb_overlaps_loop :: "nat \<Rightarrow> nat \<Rightarrow> u32 \<Rightarrow> u32 \<Rightarrow> lmb_property list \<Rightarrow> nat option" where
  "lmb_overlaps_loop 0 i base sz rs = Some i"
| "lmb_overlaps_loop (Suc n) i base sz rs = do {
     p \<leftarrow> arr_get rs i;
     if lmb_addrs_overlap base sz (pbase p) (psize p) then Some i
     else lmb_overlaps_loop n (i + 1) base sz rs
   }"

definition lmb_overlaps_region :: "lmb_region \<Rightarrow> u32 \<Rightarrow> u32 \<Rightarrow> int option" where
  "lmb_overlaps_region rgn base sz = do {
     i \<leftarrow> lmb_overlaps_loop (unat (cnt rgn)) 0 base sz (region rgn);
     Some (if i < unat (cnt rgn) then int i else -1)
   }"

definition lmb_align_down :: "u32 \<Rightarrow> u32 \<Rightarrow> u32" where
  "lmb_align_down addr sz = addr AND NOT (sz - 1)"

definition lmb_align_up :: "u32 \<Rightarrow> u32 \<Rightarrow> u32" where
  "lmb_align_up addr sz = (addr + (sz - 1)) AND NOT (sz - 1)"

lemma lmb_align_down_le: "lmb_align_down a b \<le> a"
  unfolding lmb_align_down_def by (rule word_and_le2)

lemma lmb_overlaps_loop_bounds:
  "lmb_overlaps_loop n i base sz rs = Some j \<Longrightarrow> i \<le> j \<and> j \<le> i + n \<and>
   (j < i + n \<longrightarrow> j < length rs \<and> lmb_addrs_overlap base sz (pbase (rs ! j)) (psize (rs ! j)))"
  by (induction n arbitrary: i) (fastforce simp: arr_get_Some_iff bind_Some_iff split: if_splits)+

text \<open>
  The inner loop of \<open>__lmb_alloc_base\<close>: \<open>Some (Some (b, r))\<close> is a return of \<open>b\<close> with the new reserved
  table, \<open>Some None\<close> the end of the loop. Every iteration lowers \<open>base\<close>.
\<close>

lemma lmb_alloc_decreases:
  assumes "lmb_overlaps_region rgn base sz = Some j" "\<not> j < 0"
    and "arr_get (region rgn) (nat j) = Some p" "\<not> pbase p < sz"
  shows "unat (lmb_align_down (pbase p - sz) align) < unat base"
proof -
  from assms(1) obtain i where i: "lmb_overlaps_loop (unat (cnt rgn)) 0 base sz (region rgn) = Some i"
    "j = (if i < unat (cnt rgn) then int i else -1)" by (auto simp: lmb_overlaps_region_def bind_Some_iff)
  with assms(2) have "i < unat (cnt rgn)" "j = int i" by (auto split: if_splits)
  with lmb_overlaps_loop_bounds [OF i(1)] assms(3) have ov: "lmb_addrs_overlap base sz (pbase p) (psize p)"
    by (simp add: arr_get_Some_iff)
  then have "pbase p < base + sz" by (simp add: lmb_addrs_overlap_def)
  then have "unat (pbase p) < unat base + unat sz"
    using unat_word_ariths(1) [of base sz] by (simp add: word_less_nat_alt)
  moreover have "unat (pbase p - sz) = unat (pbase p) - unat sz" "unat sz \<le> unat (pbase p)"
    using assms(4) by (simp_all add: word_less_nat_alt unat_sub word_le_nat_alt)
  moreover have "unat (lmb_align_down (pbase p - sz) align) \<le> unat (pbase p - sz)"
    using lmb_align_down_le by (simp add: word_le_nat_alt)
  ultimately show ?thesis by linarith
qed

function lmb_alloc_while ::
  "lmb \<Rightarrow> u32 \<Rightarrow> u32 \<Rightarrow> u32 \<Rightarrow> u32 \<Rightarrow> (u32 \<times> lmb) option option" where
  "lmb_alloc_while l sz align lmbbase base =
     (if base \<noteq> 0 \<and> lmbbase \<le> base then
        (case lmb_overlaps_region (reserved l) base sz of
           None \<Rightarrow> None
         | Some j \<Rightarrow>
             if j < 0 then do {
               (r, rgn) \<leftarrow> lmb_add_region (reserved l) base (lmb_align_up sz align);
               Some (Some (if r < 0 then 0 else base, l\<lparr>reserved := rgn\<rparr>))
             }
             else
               (case arr_get (region (reserved l)) (nat j) of
                  None \<Rightarrow> None
                | Some p \<Rightarrow>
                    if pbase p < sz then Some None
                    else lmb_alloc_while l sz align lmbbase (lmb_align_down (pbase p - sz) align)))
      else Some None)"
  by pat_completeness auto
termination
  by (relation "measure (\<lambda>(l, sz, align, lmbbase, base). unat base)") (auto simp: lmb_alloc_decreases)

declare lmb_alloc_while.simps [simp del]

text \<open>The outer loop over the memory regions; \<open>n\<close> is \<open>i + 1\<close>. The result is the returned address.\<close>

fun lmb_alloc_loop :: "nat \<Rightarrow> lmb \<Rightarrow> u32 \<Rightarrow> u32 \<Rightarrow> u32 \<Rightarrow> (u32 \<times> lmb) option" where
  "lmb_alloc_loop 0 l sz align max_addr = Some (0, l)"
| "lmb_alloc_loop (Suc i) l sz align max_addr = do {
     p \<leftarrow> arr_get (region (memory l)) i;
     let lmbbase = pbase p;
     let lmbsize = psize p;
     if lmbsize < sz then lmb_alloc_loop i l sz align max_addr
     else if max_addr \<noteq> LMB_ALLOC_ANYWHERE \<and> \<not> lmbbase < max_addr then lmb_alloc_loop i l sz align max_addr
     else do {
       let base = (if max_addr = LMB_ALLOC_ANYWHERE then lmb_align_down (lmbbase + lmbsize - sz) align
                   else lmb_align_down (min (lmbbase + lmbsize) max_addr - sz) align);
       r \<leftarrow> lmb_alloc_while l sz align lmbbase base;
       case r of Some (a, l) \<Rightarrow> Some (a, l) | None \<Rightarrow> lmb_alloc_loop i l sz align max_addr
     }
   }"

definition lmb_alloc_base0 :: "lmb \<Rightarrow> u32 \<Rightarrow> u32 \<Rightarrow> u32 \<Rightarrow> (u32 \<times> lmb) option" where
  "lmb_alloc_base0 l sz align max_addr = lmb_alloc_loop (nat (sint (cnt (memory l) - 1) + 1)) l sz align max_addr"

definition lmb_alloc_base :: "lmb \<Rightarrow> u32 \<Rightarrow> u32 \<Rightarrow> u32 \<Rightarrow> (u32 \<times> lmb) option" where
  "lmb_alloc_base l sz align max_addr = lmb_alloc_base0 l sz align max_addr"

definition lmb_alloc :: "lmb \<Rightarrow> u32 \<Rightarrow> u32 \<Rightarrow> (u32 \<times> lmb) option" where
  "lmb_alloc l sz align = lmb_alloc_base l sz align LMB_ALLOC_ANYWHERE"

fun lmb_is_reserved_loop :: "nat \<Rightarrow> nat \<Rightarrow> u32 \<Rightarrow> lmb_property list \<Rightarrow> bool option" where
  "lmb_is_reserved_loop 0 i addr rs = Some False"
| "lmb_is_reserved_loop (Suc n) i addr rs = do {
     p \<leftarrow> arr_get rs i;
     let upper = pbase p + psize p - 1;
     if addr \<ge> pbase p \<and> addr \<le> upper then Some True else lmb_is_reserved_loop n (i + 1) addr rs
   }"

definition lmb_is_reserved :: "lmb \<Rightarrow> u32 \<Rightarrow> bool option" where
  "lmb_is_reserved l addr = lmb_is_reserved_loop (unat (cnt (reserved l))) 0 addr (region (reserved l))"

subsection \<open>Tables as sets of addresses\<close>

definition pend :: "lmb_property \<Rightarrow> nat" where
  "pend p = unat (pbase p) + unat (psize p)"

definition extent :: "lmb_property \<Rightarrow> nat set" where
  "extent p = {unat (pbase p)..<pend p}"

text \<open>The regions in use, the addresses they cover, and a table in good order.\<close>

definition regs :: "lmb_region \<Rightarrow> lmb_property list" where
  "regs rgn = take (unat (cnt rgn)) (region rgn)"

definition covers :: "lmb_property list \<Rightarrow> nat set" where
  "covers ps = (\<Union>p \<in> set ps. extent p)"

definition separated :: "lmb_property list \<Rightarrow> bool" where
  "separated ps \<longleftrightarrow> sorted_wrt (\<lambda>p q. pend p < unat (pbase q)) ps \<and>
     (\<forall>p \<in> set ps. psize p \<noteq> 0 \<and> pend p < 2 ^ 32)"

definition table_ok :: "lmb_region \<Rightarrow> bool" where
  "table_ok rgn \<longleftrightarrow> length (region rgn) = MAX_LMB_REGIONS + 1 \<and> unat (cnt rgn) \<le> MAX_LMB_REGIONS \<and>
     separated (regs rgn)"

definition block :: "u32 \<Rightarrow> u32 \<Rightarrow> lmb_property" where
  "block base sz = \<lparr>pbase = base, psize = sz\<rparr>"

lemma block_simps [simp]: "pbase (block b s) = b" "psize (block b s) = s"
  by (simp_all add: block_def)

lemma covers_simps [simp]:
  "covers [] = {}" "covers (p # ps) = extent p \<union> covers ps" "covers (ps @ qs) = covers ps \<union> covers qs"
  by (auto simp: covers_def)

lemma separated_Cons:
  "separated (p # ps) \<longleftrightarrow> psize p \<noteq> 0 \<and> pend p < 2 ^ 32 \<and> (\<forall>q \<in> set ps. pend p < unat (pbase q)) \<and> separated ps"
  by (auto simp: separated_def)

lemma separated_append:
  "separated (ps @ qs) \<longleftrightarrow> separated ps \<and> separated qs \<and> (\<forall>p \<in> set ps. \<forall>q \<in> set qs. pend p < unat (pbase q))"
  by (auto simp: separated_def sorted_wrt_append)

lemma unat_end:
  "pend p < 2 ^ 32 \<Longrightarrow> unat (pbase p + psize p) = pend p"
  by (simp add: pend_def unat_word_ariths)

lemma adjacent_nat:
  assumes "pend p < 2 ^ 32" "pend q < 2 ^ 32"
  shows "lmb_addrs_adjacent (pbase p) (psize p) (pbase q) (psize q) =
    (if unat (pbase q) = pend p then 1 else if unat (pbase p) = pend q then -1 else 0)"
  using unat_end [OF assms(1)] unat_end [OF assms(2)] by (simp add: lmb_addrs_adjacent_def word_unat_eq_iff)

lemma overlap_nat:
  assumes "pend p < 2 ^ 32" "pend q < 2 ^ 32"
  shows "lmb_addrs_overlap (pbase p) (psize p) (pbase q) (psize q) \<longleftrightarrow>
    unat (pbase p) < pend q \<and> unat (pbase q) < pend p"
  using unat_end [OF assms(1)] unat_end [OF assms(2)] by (simp add: lmb_addrs_overlap_def word_less_nat_alt)

lemma extent_disjoint:
  assumes "psize p \<noteq> 0" "psize q \<noteq> 0"
  shows "extent p \<inter> extent q = {} \<longleftrightarrow> pend p \<le> unat (pbase q) \<or> pend q \<le> unat (pbase p)"
proof -
  have "0 < unat (psize p)" "0 < unat (psize q)" using assms by (simp_all add: word_eq_0_unat)
  then show ?thesis by (auto simp: extent_def pend_def)
qed

text \<open>What the search loop finds.\<close>

definition touches :: "lmb_property \<Rightarrow> lmb_property \<Rightarrow> bool" where
  "touches x p \<longleftrightarrow> unat (pbase p) = pend x \<or> unat (pbase x) = pend p"

definition merged :: "lmb_property \<Rightarrow> lmb_property \<Rightarrow> lmb_property" where
  "merged x p = (if unat (pbase p) = pend x then \<lparr>pbase = pbase p - psize x, psize = psize p + psize x\<rparr>
     else p\<lparr>psize := psize p + psize x\<rparr>)"

lemma lmb_add_scan_spec:
  assumes "pend x < 2 ^ 32" "psize x \<noteq> 0" "i + n \<le> length rs"
    and "\<And>k. i \<le> k \<Longrightarrow> k < i + n \<Longrightarrow> psize (rs ! k) \<noteq> 0 \<and> pend (rs ! k) < 2 ^ 32 \<and> extent x \<inter> extent (rs ! k) = {}"
  shows "(lmb_add_scan n i (pbase x) (psize x) rs = Some (Scan_end (i + n)) \<and>
      (\<forall>k. i \<le> k \<and> k < i + n \<longrightarrow> \<not> touches x (rs ! k))) \<or>
    (\<exists>k. i \<le> k \<and> k < i + n \<and> touches x (rs ! k) \<and> (\<forall>m. i \<le> m \<and> m < k \<longrightarrow> \<not> touches x (rs ! m)) \<and>
      lmb_add_scan n i (pbase x) (psize x) rs = Some (Scan_break k (rs[k := merged x (rs ! k)])))"
  using assms(3,4)
proof (induction n arbitrary: i)
  case 0
  then show ?case by auto
next
  case (Suc n)
  let ?p = "rs ! i"
  from Suc.prems have p: "i < length rs" "psize ?p \<noteq> 0" "pend ?p < 2 ^ 32" "extent x \<inter> extent ?p = {}" by auto
  have "\<not> (pbase ?p = pbase x \<and> psize ?p = psize x)"
  proof
    assume "pbase ?p = pbase x \<and> psize ?p = psize x"
    then have "extent x = extent ?p" by (simp add: extent_def pend_def)
    moreover have "unat (pbase x) \<in> extent x"
      using assms(2) by (simp add: extent_def pend_def word_eq_0_unat)
    ultimately show False using p(4) by blast
  qed
  moreover note adj = adjacent_nat [OF assms(1) p(3)]
  ultimately have step: "lmb_add_scan (Suc n) i (pbase x) (psize x) rs =
      (if touches x ?p then Some (Scan_break i (rs[i := merged x ?p]))
       else lmb_add_scan n (i + 1) (pbase x) (psize x) rs)"
    using p(1) by (auto simp: touches_def merged_def)
  show ?case
  proof (cases "touches x ?p")
    case True
    then show ?thesis unfolding step by (intro disjI2 exI [of _ i]) auto
  next
    case False
    have "(lmb_add_scan n (i + 1) (pbase x) (psize x) rs = Some (Scan_end (i + 1 + n)) \<and>
        (\<forall>k. i + 1 \<le> k \<and> k < i + 1 + n \<longrightarrow> \<not> touches x (rs ! k))) \<or>
      (\<exists>k. i + 1 \<le> k \<and> k < i + 1 + n \<and> touches x (rs ! k) \<and> (\<forall>m. i + 1 \<le> m \<and> m < k \<longrightarrow> \<not> touches x (rs ! m)) \<and>
        lmb_add_scan n (i + 1) (pbase x) (psize x) rs = Some (Scan_break k (rs[k := merged x (rs ! k)])))"
      using Suc.prems by (intro Suc.IH) auto
    then show ?thesis
    proof (elim disjE exE conjE)
      assume 1: "lmb_add_scan n (i + 1) (pbase x) (psize x) rs = Some (Scan_end (i + 1 + n))"
        "\<forall>k. i + 1 \<le> k \<and> k < i + 1 + n \<longrightarrow> \<not> touches x (rs ! k)"
      have "\<not> touches x (rs ! k)" if "i \<le> k" "k < i + Suc n" for k
        using that False 1(2) by (cases "k = i") auto
      then have "\<forall>k. i \<le> k \<and> k < i + Suc n \<longrightarrow> \<not> touches x (rs ! k)" by blast
      with False 1(1) show ?thesis unfolding step by simp
    next
      fix k
      assume 2: "i + 1 \<le> k" "k < i + 1 + n" "touches x (rs ! k)" "\<forall>m. i + 1 \<le> m \<and> m < k \<longrightarrow> \<not> touches x (rs ! m)"
        "lmb_add_scan n (i + 1) (pbase x) (psize x) rs = Some (Scan_break k (rs[k := merged x (rs ! k)]))"
      have "\<not> touches x (rs ! m)" if "i \<le> m" "m < k" for m
        using that False 2(4) by (cases "m = i") auto
      then have "\<forall>m. i \<le> m \<and> m < k \<longrightarrow> \<not> touches x (rs ! m)" by blast
      with False 2 show ?thesis unfolding step by (intro disjI2 exI [of _ k]) simp
    qed
  qed
qed

text \<open>The insertion loop puts the block behind the last region with a lower base.\<close>

lemma lmb_insert_loop_spec:
  assumes "n < length rs"
  shows "\<exists>k \<le> n. (\<forall>m. k \<le> m \<and> m < n \<longrightarrow> base < pbase (rs ! m)) \<and> (k \<noteq> 0 \<longrightarrow> \<not> base < pbase (rs ! (k - 1))) \<and>
    lmb_insert_loop n base sz rs =
      Some (take k rs @ (if k = 0 then [rs ! 0] else [block base sz]) @ drop k (take n rs) @ drop (Suc n) rs)"
  using assms
proof (induction n arbitrary: rs)
  case 0
  then show ?case by (cases rs) simp_all
next
  case (Suc i)
  show ?case
  proof (cases "base < pbase (rs ! i)")
    case False
    then have "lmb_insert_loop (Suc i) base sz rs = Some (rs[Suc i := block base sz])"
      using Suc.prems by (simp add: block_def)
    also have "rs[Suc i := block base sz] = take (Suc i) rs @ [block base sz] @ drop (Suc i) (take (Suc i) rs) @ drop (Suc (Suc i)) rs"
      using Suc.prems by (simp add: upd_conv_take_nth_drop)
    finally show ?thesis using False by (intro exI [of _ "Suc i"]) auto
  next
    case True
    let ?rs = "rs[Suc i := rs ! i]"
    have eq: "lmb_insert_loop (Suc i) base sz rs = lmb_insert_loop i base sz ?rs"
      using Suc.prems True by simp
    from Suc.IH [of ?rs] Suc.prems obtain k where
      k: "k \<le> i" "\<forall>m. k \<le> m \<and> m < i \<longrightarrow> base < pbase (?rs ! m)" "k \<noteq> 0 \<longrightarrow> \<not> base < pbase (?rs ! (k - 1))"
        "lmb_insert_loop i base sz ?rs = Some (take k ?rs @ (if k = 0 then [?rs ! 0] else [block base sz]) @
          drop k (take i ?rs) @ drop (Suc i) ?rs)" by auto
    have d: "drop (Suc i) ?rs = rs ! i # drop (Suc (Suc i)) rs"
      using Suc.prems Cons_nth_drop_Suc [of "Suc i" ?rs] by simp
    have t: "drop k (take (Suc i) rs) = drop k (take i rs) @ [rs ! i]"
      using Suc.prems k(1) by (simp add: take_Suc_conv_app_nth)
    show ?thesis
    proof (intro exI [of _ k] conjI)
      show "lmb_insert_loop (Suc i) base sz rs = Some (take k rs @ (if k = 0 then [rs ! 0] else [block base sz]) @
          drop k (take (Suc i) rs) @ drop (Suc (Suc i)) rs)"
        unfolding eq k(4) d t using k(1) by simp
      show "k \<le> Suc i" using k(1) by simp
      have "base < pbase (rs ! m)" if "k \<le> m" "m < Suc i" for m
        using that k(2) True by (cases "m = i") (simp_all add: less_Suc_eq)
      then show "\<forall>m. k \<le> m \<and> m < Suc i \<longrightarrow> base < pbase (rs ! m)" by blast
      have "?rs ! (k - 1) = rs ! (k - 1)" using k(1) by simp
      with k(3) show "k \<noteq> 0 \<longrightarrow> \<not> base < pbase (rs ! (k - 1))" by simp
    qed
  qed
qed

text \<open>Removing a region.\<close>

lemma lmb_remove_loop_eq:
  "i + n < length rs \<Longrightarrow>
   \<exists>rs'. lmb_remove_loop n i rs = Some rs' \<and> length rs' = length rs \<and>
     take (i + n) rs' = take i rs @ take n (drop (Suc i) rs)"
proof (induction n arbitrary: i rs)
  case (Suc n)
  let ?rs = "rs[i := rs ! Suc i]"
  from Suc.IH [of "Suc i" ?rs] Suc.prems obtain rs' where
    rs': "lmb_remove_loop n (Suc i) ?rs = Some rs'" "length rs' = length rs"
      "take (Suc i + n) rs' = take (Suc i) ?rs @ take n (drop (Suc (Suc i)) ?rs)" by auto
  have "take (Suc i) ?rs = take i rs @ [rs ! Suc i]" using Suc.prems by (simp add: take_Suc_conv_app_nth)
  moreover have "take (Suc n) (drop (Suc i) rs) = rs ! Suc i # take n (drop (Suc (Suc i)) rs)"
    using Suc.prems Cons_nth_drop_Suc [of "Suc i" rs, symmetric] by simp
  ultimately show ?case using rs' Suc.prems by simp
qed simp

lemma regs_remove:
  assumes "length (region rgn) = MAX_LMB_REGIONS + 1" "unat (cnt rgn) \<le> MAX_LMB_REGIONS" "r < unat (cnt rgn)"
  shows "\<exists>rgn'. lmb_remove_region rgn r = Some rgn' \<and> regs rgn' = take r (regs rgn) @ drop (Suc r) (regs rgn) \<and>
    length (region rgn') = MAX_LMB_REGIONS + 1 \<and> unat (cnt rgn') = unat (cnt rgn) - 1"
proof -
  let ?n = "unat (cnt rgn)"
  have c: "unat (cnt rgn - 1) = ?n - 1" using assms(3) by (intro unat_minus_one) auto
  have lt: "r + (?n - 1 - r) < length (region rgn)" "r + (?n - 1 - r) = ?n - 1" using assms by linarith+
  from lmb_remove_loop_eq [OF lt(1)] lt(2) obtain rs' where
    rs': "lmb_remove_loop (?n - 1 - r) r (region rgn) = Some rs'" "length rs' = length (region rgn)"
      "take (?n - 1) rs' = take r (region rgn) @ take (?n - 1 - r) (drop (Suc r) (region rgn))" by auto
  have "take r (region rgn) = take r (regs rgn)" using assms(3) by (simp add: regs_def min_def)
  moreover have "take (?n - 1 - r) (drop (Suc r) (region rgn)) = drop (Suc r) (regs rgn)"
    by (simp add: regs_def drop_take)
  ultimately show ?thesis
    using rs' assms(1) c by (auto simp: lmb_remove_region_def regs_def)
qed

subsection \<open>Adding a block\<close>

text \<open>A block that can be added to a table: not empty, not at the very top, and not covered yet.\<close>

definition addable :: "lmb_property \<Rightarrow> lmb_property list \<Rightarrow> bool" where
  "addable x ps \<longleftrightarrow> psize x \<noteq> 0 \<and> pend x < 2 ^ 32 \<and> extent x \<inter> covers ps = {}"

lemma addable_cases:
  assumes "addable x ps" "separated ps" "p \<in> set ps"
  shows "pend p \<le> unat (pbase x) \<or> pend x \<le> unat (pbase p)"
proof -
  have "extent p \<inter> extent x = {}" using assms(1,3) by (auto simp: addable_def covers_def)
  moreover have "psize p \<noteq> 0" "psize x \<noteq> 0" using assms by (auto simp: addable_def separated_def)
  ultimately show ?thesis using extent_disjoint [of p x] by blast
qed

lemma pbase_less_pend: "psize p \<noteq> 0 \<Longrightarrow> unat (pbase p) < pend p"
  by (simp add: pend_def word_eq_0_unat)

lemma separated_insert:
  assumes "separated (P @ Q)" "addable x (P @ Q)" "\<forall>p \<in> set (P @ Q). \<not> touches x p"
    and "\<forall>p \<in> set P. \<not> pbase x < pbase p" "\<forall>q \<in> set Q. pbase x < pbase q"
  shows "separated (P @ x # Q)"
proof -
  have x: "psize x \<noteq> 0" "pend x < 2 ^ 32" "unat (pbase x) < pend x"
    using assms(2) pbase_less_pend by (auto simp: addable_def)
  have "pend p < unat (pbase x)" if "p \<in> set P" for p
  proof -
    have "unat (pbase p) \<le> unat (pbase x)" using assms(4) that by (auto simp: word_less_nat_alt)
    moreover have "unat (pbase x) \<noteq> pend p" using assms(3) that by (auto simp: touches_def)
    ultimately show ?thesis using addable_cases [OF assms(2,1), of p] that x(3) by auto
  qed
  moreover have "pend x < unat (pbase q)" if "q \<in> set Q" for q
  proof -
    have "psize q \<noteq> 0" using assms(1) that by (auto simp: separated_def)
    then have "unat (pbase x) < pend q" using assms(5) that pbase_less_pend [of q] by (auto simp: word_less_nat_alt)
    moreover have "unat (pbase q) \<noteq> pend x" using assms(3) that by (auto simp: touches_def)
    ultimately show ?thesis using addable_cases [OF assms(2,1), of q] that by auto
  qed
  ultimately show ?thesis using assms(1) x by (auto simp: separated_append separated_Cons)
qed

lemma merged_front:
  assumes "unat (pbase p) = pend x" "pend p < 2 ^ 32"
  shows "pbase (merged x p) = pbase x" "pend (merged x p) = pend p" "psize x \<noteq> 0 \<Longrightarrow> psize (merged x p) \<noteq> 0"
proof -
  have "pbase p = pbase x + psize x" using assms(1) by (simp add: word_unat_eq_iff unat_word_ariths pend_def)
    (metis mod_less unat_u32_less)
  then show b: "pbase (merged x p) = pbase x" using assms(1) by (simp add: merged_def)
  have u: "unat (psize p + psize x) = unat (psize p) + unat (psize x)"
    using assms by (simp add: unat_word_ariths pend_def)
  then show "pend (merged x p) = pend p" using assms(1) b by (simp add: pend_def merged_def)
  show "psize (merged x p) \<noteq> 0" if "psize x \<noteq> 0"
    using that u assms(1) by (simp add: merged_def word_eq_0_unat)
qed

lemma merged_back:
  assumes "unat (pbase x) = pend p" "unat (pbase p) \<noteq> pend x" "pend x < 2 ^ 32"
  shows "pbase (merged x p) = pbase p" "pend (merged x p) = pend x" "psize x \<noteq> 0 \<Longrightarrow> psize (merged x p) \<noteq> 0"
proof -
  show b: "pbase (merged x p) = pbase p" using assms(2) by (simp add: merged_def)
  have u: "unat (psize p + psize x) = unat (psize p) + unat (psize x)"
    using assms by (simp add: unat_word_ariths pend_def)
  have "psize (merged x p) = psize p + psize x" using assms(2) by (simp add: merged_def)
  then show "pend (merged x p) = pend x" using assms(1) b u by (simp add: pend_def)
  show "psize (merged x p) \<noteq> 0" if "psize x \<noteq> 0"
    using that u assms(2) by (simp add: merged_def word_eq_0_unat)
qed

lemma extent_union: "unat (pbase m) = unat (pbase a) \<Longrightarrow> pend m = pend b \<Longrightarrow> pend a = unat (pbase b) \<Longrightarrow>
    extent m = extent a \<union> extent b"
  by (auto simp: extent_def pend_def)

text \<open>Merging a block into the first region it touches, and that region with the next one.\<close>

lemma separated_merge:
  assumes sep: "separated (P @ p # Q)" and add: "addable x (P @ p # Q)" and t: "touches x p"
    and first: "\<forall>q \<in> set P. \<not> touches x q"
  shows "covers (P @ merged x p # Q) = covers (P @ p # Q) \<union> extent x"
    and "pend (merged x p) < 2 ^ 32" and "psize (merged x p) \<noteq> 0"
    and "\<forall>q \<in> set P. pend q < unat (pbase (merged x p))"
    and "\<forall>q \<in> set Q. pend (merged x p) \<le> unat (pbase q)"
proof -
  have x: "psize x \<noteq> 0" "pend x < 2 ^ 32" "unat (pbase x) < pend x"
    using add pbase_less_pend by (auto simp: addable_def)
  have p: "psize p \<noteq> 0" "pend p < 2 ^ 32" "unat (pbase p) < pend p"
    using sep pbase_less_pend by (auto simp: separated_append separated_Cons)
  have P: "pend q < unat (pbase p)" "unat (pbase q) < pend q" if "q \<in> set P" for q
    using sep that pbase_less_pend by (auto simp: separated_def sorted_wrt_append)
  have Q: "pend p < unat (pbase q)" "unat (pbase q) < pend q" if "q \<in> set Q" for q
    using sep that pbase_less_pend by (auto simp: separated_def sorted_wrt_append)
  note dis = addable_cases [OF add sep]
  have res: "extent (merged x p) = extent p \<union> extent x \<and> pend (merged x p) < 2 ^ 32 \<and> psize (merged x p) \<noteq> 0 \<and>
    (\<forall>q \<in> set P. pend q < unat (pbase (merged x p))) \<and> (\<forall>q \<in> set Q. pend (merged x p) \<le> unat (pbase q))"
  proof (cases "unat (pbase p) = pend x")
    case True
    note m = merged_front [OF True p(2)]
    have "pend q < unat (pbase x)" if "q \<in> set P" for q
    proof -
      have "unat (pbase x) \<noteq> pend q" using first that by (auto simp: touches_def)
      then show ?thesis using dis [of q] that P [OF that] True by auto
    qed
    moreover have "extent (merged x p) = extent x \<union> extent p" using m True by (intro extent_union) simp_all
    ultimately show ?thesis using m p x Q by (auto simp: less_imp_le)
  next
    case False
    with t have e: "unat (pbase x) = pend p" by (auto simp: touches_def)
    note m = merged_back [OF e False x(2)]
    have "pend x \<le> unat (pbase q)" if "q \<in> set Q" for q
      using dis [of q] that Q [OF that] e by auto
    moreover have "extent (merged x p) = extent p \<union> extent x" using m e by (intro extent_union) simp_all
    ultimately show ?thesis using m x P by auto
  qed
  then show "covers (P @ merged x p # Q) = covers (P @ p # Q) \<union> extent x" by auto
  from res show "pend (merged x p) < 2 ^ 32" "psize (merged x p) \<noteq> 0"
    "\<forall>q \<in> set P. pend q < unat (pbase (merged x p))" "\<forall>q \<in> set Q. pend (merged x p) \<le> unat (pbase q)" by blast+
qed

text \<open>
  A table as the functions keep it: in good order with at least one region, or with the single empty
  region that \<open>lmb_init\<close> leaves.
\<close>

definition table_ready :: "lmb_region \<Rightarrow> bool" where
  "table_ready rgn \<longleftrightarrow> (table_ok rgn \<and> cnt rgn \<noteq> 0) \<or>
     (length (region rgn) = MAX_LMB_REGIONS + 1 \<and> cnt rgn = 1 \<and> psize (region rgn ! 0) = 0)"

definition added :: "lmb_region \<Rightarrow> lmb_property \<Rightarrow> lmb_region \<Rightarrow> bool" where
  "added rgn x rgn' \<longleftrightarrow> table_ok rgn' \<and> cnt rgn' \<noteq> 0 \<and> covers (regs rgn') = covers (regs rgn) \<union> extent x"

lemma u32_8: "unat n \<le> 8 \<Longrightarrow> unat (n + 1) = unat n + 1" for n :: u32
  by (simp add: unat_word_ariths)

lemma add_inserts:
  assumes ok: "table_ok rgn" "cnt rgn \<noteq> 0" "unat (cnt rgn) < MAX_LMB_REGIONS"
    and add: "addable (block b s) (regs rgn)" and no: "\<forall>p \<in> set (regs rgn). \<not> touches (block b s) p"
  shows "\<exists>rs. do { rs \<leftarrow> lmb_insert_loop (unat (cnt rgn)) b s (region rgn);
      p0 \<leftarrow> arr_get rs 0;
      if b < pbase p0 then arr_set rs 0 (block b s) else Some rs } = Some rs \<and>
    added rgn (block b s) (rgn\<lparr>region := rs, cnt := cnt rgn + 1\<rparr>)"
proof -
  let ?n = "unat (cnt rgn)" and ?rs = "region rgn" and ?L = "regs rgn" and ?x = "block b s"
  have n: "0 < ?n" "?n < length ?rs" "length ?rs = MAX_LMB_REGIONS + 1" "separated ?L" "length ?L = ?n"
    using ok by (auto simp: table_ok_def regs_def word_eq_0_unat)
  from lmb_insert_loop_spec [OF n(2), of b s] obtain k where
    k: "k \<le> ?n" "\<And>m. k \<le> m \<Longrightarrow> m < ?n \<Longrightarrow> b < pbase (?rs ! m)" "k \<noteq> 0 \<Longrightarrow> \<not> b < pbase (?rs ! (k - 1))"
      "lmb_insert_loop ?n b s ?rs =
        Some (take k ?rs @ (if k = 0 then [?rs ! 0] else [?x]) @ drop k (take ?n ?rs) @ drop (Suc ?n) ?rs)" by blast
  let ?F = "take k ?rs @ ?x # drop k (take ?n ?rs) @ drop (Suc ?n) ?rs"
  have nth: "?L ! m = ?rs ! m" if "m < ?n" for m using that by (simp add: regs_def)
  have low: "\<not> b < pbase (?rs ! m)" if "m < k" for m
  proof (cases "m = k - 1")
    case True
    with k(3) that show ?thesis by auto
  next
    case False
    with that have m: "m < k - 1" "k - 1 < length ?L" using k(1) n(5) by auto
    have "pend (?L ! m) < unat (pbase (?L ! (k - 1)))"
      using n(4) m by (auto simp: separated_def sorted_wrt_iff_nth_less)
    then have "unat (pbase (?L ! m)) < unat (pbase (?L ! (k - 1)))" by (simp add: pend_def)
    with k(3) m that n(5) nth show ?thesis by (auto simp: word_less_nat_alt)
  qed
  have prog: "do { rs \<leftarrow> lmb_insert_loop ?n b s ?rs; p0 \<leftarrow> arr_get rs 0;
      if b < pbase p0 then arr_set rs 0 ?x else Some rs } = Some ?F"
  proof (cases "k = 0")
    case True
    then show ?thesis using k(2) [of 0] k(4) n by simp
  next
    case False
    then have "take k ?rs \<noteq> []" "take k ?rs ! 0 = ?rs ! 0" using n by auto
    then have "?F ! 0 = ?rs ! 0" by (simp add: nth_append)
    with False low [of 0] k(4) show ?thesis by simp
  qed
  have split: "take k ?L = take k ?rs" "drop k ?L = drop k (take ?n ?rs)"
    using k(1) by (simp_all add: regs_def min_def)
  have "take (Suc ?n) ?F = take k ?L @ ?x # drop k ?L"
    using k(1) n(2) split by (simp add: min_def Suc_diff_le)
  then have regs: "regs (rgn\<lparr>region := ?F, cnt := cnt rgn + 1\<rparr>) = take k ?L @ ?x # drop k ?L"
    using u32_8 [of "cnt rgn"] ok(3) by (simp add: regs_def)
  have "separated (take k ?L @ ?x # drop k ?L)"
  proof (rule separated_insert)
    show "\<forall>p \<in> set (take k ?L). \<not> pbase ?x < pbase p" using low k(1) n nth by (auto simp: in_set_conv_nth)
    show "\<forall>q \<in> set (drop k ?L). pbase ?x < pbase q" using k(1,2) n nth by (auto simp: in_set_conv_nth)
  qed (use n add no in simp_all)
  moreover have "length ?F = MAX_LMB_REGIONS + 1" using k(1) n by simp
  moreover have "covers (take k ?L @ ?x # drop k ?L) = covers ?L \<union> extent ?x"
    using covers_simps(3) [of "take k ?L" "drop k ?L"] by auto
  ultimately have "added rgn ?x (rgn\<lparr>region := ?F, cnt := cnt rgn + 1\<rparr>)"
    using regs u32_8 [of "cnt rgn"] ok(3) by (auto simp: added_def table_ok_def word_eq_0_unat)
  with prog show ?thesis by blast
qed

lemma add_merges:
  assumes ok: "table_ok rgn" and add: "addable (block b s) (regs rgn)"
    and k: "k < unat (cnt rgn)" "touches (block b s) (region rgn ! k)"
      "\<forall>m < k. \<not> touches (block b s) (region rgn ! m)"
  defines "rgn1 \<equiv> rgn\<lparr>region := (region rgn)[k := merged (block b s) (region rgn ! k)]\<rparr>"
  shows "\<exists>c rgn'. (if of_nat k < cnt rgn1 - 1 then do {
        adj \<leftarrow> lmb_regions_adjacent rgn1 k (k + 1);
        if adj \<noteq> 0 then do { rgn \<leftarrow> lmb_coalesce_regions rgn1 k (k + 1); Some (1 + 1, rgn) } else Some (1, rgn1) }
      else Some (1 :: int, rgn1)) = Some (c, rgn') \<and> 0 < c \<and> added rgn (block b s) rgn'"
proof -
  let ?n = "unat (cnt rgn)" and ?rs = "region rgn" and ?L = "regs rgn" and ?x = "block b s"
  define P p Q m where "P = take k ?L" and "p = ?rs ! k" and "Q = drop (Suc k) ?L" and "m = merged ?x p"
  have n: "length ?rs = MAX_LMB_REGIONS + 1" "?n \<le> MAX_LMB_REGIONS" "separated ?L" "length ?L = ?n" "k < length ?L"
    using ok k(1) by (auto simp: table_ok_def regs_def)
  have nth: "?L ! j = ?rs ! j" if "j < ?n" for j using that by (simp add: regs_def)
  have L: "?L = P @ p # Q" unfolding P_def p_def Q_def using id_take_nth_drop [OF n(5)] nth [OF k(1)] by simp
  have lP: "length P = k" using n(5) by (simp add: P_def)
  have first: "\<forall>q \<in> set P. \<not> touches ?x q"
    using k(3) n(5) k(1) nth by (auto simp: P_def in_set_conv_nth)
  note mg = separated_merge [OF n(3) [unfolded L] add [unfolded L] k(2) [folded p_def] first, folded m_def]
  have r1: "region rgn1 = ?rs[k := m]" "cnt rgn1 = cnt rgn" "length (region rgn1) = MAX_LMB_REGIONS + 1"
    using n(1) by (simp_all add: rgn1_def m_def p_def)
  have "regs rgn1 = (regs rgn)[k := m]" by (simp add: regs_def r1 take_update_swap)
  then have regs1: "regs rgn1 = P @ m # Q" using L list_update_length [of P p Q m] lP by simp
  have sepP: "separated P" "separated Q" using n(3) L by (auto simp: separated_append separated_Cons)
  have Q: "pend q < 2 ^ 32" "unat (pbase q) < pend q" if "q \<in> set Q" for q
    using sepP(2) that pbase_less_pend by (auto simp: separated_def)
  have Qnil: "Q = [] \<longleftrightarrow> ?n \<le> Suc k" using n(4) by (simp add: Q_def)
  have nxt: "region rgn1 ! Suc k = hd Q \<and> Suc k < ?n \<and> region rgn1 ! k = m" if "Q \<noteq> []"
  proof -
    from that Qnil have "Suc k < ?n" by simp
    moreover from this have "hd Q = ?rs ! Suc k" unfolding Q_def using n(4) nth by (simp add: hd_drop_conv_nth)
    ultimately show ?thesis using n(1,2) by (simp add: r1(1))
  qed
  have lt: "of_nat k < cnt rgn1 - 1 \<longleftrightarrow> Q \<noteq> []"
  proof -
    have "unat (cnt rgn - 1) = ?n - 1" using k(1) by (intro unat_minus_one) auto
    moreover have "unat (of_nat k :: u32) = k" using k(1) n(2) by (simp add: unat_of_nat take_bit_eq_mod)
    ultimately show ?thesis using k(1) r1(2) Qnil by (auto simp: word_less_nat_alt)
  qed
  show ?thesis
  proof (cases "Q \<noteq> [] \<and> unat (pbase (hd Q)) = pend m")
    case False
    have strict: "\<forall>q \<in> set Q. pend m < unat (pbase q)"
    proof (cases Q)
      case (Cons q0 Q')
      have "pend m < unat (pbase q0)" using False mg(5) Cons by force
      moreover have "pend q0 < unat (pbase q)" if "q \<in> set Q'" for q using sepP(2) Cons that by (auto simp: separated_Cons)
      ultimately show ?thesis using Q [of q0] Cons by fastforce
    qed simp
    have "lmb_regions_adjacent rgn1 k (k + 1) = Some 0" if "Q \<noteq> []"
    proof -
      have q0: "hd Q \<in> set Q" "region rgn1 ! Suc k = hd Q" "Suc k < length (region rgn1)" "region rgn1 ! k = m"
        using that nxt [OF that] n(2) r1(3) by simp_all
      then show ?thesis
        using adjacent_nat [OF mg(2) Q(1) [OF q0(1)]] strict Q(2) [OF q0(1)] pbase_less_pend [OF mg(3)] r1(3)
        by (auto simp: lmb_regions_adjacent_def)
    qed
    moreover have "separated (P @ m # Q)"
      using sepP mg(2-4) strict n(3) [unfolded L] by (auto simp: separated_append separated_Cons)
    then have "added rgn ?x rgn1"
      using mg(1) regs1 r1 n(2) k(1) L by (auto simp: added_def table_ok_def)
    ultimately show ?thesis using lt by auto
  next
    case True
    then obtain q0 Q' where q: "Q = q0 # Q'" "unat (pbase q0) = pend m" by (cases Q) auto
    have Q0: "pend q0 < 2 ^ 32" "unat (pbase q0) < pend q0" using Q [of q0] q(1) by simp_all
    from nxt q(1) have q0: "region rgn1 ! Suc k = q0" "Suc k < ?n" "region rgn1 ! k = m" by auto
    define m2 where "m2 = m\<lparr>psize := psize m + psize q0\<rparr>"
    have m2: "pbase m2 = pbase m" "pend m2 = pend q0" "psize m2 \<noteq> 0"
    proof -
      have "unat (psize m + psize q0) = unat (psize m) + unat (psize q0)"
        using Q0(1) q(2) by (simp add: unat_word_ariths pend_def)
      then show "pbase m2 = pbase m" "pend m2 = pend q0" "psize m2 \<noteq> 0"
        using q(2) mg(3) by (simp_all add: m2_def pend_def word_eq_0_unat)
    qed
    have adj: "lmb_regions_adjacent rgn1 k (k + 1) = Some 1"
      using adjacent_nat [OF mg(2) Q0(1)] q(2) q0 r1(3) n(1,2) by (simp add: lmb_regions_adjacent_def)
    let ?rgn2 = "rgn1\<lparr>region := (region rgn1)[k := m2]\<rparr>"
    have co: "lmb_coalesce_regions rgn1 k (k + 1) = lmb_remove_region ?rgn2 (k + 1)"
      using q0 r1(3) n(1,2) by (simp add: lmb_coalesce_regions_def m2_def)
    have "regs ?rgn2 = (regs rgn1)[k := m2]" by (simp add: regs_def take_update_swap)
    then have "regs ?rgn2 = P @ m2 # Q" using regs1 list_update_length [of P m Q m2] lP by simp
    moreover have "length (region ?rgn2) = MAX_LMB_REGIONS + 1" "unat (cnt ?rgn2) \<le> MAX_LMB_REGIONS" "k + 1 < unat (cnt ?rgn2)"
      using r1 n(2) q0(2) by simp_all
    ultimately obtain rgn' where rgn': "lmb_remove_region ?rgn2 (k + 1) = Some rgn'"
      "regs rgn' = P @ m2 # Q'" "length (region rgn') = MAX_LMB_REGIONS + 1" "unat (cnt rgn') = ?n - 1"
      using regs_remove [of ?rgn2 "k + 1"] q(1) lP r1(2) by auto
    have "separated (P @ m2 # Q')"
      using sepP mg(4) n(3) [unfolded L] q(1) m2 Q0(1) by (auto simp: separated_append separated_Cons)
    moreover have "covers (P @ m2 # Q') = covers (regs rgn) \<union> extent ?x"
      using mg(1) L q(1) extent_union [of m2 m q0] m2 q(2) by auto
    ultimately have "added rgn ?x rgn'"
      using rgn' n(2) q0(2) by (auto simp: added_def table_ok_def word_eq_0_unat)
    with lt True adj co rgn'(1) show ?thesis by auto
  qed
qed

lemma regs_nth: "i < unat (cnt rgn) \<Longrightarrow> length (region rgn) = MAX_LMB_REGIONS + 1 \<Longrightarrow>
    unat (cnt rgn) \<le> MAX_LMB_REGIONS \<Longrightarrow> region rgn ! i \<in> set (regs rgn)"
  by (auto simp: regs_def in_set_conv_nth intro!: exI [of _ i])

lemma lmb_add_region_ready:
  assumes ready: "table_ready rgn" and add: "addable (block b s) (regs rgn)"
  shows "\<exists>r rgn'. lmb_add_region rgn b s = Some (r, rgn') \<and>
    (if r < 0 then r = -1 \<and> rgn' = rgn \<and> unat (cnt rgn) = MAX_LMB_REGIONS else added rgn (block b s) rgn')"
proof (cases "cnt rgn = 1 \<and> psize (region rgn ! 0) = 0")
  case True
  then have len: "length (region rgn) = MAX_LMB_REGIONS + 1" using ready by (auto simp: table_ready_def table_ok_def)
  let ?rgn = "rgn\<lparr>region := (region rgn)[0 := block b s]\<rparr>"
  have "regs ?rgn = [block b s]" "regs rgn = [region rgn ! 0]"
    using True len by (cases "region rgn"; simp add: regs_def)+
  moreover have "extent (region rgn ! 0) = {}" using True by (simp add: extent_def pend_def)
  ultimately have "added rgn (block b s) ?rgn"
    using add True len by (simp add: added_def table_ok_def separated_def addable_def)
  moreover have "lmb_add_region rgn b s = Some (0, ?rgn)"
    using True len by (simp add: lmb_add_region_def block_def)
  ultimately show ?thesis by (intro exI [of _ 0] exI [of _ ?rgn]) simp
next
  case False
  with ready have ok: "table_ok rgn" "cnt rgn \<noteq> 0" by (auto simp: table_ready_def)
  let ?n = "unat (cnt rgn)" and ?rs = "region rgn" and ?x = "block b s"
  have n: "length ?rs = MAX_LMB_REGIONS + 1" "?n \<le> MAX_LMB_REGIONS" "separated (regs rgn)"
    using ok by (auto simp: table_ok_def)
  have x: "pend ?x < 2 ^ 32" "psize ?x \<noteq> 0" using add by (auto simp: addable_def)
  have each: "psize (?rs ! k) \<noteq> 0 \<and> pend (?rs ! k) < 2 ^ 32 \<and> extent ?x \<inter> extent (?rs ! k) = {}" if "k < ?n" for k
    using regs_nth [OF that n(1,2)] n(3) add by (auto simp: separated_def addable_def covers_def)
  have start: "lmb_add_region rgn b s = (lmb_add_scan ?n 0 b s ?rs \<bind> (\<lambda>sc. case sc of
      Scan_return \<Rightarrow> Some (0, rgn)
    | _ \<Rightarrow> do {
        let (coalesced, i, rgn) =
          (case sc of Scan_break i rs \<Rightarrow> (1, i, rgn\<lparr>region := rs\<rparr>) | Scan_end i \<Rightarrow> (0 :: int, i, rgn)
           | Scan_return \<Rightarrow> (0, 0, rgn));
        (coalesced, rgn) \<leftarrow>
          (if of_nat i < cnt rgn - 1 then do {
             adj \<leftarrow> lmb_regions_adjacent rgn i (i + 1);
             if adj \<noteq> 0 then do {
               rgn \<leftarrow> lmb_coalesce_regions rgn i (i + 1);
               Some (coalesced + 1, rgn)
             }
             else Some (coalesced, rgn)
           }
           else Some (coalesced, rgn));
        if coalesced \<noteq> 0 then Some (coalesced, rgn)
        else if cnt rgn \<ge> of_nat MAX_LMB_REGIONS then Some (-1, rgn)
        else do {
          rs \<leftarrow> lmb_insert_loop (unat (cnt rgn)) b s (region rgn);
          p0 \<leftarrow> arr_get rs 0;
          rs \<leftarrow> (if b < pbase p0 then arr_set rs 0 (block b s) else Some rs);
          Some (0, rgn\<lparr>region := rs, cnt := cnt rgn + 1\<rparr>)
        }
      }))"
    unfolding lmb_add_region_def block_def using False n(1) by auto
  from lmb_add_scan_spec [OF x, of 0 ?n ?rs] n(1,2) each consider
      (none) "lmb_add_scan ?n 0 b s ?rs = Some (Scan_end ?n)" "\<forall>k < ?n. \<not> touches ?x (?rs ! k)"
    | (hit) k where "k < ?n" "touches ?x (?rs ! k)" "\<forall>m < k. \<not> touches ?x (?rs ! m)"
        "lmb_add_scan ?n 0 b s ?rs = Some (Scan_break k (?rs[k := merged ?x (?rs ! k)]))" by auto
  then show ?thesis
  proof cases
    case hit
    from add_merges [OF ok(1) add hit(1-3)] obtain c rgn' where
      "(if of_nat k < cnt (rgn\<lparr>region := ?rs[k := merged ?x (?rs ! k)]\<rparr>) - 1 then do {
          adj \<leftarrow> lmb_regions_adjacent (rgn\<lparr>region := ?rs[k := merged ?x (?rs ! k)]\<rparr>) k (k + 1);
          if adj \<noteq> 0 then do { rgn \<leftarrow> lmb_coalesce_regions (rgn\<lparr>region := ?rs[k := merged ?x (?rs ! k)]\<rparr>) k (k + 1); Some (1 + 1, rgn) }
          else Some (1, rgn\<lparr>region := ?rs[k := merged ?x (?rs ! k)]\<rparr>) }
        else Some (1 :: int, rgn\<lparr>region := ?rs[k := merged ?x (?rs ! k)]\<rparr>)) = Some (c, rgn')" "0 < c" "added rgn ?x rgn'"
      by blast
    then have "lmb_add_region rgn b s = Some (c, rgn')" "\<not> c < 0" "added rgn ?x rgn'"
      unfolding start hit(4) by simp_all
    then show ?thesis by auto
  next
    case none
    have "\<not> of_nat ?n < cnt rgn - 1"
      using ok(2) unat_minus_one [of "cnt rgn"] by (simp add: word_less_nat_alt)
    then have eq: "lmb_add_region rgn b s = (if cnt rgn \<ge> of_nat MAX_LMB_REGIONS then Some (-1, rgn)
        else do {
          rs \<leftarrow> lmb_insert_loop ?n b s ?rs;
          p0 \<leftarrow> arr_get rs 0;
          rs \<leftarrow> (if b < pbase p0 then arr_set rs 0 (block b s) else Some rs);
          Some (0, rgn\<lparr>region := rs, cnt := cnt rgn + 1\<rparr>)
        })"
      unfolding start none(1) by simp
    show ?thesis
    proof (cases "cnt rgn \<ge> of_nat MAX_LMB_REGIONS")
      case True
      then show ?thesis using n(2) eq by (simp add: word_le_nat_alt)
    next
      case False
      then have "?n < MAX_LMB_REGIONS" by (simp add: word_le_nat_alt not_le)
      moreover have "\<forall>p \<in> set (regs rgn). \<not> touches ?x p" using none(2) by (auto simp: regs_def in_set_conv_nth)
      ultimately obtain rs where rs: "do { rs \<leftarrow> lmb_insert_loop ?n b s ?rs; p0 \<leftarrow> arr_get rs 0;
          if b < pbase p0 then arr_set rs 0 ?x else Some rs } = Some rs"
          "added rgn ?x (rgn\<lparr>region := rs, cnt := cnt rgn + 1\<rparr>)"
        using add_inserts [OF ok _ add] by blast
      from rs(1) False have "lmb_add_region rgn b s = Some (0, rgn\<lparr>region := rs, cnt := cnt rgn + 1\<rparr>)"
        unfolding eq by (clarsimp simp: bind_Some_iff simp del: arr_get_Some_iff split del: if_split)
      with rs(2) show ?thesis by auto
    qed
  qed
qed

subsection \<open>Allocation\<close>

lemma lmb_overlaps_loop_none:
  "lmb_overlaps_loop n i base sz rs = Some (i + n) \<Longrightarrow> k < n \<Longrightarrow>
   \<not> lmb_addrs_overlap base sz (pbase (rs ! (i + k))) (psize (rs ! (i + k)))"
proof (induction n arbitrary: i k)
  case (Suc n)
  from Suc.prems(1) have "\<not> lmb_addrs_overlap base sz (pbase (rs ! i)) (psize (rs ! i))"
      "lmb_overlaps_loop n (i + 1) base sz rs = Some (i + 1 + n)"
    by (auto simp: arr_get_Some_iff bind_Some_iff split: if_splits)
  then show ?case using Suc.IH [of "i + 1" "k - 1"] Suc.prems(2) by (cases k) auto
qed simp

lemma lmb_overlaps_loop_total:
  "i + n \<le> length rs \<Longrightarrow> \<exists>j. lmb_overlaps_loop n i base sz rs = Some j"
  by (induction n arbitrary: i) auto

lemma table_ready_shape:
  assumes "table_ready rgn"
  shows "length (region rgn) = MAX_LMB_REGIONS + 1" "unat (cnt rgn) \<le> MAX_LMB_REGIONS" "cnt rgn \<noteq> 0"
  using assms by (auto simp: table_ready_def table_ok_def)

lemma overlaps_ready:
  assumes "table_ready rgn" "psize x \<noteq> 0" "pend x < 2 ^ 32"
  shows "\<exists>j. lmb_overlaps_region rgn (pbase x) (psize x) = Some j \<and>
    (j < 0 \<longrightarrow> extent x \<inter> covers (regs rgn) = {}) \<and>
    (\<not> j < 0 \<longrightarrow> nat j < unat (cnt rgn) \<and> unat (pbase (region rgn ! nat j)) < pend x)"
proof -
  let ?n = "unat (cnt rgn)" and ?rs = "region rgn"
  note sh = table_ready_shape [OF assms(1)]
  from sh lmb_overlaps_loop_total [of 0 ?n ?rs] obtain j where
    j: "lmb_overlaps_loop ?n 0 (pbase x) (psize x) ?rs = Some j" by auto
  note b = lmb_overlaps_loop_bounds [OF j]
  show ?thesis
  proof (cases "j < ?n")
    case True
    with b have "pbase (?rs ! j) < pbase x + psize x" by (simp add: lmb_addrs_overlap_def)
    then have "unat (pbase (?rs ! j)) < pend x" using unat_end [OF assms(3)] by (simp add: word_less_nat_alt)
    with True j show ?thesis by (simp add: lmb_overlaps_region_def)
  next
    case False
    with b j have all: "lmb_overlaps_loop ?n 0 (pbase x) (psize x) ?rs = Some (0 + ?n)" by simp
    have "extent x \<inter> extent p = {}" if "p \<in> set (regs rgn)" for p
    proof (cases "psize p = 0")
      case True
      then show ?thesis by (simp add: extent_def pend_def)
    next
      case False
      from that obtain k where k: "k < ?n" "p = ?rs ! k" by (auto simp: regs_def in_set_conv_nth)
      have "pend p < 2 ^ 32"
      proof (cases "table_ok rgn")
        case True
        then show ?thesis using that by (auto simp: table_ok_def separated_def)
      next
        case False
        with assms(1) k \<open>psize p \<noteq> 0\<close> show ?thesis by (simp add: table_ready_def)
      qed
      then show ?thesis
        using lmb_overlaps_loop_none [OF all k(1)] overlap_nat [OF assms(3)] extent_disjoint [OF assms(2) False] k(2)
        by auto
    qed
    then show ?thesis using False j by (auto simp: lmb_overlaps_region_def covers_def)
  qed
qed

lemma align_mask:
  assumes "k < 32" shows "lmb_align_down a (2 ^ k) = push_bit k (drop_bit k a)"
proof -
  have "(2 :: u32) ^ k - 1 = mask k" by (simp add: mask_eq_exp_minus_1)
  then show ?thesis by (simp add: lmb_align_down_def) (rule bit_word_eqI, auto simp: bit_simps)
qed

lemma align_down_dvd: "k < 32 \<Longrightarrow> 2 ^ k dvd unat (lmb_align_down a (2 ^ k))"
proof -
  assume k: "k < 32"
  have "take_bit k (lmb_align_down a (2 ^ k)) = 0"
    unfolding align_mask [OF k] by (rule bit_word_eqI) (auto simp: bit_simps)
  then have "take_bit k (unat (lmb_align_down a (2 ^ k))) = 0"
    by (metis unsigned_0 unsigned_take_bit_eq)
  then show ?thesis by (simp add: take_bit_eq_mod mod_eq_0_iff_dvd)
qed

text \<open>
  An allocated block: aligned, not address 0, within a memory region and below the limit, apart from
  everything reserved before, and reserved now.
\<close>

definition allocated :: "lmb \<Rightarrow> u32 \<Rightarrow> u32 \<Rightarrow> u32 \<Rightarrow> u32 \<Rightarrow> lmb \<Rightarrow> bool" where
  "allocated l sz align max_addr a l' \<longleftrightarrow>
     a \<noteq> 0 \<and> unat align dvd unat a \<and>
     (\<exists>p \<in> set (regs (memory l)). extent (block a sz) \<subseteq> extent p) \<and>
     (max_addr \<noteq> 0 \<longrightarrow> unat a + unat sz \<le> unat max_addr) \<and>
     extent (block a sz) \<inter> covers (regs (reserved l)) = {} \<and>
     memory l' = memory l \<and> added (reserved l) (block a sz) (reserved l')"

lemma alloc_while_ok:
  assumes "table_ready (reserved l)" "sz \<noteq> 0" "lmb_align_up sz (2 ^ k) = sz" "k < 32"
    and "unat base + unat sz \<le> E" "E < 2 ^ 32" "2 ^ k dvd unat base"
  shows "\<exists>r. lmb_alloc_while l sz (2 ^ k) lmbbase base = Some r \<and>
    (case r of None \<Rightarrow> True
     | Some (a, l') \<Rightarrow> if a = 0 then l' = l else lmbbase \<le> a \<and> unat a + unat sz \<le> E \<and> 2 ^ k dvd unat a \<and>
         extent (block a sz) \<inter> covers (regs (reserved l)) = {} \<and>
         memory l' = memory l \<and> added (reserved l) (block a sz) (reserved l'))"
  using assms(5,7)
proof (induction "unat base" arbitrary: base rule: less_induct)
  case less
  show ?case
  proof (cases "base \<noteq> 0 \<and> lmbbase \<le> base")
    case False
    then have "lmb_alloc_while l sz (2 ^ k) lmbbase base = Some None" by (subst lmb_alloc_while.simps) auto
    then show ?thesis by simp
  next
    case True
    have x: "psize (block base sz) \<noteq> 0" "pend (block base sz) < 2 ^ 32"
      using assms(2,6) less.prems by (auto simp: pend_def)
    from overlaps_ready [OF assms(1) x] obtain j where j: "lmb_overlaps_region (reserved l) base sz = Some j"
      "j < 0 \<longrightarrow> extent (block base sz) \<inter> covers (regs (reserved l)) = {}"
      "\<not> j < 0 \<longrightarrow> nat j < unat (cnt (reserved l)) \<and> unat (pbase (region (reserved l) ! nat j)) < pend (block base sz)"
      by auto
    show ?thesis
    proof (cases "j < 0")
      case neg: True
      then have "addable (block base sz) (regs (reserved l))" using j(2) x by (simp add: addable_def)
      from lmb_add_region_ready [OF assms(1) this] obtain r rgn where
        r: "lmb_add_region (reserved l) base sz = Some (r, rgn)"
          "if r < 0 then r = -1 \<and> rgn = reserved l \<and> unat (cnt (reserved l)) = MAX_LMB_REGIONS
           else added (reserved l) (block base sz) rgn" by auto
      have "lmb_alloc_while l sz (2 ^ k) lmbbase base = Some (Some (if r < 0 then 0 else base, l\<lparr>reserved := rgn\<rparr>))"
        by (subst lmb_alloc_while.simps) (simp add: True j(1) neg r(1) assms(3))
      then show ?thesis using r(2) True j(2) neg less.prems by (auto split: if_splits)
    next
      case pos: False
      let ?p = "region (reserved l) ! nat j"
      have g: "arr_get (region (reserved l)) (nat j) = Some ?p"
        using pos j(3) table_ready_shape [OF assms(1)] by simp
      have eq: "lmb_alloc_while l sz (2 ^ k) lmbbase base =
          (if pbase ?p < sz then Some None
           else lmb_alloc_while l sz (2 ^ k) lmbbase (lmb_align_down (pbase ?p - sz) (2 ^ k)))"
        by (subst lmb_alloc_while.simps) (simp add: True j(1) pos g)
      show ?thesis
      proof (cases "pbase ?p < sz")
        case True
        then show ?thesis using eq by simp
      next
        case False
        let ?b = "lmb_align_down (pbase ?p - sz) (2 ^ k)"
        have "unat ?b \<le> unat (pbase ?p - sz)" using lmb_align_down_le by (simp add: word_le_nat_alt)
        also have "\<dots> = unat (pbase ?p) - unat sz" using False by (simp add: unat_sub word_le_nat_alt word_less_nat_alt)
        finally have "unat ?b + unat sz \<le> unat (pbase ?p)" using False by (simp add: word_less_nat_alt)
        then have "unat ?b + unat sz \<le> E" using j(3) pos less.prems by (simp add: pend_def)
        with less.hyps [OF lmb_alloc_decreases [OF j(1) pos g False]] align_down_dvd [OF assms(4)] False eq
        show ?thesis by simp
      qed
    qed
  qed
qed

lemma alloc_loop_ok:
  assumes "table_ok (memory l)" "table_ready (reserved l)" "sz \<noteq> 0" "lmb_align_up sz (2 ^ k) = sz" "k < 32"
    and "max_addr = 0 \<or> sz \<le> max_addr" "n \<le> unat (cnt (memory l))"
  shows "\<exists>a l'. lmb_alloc_loop n l sz (2 ^ k) max_addr = Some (a, l') \<and>
    (if a = 0 then l' = l else allocated l sz (2 ^ k) max_addr a l')"
  using assms(7)
proof (induction n)
  case 0
  then show ?case by simp
next
  case (Suc i)
  let ?p = "region (memory l) ! i"
  have i: "i < length (region (memory l))" using Suc.prems assms(1) by (simp add: table_ok_def)
  have p: "?p \<in> set (regs (memory l))" using regs_nth [of i "memory l"] Suc.prems assms(1) by (simp add: table_ok_def)
  then have e: "pend ?p < 2 ^ 32" using assms(1) by (auto simp: table_ok_def separated_def)
  from Suc obtain a l' where IH: "lmb_alloc_loop i l sz (2 ^ k) max_addr = Some (a, l')"
    "if a = 0 then l' = l else allocated l sz (2 ^ k) max_addr a l'" by auto
  let ?skip = "psize ?p < sz \<or> max_addr \<noteq> 0 \<and> \<not> pbase ?p < max_addr"
  let ?top = "if max_addr = 0 then pbase ?p + psize ?p else min (pbase ?p + psize ?p) max_addr"
  let ?b = "lmb_align_down (?top - sz) (2 ^ k)"
  have eq: "lmb_alloc_loop (Suc i) l sz (2 ^ k) max_addr = (if ?skip then Some (a, l') else
      lmb_alloc_while l sz (2 ^ k) (pbase ?p) ?b \<bind>
        (\<lambda>r. case r of Some (a, l) \<Rightarrow> Some (a, l) | None \<Rightarrow> Some (a, l')))"
    using i IH(1) by (auto simp: Let_def split: option.splits)
  show ?case
  proof (cases ?skip)
    case True
    then show ?thesis using IH(2) unfolding eq by simp
  next
    case False
    have top: "sz \<le> ?top" "unat ?top \<le> pend ?p" "max_addr \<noteq> 0 \<longrightarrow> ?top \<le> max_addr"
      using False assms(6) unat_end [OF e] by (auto simp: word_le_nat_alt word_less_nat_alt pend_def min_def)
    have "unat ?b \<le> unat (?top - sz)" using lmb_align_down_le by (simp only: word_le_nat_alt)
    also have "\<dots> = unat ?top - unat sz" using top(1) by (simp only: unat_sub)
    finally have b: "unat ?b + unat sz \<le> unat ?top" using top(1) by (simp only: word_le_nat_alt)
    have "unat ?top < 2 ^ 32" using top(2) e by linarith
    from alloc_while_ok [OF assms(2-5) b this align_down_dvd [OF assms(5)], of "pbase ?p"] obtain r where
      r: "lmb_alloc_while l sz (2 ^ k) (pbase ?p) ?b = Some r"
      "case r of None \<Rightarrow> True
       | Some (a, l') \<Rightarrow> if a = 0 then l' = l else pbase ?p \<le> a \<and> unat a + unat sz \<le> unat ?top \<and> 2 ^ k dvd unat a \<and>
           extent (block a sz) \<inter> covers (regs (reserved l)) = {} \<and>
           memory l' = memory l \<and> added (reserved l) (block a sz) (reserved l')" by blast
    have al: "allocated l sz (2 ^ k) max_addr a l'" if "a \<noteq> 0" "pbase ?p \<le> a" "unat a + unat sz \<le> unat ?top" "2 ^ k dvd unat a"
        "extent (block a sz) \<inter> covers (regs (reserved l)) = {}"
        "memory l' = memory l" "added (reserved l) (block a sz) (reserved l')" for a l'
    proof -
      have "extent (block a sz) \<subseteq> extent ?p"
        using that(2,3) top(2) unfolding extent_def pend_def word_le_nat_alt by auto
      moreover have "max_addr \<noteq> 0 \<longrightarrow> unat a + unat sz \<le> unat max_addr"
        using that(3) top(3) unfolding word_le_nat_alt by linarith
      moreover have "unat (word_of_nat (2 ^ k) :: u32) = 2 ^ k" using assms(5)
        by (simp add: unsigned_of_nat take_bit_nat_eq_self del: of_nat_power)
      ultimately show ?thesis using that p by (auto simp: allocated_def)
    qed
    show ?thesis
    proof (cases r)
      case None
      then show ?thesis using False IH(2) r(1) unfolding eq by simp
    next
      case (Some x)
      then show ?thesis using False r al unfolding eq by (cases x) (auto split: if_splits)
    qed
  qed
qed

subsection \<open>Release and lookup\<close>

lemma lmb_free_scan_hit:
  "i + n \<le> length rs \<Longrightarrow> \<exists>k. i \<le> k \<and> k < i + n \<and> pbase (rs ! k) \<le> b \<and> e \<le> pbase (rs ! k) + psize (rs ! k) \<Longrightarrow>
   \<exists>k. i \<le> k \<and> k < i + n \<and> pbase (rs ! k) \<le> b \<and> e \<le> pbase (rs ! k) + psize (rs ! k) \<and>
     lmb_free_scan n i b e rs = Some k"
proof (induction n arbitrary: i)
  case (Suc n)
  let ?hit = "\<lambda>k. pbase (rs ! k) \<le> b \<and> e \<le> pbase (rs ! k) + psize (rs ! k)"
  show ?case
  proof (cases "?hit i")
    case True
    then show ?thesis using Suc.prems(1) by (intro exI [of _ i]) auto
  next
    case False
    from Suc.prems(2) obtain k where k: "i \<le> k" "k < i + Suc n" "?hit k" by blast
    then have "i + 1 \<le> k" using False by (metis Suc_eq_plus1 le_neq_implies_less Suc_leI)
    with k have "\<exists>k. i + 1 \<le> k \<and> k < i + 1 + n \<and> ?hit k" by auto
    from Suc.IH [OF _ this] Suc.prems(1) obtain k where
      "i + 1 \<le> k" "k < i + 1 + n" "?hit k" "lmb_free_scan n (i + 1) b e rs = Some k" by auto
    then show ?thesis using False Suc.prems(1) by (intro exI [of _ k]) (auto simp: Let_def)
  qed
qed auto

lemma separated_apart:
  assumes "separated (P @ p # Q)" shows "covers P \<inter> extent p = {}" "covers Q \<inter> extent p = {}"
  using assms by (fastforce simp: separated_append separated_Cons covers_def extent_def pend_def)+

lemma extent_hole:
  assumes "pend x < 2 ^ 32" "pend p < 2 ^ 32" "psize x \<noteq> 0" "pbase p \<le> pbase x" "pbase x + psize x \<le> pbase p + psize p"
  shows "unat (pbase p) \<le> unat (pbase x)" "pend x \<le> pend p" "unat (pbase x) < pend x"
  using assms pbase_less_pend by (simp_all add: word_le_nat_alt unat_end)

lemma regs_update: "k < unat (cnt rgn) \<Longrightarrow> unat (cnt rgn) \<le> length (region rgn) \<Longrightarrow>
    regs (rgn\<lparr>region := (region rgn)[k := q]\<rparr>) = take k (regs rgn) @ q # drop (Suc k) (regs rgn)"
  unfolding regs_def using upd_conv_take_nth_drop [of k "take (unat (cnt rgn)) (region rgn)" q]
  by (simp add: take_update_swap)

lemma separated_update:
  assumes "separated (P @ p # Q)" "unat (pbase p) \<le> unat (pbase q)" "pend q \<le> pend p" "psize q \<noteq> 0"
  shows "separated (P @ q # Q)"
  using assms by (fastforce simp: separated_append separated_Cons)

lemma lmb_free_ok:
  assumes ok: "table_ok (reserved l)" "unat (cnt (reserved l)) < MAX_LMB_REGIONS"
    and x: "psize (block b s) \<noteq> 0" "p0 \<in> set (regs (reserved l))" "extent (block b s) \<subseteq> extent p0"
  shows "\<exists>r l'. lmb_free l b s = Some (r, l') \<and> \<not> r < 0 \<and> memory l' = memory l \<and> table_ok (reserved l') \<and>
    covers (regs (reserved l')) = covers (regs (reserved l)) - extent (block b s)"
proof -
  let ?rgn = "reserved l" and ?x = "block b s"
  let ?n = "unat (cnt ?rgn)" and ?rs = "region ?rgn" and ?L = "regs ?rgn"
  have n: "length ?rs = MAX_LMB_REGIONS + 1" "?n < MAX_LMB_REGIONS" "separated ?L" "length ?L = ?n"
    using ok by (auto simp: table_ok_def regs_def)
  from x(2) obtain k0 where k0: "k0 < ?n" "p0 = ?rs ! k0" by (auto simp: regs_def in_set_conv_nth)
  have p0: "pend p0 < 2 ^ 32" using n(3) x(2) by (auto simp: separated_def)
  have "unat b \<in> extent p0" "pend ?x - 1 \<in> extent p0"
    using x(1,3) pbase_less_pend [OF x(1)] by (auto simp: extent_def)
  then have b0: "unat (pbase p0) \<le> unat b" "pend ?x \<le> pend p0" using pbase_less_pend [OF x(1)] by (auto simp: extent_def)
  then have xe: "pend ?x < 2 ^ 32" using p0 by linarith
  have "pbase p0 \<le> b" "b + s \<le> pbase p0 + psize p0"
    using b0 unat_end [OF p0] unat_end [OF xe] by (simp_all add: word_le_nat_alt)
  with k0 lmb_free_scan_hit [of 0 ?n ?rs b "b + s"] n(1,2) obtain k where k: "k < ?n"
    "pbase (?rs ! k) \<le> b" "b + s \<le> pbase (?rs ! k) + psize (?rs ! k)" "lmb_free_scan ?n 0 b (b + s) ?rs = Some k" by auto
  define p where "p = ?rs ! k"
  define P where "P = take k ?L"
  define Q where "Q = drop (Suc k) ?L"
  have "?L ! k = p" using k(1) by (simp add: regs_def p_def)
  then have L: "?L = P @ p # Q" using k(1) n(4) id_take_nth_drop [of k ?L] unfolding P_def Q_def by simp
  note sep = n(3) [unfolded L]
  have pe: "pend p < 2 ^ 32" "psize p \<noteq> 0" using sep by (auto simp: separated_append separated_Cons)
  have h: "unat (pbase p) \<le> unat b" "pend ?x \<le> pend p" "unat b < pend ?x"
    using extent_hole [OF xe pe(1) x(1)] k(2,3) by (simp_all add: p_def)
  have "extent ?x \<subseteq> extent p" using h by (auto simp: extent_def)
  then have rest: "covers ?L - extent ?x = covers P \<union> (extent p - extent ?x) \<union> covers Q"
    using separated_apart [OF sep] unfolding L by auto
  have ends: "b + s = pbase p + psize p \<longleftrightarrow> pend ?x = pend p"
    using unat_end [OF xe] unat_end [OF pe(1)] by (simp add: word_unat_eq_iff)
  have sub: "unat (psize p - s) = unat (psize p) - unat s" "unat s \<le> unat (psize p)"
    using h by (simp_all add: pend_def unat_sub word_le_nat_alt)
  let ?upd = "\<lambda>q. ?rgn\<lparr>region := ?rs[k := q]\<rparr>"
  have upd: "regs (?upd q) = P @ q # Q" for q
    using k(1) n regs_update by (simp add: P_def Q_def)
  have okq: "table_ok (?upd q)" if "unat (pbase p) \<le> unat (pbase q)" "pend q \<le> pend p" "psize q \<noteq> 0" for q
    using separated_update [OF sep that] n by (simp add: table_ok_def upd)
  have eq: "lmb_free l b s = (if pbase p = b \<and> pbase p + psize p = b + s then do {
         rgn \<leftarrow> lmb_remove_region ?rgn k;
         Some (0, l\<lparr>reserved := rgn\<rparr>)
       }
       else if pbase p = b then Some (0, l\<lparr>reserved := ?upd (block (b + s) (psize p - s))\<rparr>)
       else if pbase p + psize p = b + s then Some (0, l\<lparr>reserved := ?upd (p\<lparr>psize := psize p - s\<rparr>)\<rparr>)
       else do {
         (r, rgn) \<leftarrow> lmb_add_region (?upd (p\<lparr>psize := b - pbase p\<rparr>)) (b + s) (pbase p + psize p - (b + s));
         Some (r, l\<lparr>reserved := rgn\<rparr>)
       })"
    using k(1,4) n by (simp add: lmb_free_def Let_def p_def block_def)
  consider (all) "pbase p = b" "pend ?x = pend p" | (front) "pbase p = b" "pend ?x < pend p"
    | (rear) "unat (pbase p) < unat b" "pend ?x = pend p" | (mid) "unat (pbase p) < unat b" "pend ?x < pend p"
    using h by (metis le_neq_implies_less word_unat_eq_iff)
  then show ?thesis
  proof cases
    case all
    from regs_remove [of ?rgn k] n k(1) obtain rgn where
      r: "lmb_remove_region ?rgn k = Some rgn" "regs rgn = P @ Q" "length (region rgn) = MAX_LMB_REGIONS + 1"
        "unat (cnt rgn) = ?n - 1" by (auto simp: P_def Q_def)
    have "separated (P @ Q)" using sep by (auto simp: separated_append separated_Cons)
    moreover have "extent p = extent ?x" using all by (simp add: extent_def)
    moreover have "lmb_free l b s = Some (0, l\<lparr>reserved := rgn\<rparr>)" using all ends r(1) unfolding eq by simp
    ultimately show ?thesis using r n rest by (simp add: table_ok_def)
  next
    case front
    let ?q = "block (b + s) (psize p - s)"
    have q: "unat (pbase ?q) = pend ?x" "pend ?q = pend p" "psize ?q \<noteq> 0"
      using front sub unat_end [OF xe] by (auto simp: pend_def word_eq_0_unat)
    then have "extent p - extent ?x = extent ?q" using front h by (auto simp: extent_def)
    moreover have "table_ok (?upd ?q)" using q h by (intro okq) auto
    ultimately show ?thesis using front ends rest unfolding eq by (simp add: upd Un_assoc)
  next
    case rear
    let ?q = "p\<lparr>psize := psize p - s\<rparr>"
    have q: "pbase ?q = pbase p" "pend ?q = unat b" "psize ?q \<noteq> 0"
      using rear sub h by (auto simp: pend_def word_eq_0_unat)
    then have "extent p - extent ?x = extent ?q" using rear h by (auto simp: extent_def)
    moreover have "table_ok (?upd ?q)" using q h by (intro okq) auto
    moreover have "pbase p \<noteq> b" using rear by auto
    ultimately show ?thesis using rear ends rest unfolding eq by (simp add: upd Un_assoc)
  next
    case mid
    let ?q = "p\<lparr>psize := b - pbase p\<rparr>" and ?t = "block (b + s) (pbase p + psize p - (b + s))"
    have bq: "unat (b - pbase p) = unat b - unat (pbase p)" using mid by (simp add: unat_sub word_le_nat_alt)
    have q: "pbase ?q = pbase p" "pend ?q = unat b" "psize ?q \<noteq> 0"
      using mid bq by (auto simp: pend_def word_eq_0_unat)
    have "unat (pbase p + psize p - (b + s)) = pend p - pend ?x"
      using mid unat_end [OF xe] unat_end [OF pe(1)] by (simp add: unat_sub word_le_nat_alt)
    then have t: "unat (pbase ?t) = pend ?x" "pend ?t = pend p" "psize ?t \<noteq> 0"
      using mid unat_end [OF xe] by (auto simp: pend_def word_eq_0_unat)
    have ext: "extent p - extent ?x = extent ?q \<union> extent ?t" "extent ?t \<inter> extent ?q = {}" "extent ?t \<subseteq> extent p"
      using q t h by (auto simp: extent_def)
    have okt: "table_ok (?upd ?q)" using q h by (intro okq) auto
    have ready: "table_ready (?upd ?q)" using okt k(1) by (auto simp: table_ready_def)
    have "addable ?t (regs (?upd ?q))"
      using t(2,3) pe(1) ext separated_apart [OF sep] by (auto simp: addable_def upd)
    from lmb_add_region_ready [OF ready this] n(2) obtain r rgn where
      "lmb_add_region (?upd ?q) (b + s) (pbase p + psize p - (b + s)) = Some (r, rgn)" "\<not> r < 0" "added (?upd ?q) ?t rgn"
      by (auto split: if_splits)
    moreover have "pbase p \<noteq> b" "b + s \<noteq> pbase p + psize p" using mid ends by auto
    ultimately show ?thesis using rest ext(1) unfolding eq by (auto simp: added_def upd)
  qed
qed

lemma reserved_hit:
  assumes p: "psize p \<noteq> 0" "pend p < 2 ^ 32"
  shows "a \<ge> pbase p \<and> a \<le> pbase p + psize p - 1 \<longleftrightarrow> unat a \<in> extent p"
proof -
  have "unat (pbase p + psize p) = pend p" by (rule unat_end [OF p(2)])
  moreover have "pbase p + psize p \<noteq> 0"
    using calculation pbase_less_pend [OF p(1)] by (metis not_less_zero unsigned_0)
  ultimately have "unat (pbase p + psize p - 1) = pend p - 1" by (simp add: unat_minus_one)
  then show ?thesis using pbase_less_pend [OF p(1)] unfolding word_le_nat_alt extent_def by auto
qed

lemma lmb_is_reserved_loop_spec:
  "i + n \<le> length rs \<Longrightarrow> \<forall>k. i \<le> k \<and> k < i + n \<longrightarrow> psize (rs ! k) \<noteq> 0 \<and> pend (rs ! k) < 2 ^ 32 \<Longrightarrow>
   lmb_is_reserved_loop n i a rs = Some (\<exists>k \<in> {i..<i + n}. unat a \<in> extent (rs ! k))"
proof (induction n arbitrary: i)
  case (Suc n)
  have hit: "a \<ge> pbase (rs ! i) \<and> a \<le> pbase (rs ! i) + psize (rs ! i) - 1 \<longleftrightarrow> unat a \<in> extent (rs ! i)"
    using Suc.prems(2) by (intro reserved_hit) auto
  have "lmb_is_reserved_loop n (i + 1) a rs = Some (\<exists>k \<in> {i + 1..<i + 1 + n}. unat a \<in> extent (rs ! k))"
    using Suc.prems by (intro Suc.IH) auto
  then have "lmb_is_reserved_loop (Suc n) i a rs =
      Some (unat a \<in> extent (rs ! i) \<or> (\<exists>k \<in> {i + 1..<i + 1 + n}. unat a \<in> extent (rs ! k)))"
    using Suc.prems(1) hit by (simp add: Let_def)
  moreover have "{i..<i + Suc n} = insert i {i + 1..<i + 1 + n}" by auto
  ultimately show ?case by simp
qed simp

subsection \<open>The operations\<close>

text \<open>A table as the boot commands set it up on this board: 256 MB of memory, the last 16 MB reserved.\<close>

definition board_lmb :: lmb where
  "board_lmb = (let free = replicate 8 (block 0 0) in
     \<lparr>memory = \<lparr>cnt = 1, rsize = 0, region = block 0x20000000 0x10000000 # free\<rparr>,
      reserved = \<lparr>cnt = 1, rsize = 0, region = block 0x2F000000 0x1000000 # free\<rparr>\<rparr>)"

lemma board_lmb_simps:
  "cnt (memory board_lmb) = 1" "cnt (reserved board_lmb) = 1"
  "region (memory board_lmb) = block 0x20000000 0x10000000 # replicate 8 (block 0 0)"
  "region (reserved board_lmb) = block 0x2F000000 0x1000000 # replicate 8 (block 0 0)"
  by (simp_all add: board_lmb_def Let_def)

lemma board_lmb_ok:
  "table_ok (memory board_lmb)" "table_ok (reserved board_lmb)" "table_ready (reserved board_lmb)"
  "regs (reserved board_lmb) = [block 0x2F000000 0x1000000]"
  by (simp_all add: table_ready_def table_ok_def regs_def board_lmb_simps separated_def pend_def)

text \<open>
  C9. Reserving a block that is not empty, does not wrap and meets no reserved region: the call always
  returns; a negative result is -1, comes only from a table that has all eight entries in use, and
  leaves everything as it was; any other result leaves a sorted table of pairwise separated regions
  that covers exactly the old addresses and those of the block, and the memory table as it was.
\<close>

theorem lmb_reserve_adds:
  assumes "table_ready (reserved l)" "addable (block b s) (regs (reserved l))"
  shows "\<exists>r l'. lmb_reserve l b s = Some (r, l') \<and>
    (if r < 0 then r = -1 \<and> l' = l \<and> unat (cnt (reserved l)) = MAX_LMB_REGIONS
     else memory l' = memory l \<and> table_ok (reserved l') \<and> cnt (reserved l') \<noteq> 0 \<and>
       covers (regs (reserved l')) = covers (regs (reserved l)) \<union> extent (block b s))"
proof -
  from lmb_add_region_ready [OF assms] obtain r rgn where
    "lmb_add_region (reserved l) b s = Some (r, rgn)"
    "if r < 0 then r = -1 \<and> rgn = reserved l \<and> unat (cnt (reserved l)) = MAX_LMB_REGIONS
     else added (reserved l) (block b s) rgn" by blast
  then show ?thesis
    by (intro exI [of _ r] exI [of _ "l\<lparr>reserved := rgn\<rparr>"]) (simp add: lmb_reserve_def added_def split: if_splits)
qed

theorem lmb_reserve_adds_witness:
  "\<exists>r l'. lmb_reserve board_lmb 0x20008000 0x400000 = Some (r, l') \<and> \<not> r < 0 \<and>
     covers (regs (reserved l')) = covers (regs (reserved board_lmb)) \<union> extent (block 0x20008000 0x400000)"
proof -
  have "addable (block 0x20008000 0x400000) (regs (reserved board_lmb))"
    by (auto simp: addable_def board_lmb_ok pend_def extent_def)
  from lmb_reserve_adds [OF board_lmb_ok(3) this] show ?thesis
    by (fastforce simp: board_lmb_simps split: if_splits)
qed

text \<open>
  C26. Allocation with a power of two as alignment, a size that is a multiple of it and a limit that is
  0 (none) or at least the size: the call always returns; address 0 means nothing has changed; any
  other address is aligned, the block lies inside one memory region, ends at or below the limit,
  meets no reserved region, and is reserved afterwards.
\<close>

theorem lmb_alloc_base_allocates:
  assumes "table_ok (memory l)" "table_ready (reserved l)" "sz \<noteq> 0" "lmb_align_up sz (2 ^ k) = sz" "k < 32"
    and "max_addr = 0 \<or> sz \<le> max_addr"
  shows "\<exists>a l'. lmb_alloc_base l sz (2 ^ k) max_addr = Some (a, l') \<and>
    (if a = 0 then l' = l else allocated l sz (2 ^ k) max_addr a l')"
proof -
  let ?n = "unat (cnt (memory l))"
  have "?n \<le> 8" using assms(1) by (simp add: table_ok_def)
  then have "nat (sint (cnt (memory l) - 1) + 1) = ?n"
  proof (cases "cnt (memory l) = 0")
    case False
    then have "unat (cnt (memory l) - 1) = ?n - 1" by (rule unat_minus_one)
    then have "uint (cnt (memory l) - 1) = int (?n - 1)" by (metis uint_nat)
    then have "sint (cnt (memory l) - 1) = int (?n - 1)"
      using \<open>?n \<le> 8\<close> by (simp add: sint_uint signed_take_bit_int_eq_self)
    then show ?thesis using False by (simp add: word_eq_0_unat)
  qed simp
  then show ?thesis
    using alloc_loop_ok [OF assms, of ?n] by (simp add: lmb_alloc_base_def lmb_alloc_base0_def)
qed

theorem lmb_alloc_base_allocates_witness:
  "\<exists>a l'. lmb_alloc_base board_lmb 0x3000 (2 ^ 12) 0x28000000 = Some (a, l') \<and>
     (if a = 0 then l' = board_lmb else allocated board_lmb 0x3000 (2 ^ 12) 0x28000000 a l')"
  by (rule lmb_alloc_base_allocates [OF board_lmb_ok(1,3)]) (simp_all add: lmb_align_up_def)

text \<open>
  C27. Freeing a block that lies inside one reserved region, with fewer than eight regions in use: the
  call succeeds, the table stays sorted and separated, and it covers the old addresses except those of
  the block, whether the block is the whole region, its start, its end or a part in the middle.
\<close>

theorem lmb_free_releases:
  assumes "table_ok (reserved l)" "unat (cnt (reserved l)) < MAX_LMB_REGIONS" "s \<noteq> 0"
    and "p \<in> set (regs (reserved l))" "extent (block b s) \<subseteq> extent p"
  shows "\<exists>r l'. lmb_free l b s = Some (r, l') \<and> \<not> r < 0 \<and> memory l' = memory l \<and> table_ok (reserved l') \<and>
    covers (regs (reserved l')) = covers (regs (reserved l)) - extent (block b s)"
  using assms by (intro lmb_free_ok) simp_all

theorem lmb_free_releases_witness:
  "\<exists>r l'. lmb_free board_lmb 0x2F100000 0x1000 = Some (r, l') \<and> \<not> r < 0 \<and> memory l' = memory board_lmb \<and>
     table_ok (reserved l') \<and>
     covers (regs (reserved l')) = covers (regs (reserved board_lmb)) - extent (block 0x2F100000 0x1000)"
  by (rule lmb_free_releases [OF board_lmb_ok(2), where p = "block 0x2F000000 0x1000000"])
    (auto simp: board_lmb_simps board_lmb_ok extent_def pend_def)

text \<open>
  On a table of regions in good order, an address is reported reserved exactly when a region
  covers it.
\<close>

theorem lmb_is_reserved_iff:
  assumes "table_ok (reserved l)"
  shows "lmb_is_reserved l a = Some (unat a \<in> covers (regs (reserved l)))"
proof -
  let ?n = "unat (cnt (reserved l))" and ?rs = "region (reserved l)"
  have "\<forall>k. 0 \<le> k \<and> k < 0 + ?n \<longrightarrow> psize (?rs ! k) \<noteq> 0 \<and> pend (?rs ! k) < 2 ^ 32"
    using assms regs_nth [of _ "reserved l"] by (auto simp: table_ok_def separated_def)
  from lmb_is_reserved_loop_spec [OF _ this, of a] assms
  have "lmb_is_reserved l a = Some (\<exists>k < ?n. unat a \<in> extent (?rs ! k))"
    by (simp add: lmb_is_reserved_def table_ok_def Bex_def)
  moreover have "(\<exists>k < ?n. unat a \<in> extent (?rs ! k)) \<longleftrightarrow> unat a \<in> covers (regs (reserved l))"
    using list_ex_iff [of "\<lambda>p. unat a \<in> extent p" "regs (reserved l)"] assms
    by (simp add: list_ex_length covers_def regs_def table_ok_def conj_commute cong: conj_cong)
  ultimately show ?thesis by simp
qed

theorem lmb_is_reserved_iff_witness:
  "lmb_is_reserved board_lmb 0x2F000000 = Some (unat (0x2F000000 :: u32) \<in> covers (regs (reserved board_lmb)))"
  by (rule lmb_is_reserved_iff [OF board_lmb_ok(2)])

text \<open>
  A reservation that is lost. Freeing the only reserved region leaves the count at 0 with the freed
  region still in the array; a following reservation at a higher address reports success, but the
  table then holds the freed region again and not the new one.
\<close>

theorem lmb_reserve_after_free_lost:
  assumes "cnt (reserved l) = 1" "length (region (reserved l)) = MAX_LMB_REGIONS + 1"
    and "region (reserved l) ! 0 = block b s" "region (reserved l) ! 1 = block 0 0"
    and "b \<noteq> 0" "b + s \<noteq> 0" "b < b'"
  shows "\<exists>l1 l2. lmb_free l b s = Some (0, l1) \<and> lmb_reserve l1 b' s' = Some (0, l2) \<and>
    regs (reserved l2) = [block b s]"
proof -
  let ?r1 = "reserved l\<lparr>cnt := 0\<rparr>"
  have "lmb_remove_region (reserved l) 0 = Some ?r1"
    using assms(1) by (simp add: lmb_remove_region_def)
  then have freed: "lmb_free l b s = Some (0, l\<lparr>reserved := ?r1\<rparr>)"
    using assms(1-3) by (simp add: lmb_free_def Let_def)
  have "lmb_regions_adjacent ?r1 0 1 = Some 0"
    using assms(2-5) assms(6) [symmetric] by (simp add: lmb_regions_adjacent_def lmb_addrs_adjacent_def)
  moreover have "\<not> b' < b" using assms(7) by simp
  ultimately have "lmb_add_region ?r1 b' s' = Some (0, ?r1\<lparr>cnt := 1\<rparr>)"
    using assms(2,3) by (simp add: lmb_add_region_def)
  then have "lmb_reserve (l\<lparr>reserved := ?r1\<rparr>) b' s' = Some (0, l\<lparr>reserved := ?r1\<lparr>cnt := 1\<rparr>\<rparr>)"
    by (simp add: lmb_reserve_def)
  moreover have "regs (?r1\<lparr>cnt := 1\<rparr>) = [block b s]"
    using assms(2,3) by (cases "region (reserved l)") (simp_all add: regs_def)
  ultimately show ?thesis
    using freed by (intro exI [of _ "l\<lparr>reserved := ?r1\<rparr>"] exI [of _ "l\<lparr>reserved := ?r1\<lparr>cnt := 1\<rparr>\<rparr>"]) simp
qed

theorem lmb_reserve_after_free_lost_witness:
  "\<exists>l1 l2. lmb_free board_lmb 0x2F000000 0x1000000 = Some (0, l1) \<and> lmb_reserve l1 0x2F800000 0x1000 = Some (0, l2) \<and>
     regs (reserved l2) = [block 0x2F000000 0x1000000]"
  by (rule lmb_reserve_after_free_lost) (simp_all add: board_lmb_simps)

text \<open>The table that \<open>lmb_init\<close> makes: ready for additions, and with every address reported reserved.\<close>

lemma lmb_init_ready:
  assumes "length (region (memory l)) = MAX_LMB_REGIONS + 1" "length (region (reserved l)) = MAX_LMB_REGIONS + 1"
  shows "\<exists>l'. lmb_init l = Some l' \<and> table_ready (memory l') \<and> table_ready (reserved l') \<and>
    covers (regs (memory l')) = {} \<and> covers (regs (reserved l')) = {}"
proof -
  have "memory l = memory l \<and> region (memory l) \<noteq> []" "region (reserved l) \<noteq> []" using assms by auto
  then show ?thesis using assms
    by (cases "region (memory l)"; cases "region (reserved l)")
      (auto simp: lmb_init_def table_ready_def regs_def extent_def pend_def)
qed

lemma lmb_is_reserved_after_init:
  assumes "lmb_init l = Some l'" shows "lmb_is_reserved l' a = Some True"
proof -
  have "(0 :: u32) + 0 - 1 = - 1" by simp
  then show ?thesis using assms
    by (auto simp: lmb_init_def lmb_is_reserved_def bind_Some_iff arr_set_def Let_def split: if_splits)
qed

text \<open>With a limit below the size, the subtraction wraps and the result lies outside the memory.\<close>

definition low_lmb :: lmb where
  "low_lmb = \<lparr>memory = \<lparr>cnt = 1, rsize = 0, region = block 0x1000 0x10000 # replicate 8 (block 0 0)\<rparr>,
    reserved = \<lparr>cnt = 1, rsize = 0, region = block 0x2F000000 0x1000000 # replicate 8 (block 0 0)\<rparr>\<rparr>"

lemma low_lmb_overlaps: "lmb_overlaps_region (reserved low_lmb) (- 4096) 12288 = Some (-1)"
  by (simp add: low_lmb_def lmb_overlaps_region_def lmb_addrs_overlap_def)

lemma low_lmb_adds: "\<exists>r. lmb_add_region (reserved low_lmb) (- 4096) 12288 = Some (0, r)"
proof -
  have "\<not> (8 :: u32) \<le> 1" by (simp add: word_le_nat_alt)
  then show ?thesis by (simp add: low_lmb_def lmb_add_region_def lmb_addrs_adjacent_def)
qed

lemma lmb_alloc_base_wraps: "map_option fst (lmb_alloc_base low_lmb 0x3000 0x1000 0x2000) = Some 0xFFFFF000"
  using low_lmb_adds
  by (auto simp: lmb_alloc_base_def lmb_alloc_base0_def low_lmb_def [THEN arg_cong [where f = memory]]
    lmb_alloc_while.simps [of _ _ _ _ "- 4096"] lmb_align_down_def lmb_align_up_def low_lmb_overlaps)

end
