(* ===== verification/Xor_Table.thy ===== *)
theory Xor_Table
  imports Prelude
begin

unbundle bit_operations_syntax

text \<open>
  Tables of an XOR-linear function on bit strings. The entry at index \<open>n\<close> is the sum of the basis
  elements at the positions of the bits of \<open>n\<close>; the basis is listed from the highest bit down. The
  column parity table of the NAND error correction and the CRC-32 table are of this kind.
\<close>

fun span :: "'a::len word list \<Rightarrow> 'a word list" where
  "span [] = [0]"
| "span (c # cs) = span cs @ map (\<lambda>w. c XOR w) (span cs)"

fun comb :: "'a::len word list \<Rightarrow> nat \<Rightarrow> 'a word" where
  "comb [] n = 0"
| "comb (c # cs) n = (if bit n (length cs) then c else 0) XOR comb cs n"

lemma length_span [simp]: "length (span cs) = 2 ^ length cs"
  by (induction cs) simp_all

lemma comb_take_bit: "length cs \<le> m \<Longrightarrow> comb cs (take_bit m n) = comb cs n"
  by (induction cs) (auto simp: bit_take_bit_iff)

lemma span_nth: "n < 2 ^ length cs \<Longrightarrow> span cs ! n = comb cs n"
proof (induction cs arbitrary: n)
  case (Cons c cs)
  let ?m = "length cs"
  show ?case
  proof (cases "n < 2 ^ ?m")
    case True
    then have "\<not> bit n ?m" by (simp add: bit_iff_odd div_less)
    then show ?thesis using True Cons.IH by (simp add: nth_append)
  next
    case False
    then have n: "n - 2 ^ ?m < 2 ^ ?m" "n div 2 ^ ?m = 1" using Cons.prems
      by (auto simp: div_nat_eqI)
    have "take_bit ?m n = n - 2 ^ ?m"
      using n(2) minus_div_mult_eq_mod [of n "2 ^ ?m"] by (simp add: take_bit_eq_mod)
    then have "comb cs (n - 2 ^ ?m) = comb cs n" using comb_take_bit [of cs ?m n] by simp
    moreover have "bit n ?m" using n(2) by (simp add: bit_iff_odd)
    ultimately show ?thesis using False n(1) Cons.IH by (simp add: nth_append)
  qed
qed simp

lemma comb_xor: "comb cs (m XOR n) = comb cs m XOR comb cs n"
proof (induction cs)
  case (Cons c cs)
  then show ?case by (simp add: bit_xor_iff) (auto simp: ac_simps xor.left_commute)
qed simp

lemma comb_power: "k < length cs \<Longrightarrow> comb cs (2 ^ k) = cs ! (length cs - 1 - k)"
proof (induction cs)
  case (Cons c cs)
  show ?case
  proof (cases "k = length cs")
    case True
    have "take_bit (length cs) (2 ^ length cs) = (0 :: nat)" by (simp add: take_bit_eq_mod)
    then have "comb cs (2 ^ length cs) = comb cs 0" using comb_take_bit [OF order_refl, of cs "2 ^ length cs"] by simp
    also have "comb cs 0 = 0" by (induction cs) auto
    finally show ?thesis using True by (simp add: bit_exp_iff)
  next
    case False
    then have "length cs - k = Suc (length cs - 1 - k)" using Cons.prems by simp
    then show ?thesis using False Cons by (simp add: bit_exp_iff)
  qed
qed simp

text \<open>A linear function is the combination of its values on single bits.\<close>

lemma linear_comb:
  fixes f :: "'a::len word \<Rightarrow> 'b::len word"
  assumes add: "\<And>x y. f (x XOR y) = f x XOR f y" and zero: "f 0 = 0"
  shows "n < 2 ^ m \<Longrightarrow> f (of_nat n) = comb (map (\<lambda>k. f (2 ^ k)) (rev [0..<m])) n"
proof (induction m arbitrary: n)
  case 0
  then show ?case using zero by simp
next
  case (Suc m)
  let ?r = "take_bit m n"
  have "take_bit (Suc m) n = n" using Suc.prems by (simp add: take_bit_nat_eq_self)
  then have lt: "k < Suc m" if "bit n k" for k using that by (metis bit_take_bit_iff)
  have "n = (if bit n m then 2 ^ m else 0) XOR ?r"
  proof (rule bit_eqI)
    fix k show "bit n k = bit ((if bit n m then 2 ^ m else 0) XOR ?r) k"
      using lt [of k] by (cases "k = m") (auto simp: bit_simps)
  qed
  then have "(of_nat n :: 'a word) = of_nat ((if bit n m then 2 ^ m else 0) XOR ?r)" by simp
  also have "\<dots> = of_nat (if bit n m then 2 ^ m else 0) XOR of_nat ?r"
    by (rule bit_word_eqI) (auto simp: bit_simps)
  finally have "f (of_nat n) = f (of_nat (if bit n m then 2 ^ m else 0)) XOR f (of_nat ?r)" by (simp only: add)
  moreover have "f (of_nat ?r) = comb (map (\<lambda>k. f (2 ^ k)) (rev [0..<m])) n"
    using Suc.IH [of ?r] comb_take_bit [of "map (\<lambda>k. f (2 ^ k)) (rev [0..<m])" m n] by simp
  ultimately show ?case using zero by simp
qed

text \<open>The entry for a byte, and how it changes with the byte.\<close>

lemma unat_xor: "unat (a XOR b) = unat a XOR unat b" for a b :: "'a::len word"
  by (rule bit_eqI) (auto simp: bit_simps)

lemma span_xor:
  assumes "length cs = 8"
  shows "span cs ! unat (a XOR b) = span cs ! unat a XOR span cs ! unat (b :: u8)"
  using assms unat_u8_less [of a] unat_u8_less [of b] unat_u8_less [of "a XOR b"]
  by (simp add: span_nth comb_xor unat_xor)

lemma span_bit:
  assumes "length cs = 8" "k < 8"
  shows "span cs ! unat ((2 :: u8) ^ k) = cs ! (7 - k)"
proof -
  have "unat ((2 :: u8) ^ k) = 2 ^ k" using assms(2) by (auto dest!: nat_less_8_cases)
  moreover have "(2 :: nat) ^ k < 2 ^ 8" using assms(2) by (intro power_strict_increasing) simp_all
  ultimately show ?thesis using assms by (simp add: span_nth comb_power)
qed

end
