(* ===== verification/Nand_Ecc.thy ===== *)
theory Nand_Ecc
  imports Xor_Table
begin

unbundle bit_operations_syntax

text \<open>
  The software error correction of NAND pages, \<^verbatim>\<open>drivers/mtd/nand/nand_ecc.c\<close>: a Hamming code
  of 22 bits on a block of 256 bytes. The parity table, the computation of the code, and the correction of a
  block against the code read from the chip. The lemmas show that the syndrome of a single flipped bit
  spells out its position, and that of two flipped bits is a set of pairs.
\<close>

abbreviation EBADMSG :: int where "EBADMSG \<equiv> 74"

definition nand_ecc_precalc_table :: "u8 list" where
  "nand_ecc_precalc_table = [
    0x00, 0x55, 0x56, 0x03, 0x59, 0x0c, 0x0f, 0x5a, 0x5a, 0x0f, 0x0c, 0x59, 0x03, 0x56, 0x55, 0x00,
    0x65, 0x30, 0x33, 0x66, 0x3c, 0x69, 0x6a, 0x3f, 0x3f, 0x6a, 0x69, 0x3c, 0x66, 0x33, 0x30, 0x65,
    0x66, 0x33, 0x30, 0x65, 0x3f, 0x6a, 0x69, 0x3c, 0x3c, 0x69, 0x6a, 0x3f, 0x65, 0x30, 0x33, 0x66,
    0x03, 0x56, 0x55, 0x00, 0x5a, 0x0f, 0x0c, 0x59, 0x59, 0x0c, 0x0f, 0x5a, 0x00, 0x55, 0x56, 0x03,
    0x69, 0x3c, 0x3f, 0x6a, 0x30, 0x65, 0x66, 0x33, 0x33, 0x66, 0x65, 0x30, 0x6a, 0x3f, 0x3c, 0x69,
    0x0c, 0x59, 0x5a, 0x0f, 0x55, 0x00, 0x03, 0x56, 0x56, 0x03, 0x00, 0x55, 0x0f, 0x5a, 0x59, 0x0c,
    0x0f, 0x5a, 0x59, 0x0c, 0x56, 0x03, 0x00, 0x55, 0x55, 0x00, 0x03, 0x56, 0x0c, 0x59, 0x5a, 0x0f,
    0x6a, 0x3f, 0x3c, 0x69, 0x33, 0x66, 0x65, 0x30, 0x30, 0x65, 0x66, 0x33, 0x69, 0x3c, 0x3f, 0x6a,
    0x6a, 0x3f, 0x3c, 0x69, 0x33, 0x66, 0x65, 0x30, 0x30, 0x65, 0x66, 0x33, 0x69, 0x3c, 0x3f, 0x6a,
    0x0f, 0x5a, 0x59, 0x0c, 0x56, 0x03, 0x00, 0x55, 0x55, 0x00, 0x03, 0x56, 0x0c, 0x59, 0x5a, 0x0f,
    0x0c, 0x59, 0x5a, 0x0f, 0x55, 0x00, 0x03, 0x56, 0x56, 0x03, 0x00, 0x55, 0x0f, 0x5a, 0x59, 0x0c,
    0x69, 0x3c, 0x3f, 0x6a, 0x30, 0x65, 0x66, 0x33, 0x33, 0x66, 0x65, 0x30, 0x6a, 0x3f, 0x3c, 0x69,
    0x03, 0x56, 0x55, 0x00, 0x5a, 0x0f, 0x0c, 0x59, 0x59, 0x0c, 0x0f, 0x5a, 0x00, 0x55, 0x56, 0x03,
    0x66, 0x33, 0x30, 0x65, 0x3f, 0x6a, 0x69, 0x3c, 0x3c, 0x69, 0x6a, 0x3f, 0x65, 0x30, 0x33, 0x66,
    0x65, 0x30, 0x33, 0x66, 0x3c, 0x69, 0x6a, 0x3f, 0x3f, 0x6a, 0x69, 0x3c, 0x66, 0x33, 0x30, 0x65,
    0x00, 0x55, 0x56, 0x03, 0x59, 0x0c, 0x0f, 0x5a, 0x5a, 0x0f, 0x0c, 0x59, 0x03, 0x56, 0x55, 0x00
  ]"

fun ecc_loop :: "nat \<Rightarrow> u8 list \<Rightarrow> u8 \<times> u8 \<times> u8 \<Rightarrow> (u8 \<times> u8 \<times> u8) option" where
  "ecc_loop i [] regs = Some regs"
| "ecc_loop i (b # dat) (reg1, reg2, reg3) = do {
     idx \<leftarrow> arr_get nand_ecc_precalc_table (unat b);
     let reg1 = reg1 XOR (idx AND 0x3f);
     let (reg3, reg2) =
       (if idx AND 0x40 \<noteq> 0 then (reg3 XOR of_nat i, reg2 XOR NOT (of_nat i)) else (reg3, reg2));
     ecc_loop (i + 1) dat (reg1, reg2, reg3)
   }"

definition ecc_tmp1 :: "u8 \<Rightarrow> u8 \<Rightarrow> u8" where
  "ecc_tmp1 reg3 reg2 =
     (reg3 AND 0x80) OR
     drop_bit 1 (reg2 AND 0x80) OR
     drop_bit 1 (reg3 AND 0x40) OR
     drop_bit 2 (reg2 AND 0x40) OR
     drop_bit 2 (reg3 AND 0x20) OR
     drop_bit 3 (reg2 AND 0x20) OR
     drop_bit 3 (reg3 AND 0x10) OR
     drop_bit 4 (reg2 AND 0x10)"

definition ecc_tmp2 :: "u8 \<Rightarrow> u8 \<Rightarrow> u8" where
  "ecc_tmp2 reg3 reg2 =
     push_bit 4 (reg3 AND 0x08) OR
     push_bit 3 (reg2 AND 0x08) OR
     push_bit 3 (reg3 AND 0x04) OR
     push_bit 2 (reg2 AND 0x04) OR
     push_bit 2 (reg3 AND 0x02) OR
     push_bit 1 (reg2 AND 0x02) OR
     push_bit 1 (reg3 AND 0x01) OR
     (reg2 AND 0x01)"

text \<open>The three bytes of the code; the buffer holds at least 256 bytes.\<close>

definition nand_calculate_ecc :: "u8 list \<Rightarrow> (u8 \<times> u8 \<times> u8) option" where
  "nand_calculate_ecc dat = (if length dat < 256 then None else do {
     (reg1, reg2, reg3) \<leftarrow> ecc_loop 0 (take 256 dat) (0, 0, 0);
     let tmp1 = ecc_tmp1 reg3 reg2;
     let tmp2 = ecc_tmp2 reg3 reg2;
     Some (NOT tmp1, NOT tmp2, push_bit 2 (NOT reg1) OR 0x03)
   })"

function countbits :: "u32 \<Rightarrow> nat" where
  "countbits b = (if b = 0 then 0 else unat (b AND 1) + countbits (drop_bit 1 b))"
  by pat_completeness auto
termination
proof (relation "measure unat")
  fix b :: u32
  assume "b \<noteq> 0"
  then show "(drop_bit 1 b, b) \<in> measure unat"
    using unat_drop_bit_div [of 1 b] by (simp add: word_eq_0_unat)
qed simp

declare countbits.simps [simp del]

definition ecc_byteoffs :: "u32 \<Rightarrow> u32 \<Rightarrow> u32" where
  "ecc_byteoffs s1 s0 =
     (s1 AND 0x80) OR
     (push_bit 1 s1 AND 0x40) OR
     (push_bit 2 s1 AND 0x20) OR
     (push_bit 3 s1 AND 0x10) OR
     (drop_bit 4 s0 AND 0x08) OR
     (drop_bit 3 s0 AND 0x04) OR
     (drop_bit 2 s0 AND 0x02) OR
     (drop_bit 1 s0 AND 0x01)"

definition ecc_bitnum :: "u32 \<Rightarrow> u32" where
  "ecc_bitnum s2 =
     (drop_bit 5 s2 AND 0x04) OR
     (drop_bit 4 s2 AND 0x02) OR
     (drop_bit 3 s2 AND 0x01)"

text \<open>The result code and the block after the correction.\<close>

definition nand_correct_data :: "u8 list \<Rightarrow> u8 \<times> u8 \<times> u8 \<Rightarrow> u8 \<times> u8 \<times> u8 \<Rightarrow> (int \<times> u8 list) option" where
  "nand_correct_data dat read_ecc calc_ecc = (case (read_ecc, calc_ecc) of ((r0, r1, r2), (c0, c1, c2)) \<Rightarrow> do {
     let s1 = c0 XOR r0;
     let s0 = c1 XOR r1;
     let s2 = c2 XOR r2;
     if s0 OR s1 OR s2 = 0 then Some (0, dat)
     else if (s0 XOR drop_bit 1 s0) AND 0x55 = 0x55 \<and> (s1 XOR drop_bit 1 s1) AND 0x55 = 0x55 \<and>
             (s2 XOR drop_bit 1 s2) AND 0x54 = 0x54 then do {
       let byteoffs = unat (ecc_byteoffs (ucast s1) (ucast s0));
       let bitnum = unat (ecc_bitnum (ucast s2));
       b \<leftarrow> arr_get dat byteoffs;
       dat \<leftarrow> arr_set dat byteoffs (b XOR ucast (push_bit bitnum (1 :: u32)));
       Some (1, dat)
     }
     else if countbits (ucast s0 OR push_bit 8 (ucast s1) OR push_bit 16 (ucast s2)) = 1 then Some (1, dat)
     else Some (- EBADMSG, dat)
   })"

subsection \<open>The code is linear\<close>

text \<open>The column parities of the single bits, from bit 7 down.\<close>

definition columns :: "u8 list" where
  "columns = [0x6a, 0x69, 0x66, 0x65, 0x5a, 0x59, 0x56, 0x55]"

lemma columns_length [simp]: "length columns = 8"
  by (simp add: columns_def)

lemma precalc_table_span: "nand_ecc_precalc_table = span columns"
  by (simp add: nand_ecc_precalc_table_def columns_def)

definition column :: "u8 \<Rightarrow> u8" where
  "column b = span columns ! unat b"

lemma precalc_entry: "arr_get nand_ecc_precalc_table (unat (b :: u8)) = Some (column b)"
  by (simp add: precalc_table_span column_def)

lemma column_xor: "column (a XOR b) = column a XOR column b"
  by (simp add: column_def span_xor)

lemma column_bit: "k < 8 \<Longrightarrow> column (2 ^ k) = columns ! (7 - k)"
  by (simp add: column_def span_bit)

definition ecc_add :: "u8 \<times> u8 \<times> u8 \<Rightarrow> u8 \<times> u8 \<times> u8 \<Rightarrow> u8 \<times> u8 \<times> u8" where
  "ecc_add x y = (case (x, y) of ((a, b, c), (d, e, f)) \<Rightarrow> (a XOR d, b XOR e, c XOR f))"

lemma ecc_add_assoc: "ecc_add (ecc_add x y) z = ecc_add x (ecc_add y z)"
  by (cases x; cases y; cases z) (simp add: ecc_add_def ac_simps)

lemma ecc_add_0 [simp]: "ecc_add x (0, 0, 0) = x" "ecc_add (0, 0, 0) x = x"
  by (cases x, simp add: ecc_add_def)+

text \<open>What one byte contributes to the registers, and the sum over a block.\<close>

definition ecc_term :: "nat \<Rightarrow> u8 \<Rightarrow> u8 \<times> u8 \<times> u8" where
  "ecc_term i b =
     (column b AND 0x3f, if bit (column b) 6 then NOT (of_nat i) else 0, if bit (column b) 6 then of_nat i else 0)"

fun ecc_sum :: "nat \<Rightarrow> u8 list \<Rightarrow> u8 \<times> u8 \<times> u8" where
  "ecc_sum i [] = (0, 0, 0)"
| "ecc_sum i (b # dat) = ecc_add (ecc_term i b) (ecc_sum (i + 1) dat)"

lemma and_0x40: "idx AND 0x40 \<noteq> 0 \<longleftrightarrow> bit (idx :: u8) 6"
  using and_exp_eq_0_iff_not_bit [of idx 6] by simp

lemma ecc_loop_sum: "ecc_loop i dat r = Some (ecc_add r (ecc_sum i dat))"
proof (induction dat arbitrary: i r)
  case (Cons b dat)
  have "ecc_loop i (b # dat) r = ecc_loop (i + 1) dat (ecc_add r (ecc_term i b))"
    by (cases r) (simp add: precalc_entry and_0x40 ecc_add_def ecc_term_def Let_def)
  then show ?case using Cons by (simp add: ecc_add_assoc)
qed simp

lemma ecc_term_xor: "ecc_term i (a XOR b) = ecc_add (ecc_term i a) (ecc_term i b)"
proof -
  have "(x XOR y) AND z = (x AND z) XOR (y AND z)" for x y z :: u8 by (rule bit_word_eqI) (auto simp: bit_simps)
  then show ?thesis by (auto simp: ecc_term_def ecc_add_def column_xor bit_xor_iff)
qed

lemma ecc_sum_update:
  "j < length dat \<Longrightarrow> ecc_sum i (dat[j := dat ! j XOR e]) = ecc_add (ecc_sum i dat) (ecc_term (i + j) e)"
proof (induction dat arbitrary: i j)
  case (Cons b dat)
  have comm: "ecc_add x y = ecc_add y x" for x y
    by (cases x; cases y) (simp add: ecc_add_def ac_simps)
  show ?case
  proof (cases j)
    case 0
    then show ?thesis using comm [of "ecc_term i e" "ecc_sum (i + 1) dat"] by (simp add: ecc_term_xor ecc_add_assoc)
  next
    case (Suc m)
    then show ?thesis using Cons.IH [of m "i + 1"] Cons.prems by (simp add: ecc_add_assoc)
  qed
qed simp

text \<open>The code bytes for the registers, and the change of the code with a change of the registers.\<close>

definition ecc_code :: "u8 \<times> u8 \<times> u8 \<Rightarrow> u8 \<times> u8 \<times> u8" where
  "ecc_code r = (case r of (reg1, reg2, reg3) \<Rightarrow>
     (NOT (ecc_tmp1 reg3 reg2), NOT (ecc_tmp2 reg3 reg2), push_bit 2 (NOT reg1) OR 0x03))"

definition syndrome :: "u8 \<times> u8 \<times> u8 \<Rightarrow> u8 \<times> u8 \<times> u8" where
  "syndrome r = (case r of (reg1, reg2, reg3) \<Rightarrow> (ecc_tmp1 reg3 reg2, ecc_tmp2 reg3 reg2, push_bit 2 reg1))"

lemma nand_calculate_ecc_code: "length dat = 256 \<Longrightarrow> nand_calculate_ecc dat = Some (ecc_code (ecc_sum 0 dat))"
  by (simp add: nand_calculate_ecc_def ecc_loop_sum ecc_code_def Let_def split: prod.splits)

lemma ecc_tmp1_bits [simp]:
  "bit (ecc_tmp1 a c) 7 = bit a 7" "bit (ecc_tmp1 a c) 6 = bit c 7"
  "bit (ecc_tmp1 a c) 5 = bit a 6" "bit (ecc_tmp1 a c) 4 = bit c 6"
  "bit (ecc_tmp1 a c) 3 = bit a 5" "bit (ecc_tmp1 a c) 2 = bit c 5"
  "bit (ecc_tmp1 a c) 1 = bit a 4" "bit (ecc_tmp1 a c) 0 = bit c 4"
  by (simp_all add: ecc_tmp1_def bit_or_iff bit_and_iff bit_drop_bit_eq)
lemma ecc_tmp2_bits [simp]:
  "bit (ecc_tmp2 a c) 7 = bit a 3" "bit (ecc_tmp2 a c) 6 = bit c 3"
  "bit (ecc_tmp2 a c) 5 = bit a 2" "bit (ecc_tmp2 a c) 4 = bit c 2"
  "bit (ecc_tmp2 a c) 3 = bit a 1" "bit (ecc_tmp2 a c) 2 = bit c 1"
  "bit (ecc_tmp2 a c) 1 = bit a 0" "bit (ecc_tmp2 a c) 0 = bit c 0"
  unfolding ecc_tmp2_def bit_or_iff bit_push_bit_iff bit_and_iff by simp_all

lemmas ecc_tmp_bits_Suc [simp] =
  ecc_tmp1_bits(7) [unfolded One_nat_def] ecc_tmp2_bits(7) [unfolded One_nat_def]
  ecc_tmp1_bits(5) [unfolded numeral_3_eq_3] ecc_tmp2_bits(5) [unfolded numeral_3_eq_3]

lemma byte_eqI:
  assumes "bit a 0 = bit b 0" "bit a 1 = bit b 1" "bit a 2 = bit b 2" "bit a 3 = bit b 3"
    "bit a 4 = bit b 4" "bit a 5 = bit b 5" "bit a 6 = bit b 6" "bit a 7 = bit (b :: u8) 7"
  shows "a = b"
proof (rule bit_word_eqI)
  fix n assume "n < LENGTH(8)"
  then have "n \<in> {0, 1, 2, 3, 4, 5, 6, 7}" using nat_less_8_cases by simp
  then show "bit a n = bit b n" using assms by auto
qed

lemma tmp_xor:
  "ecc_tmp1 (a XOR b) (c XOR d) = ecc_tmp1 a c XOR ecc_tmp1 b d"
  "ecc_tmp2 (a XOR b) (c XOR d) = ecc_tmp2 a c XOR ecc_tmp2 b d"
  by (rule byte_eqI; simp only: bit_xor_iff ecc_tmp1_bits ecc_tmp2_bits)+

lemma not_xor_not: "NOT a XOR NOT b = a XOR b" for a b :: u8
  by (rule bit_word_eqI) (auto simp: bit_simps)

lemma code_change: "ecc_add (ecc_code (ecc_add r d)) (ecc_code r) = syndrome d"
proof -
  have "(push_bit 2 (NOT (a XOR b)) OR 3) XOR (push_bit 2 (NOT a) OR 3) = push_bit 2 b" for a b :: u8
    by (rule byte_eqI; simp only: bit_xor_iff bit_or_iff bit_push_bit_iff bit_not_iff) auto
  moreover have "(a XOR b) XOR a = b" for a b :: u8 by (rule bit_word_eqI) (auto simp: bit_simps)
  ultimately show ?thesis
    by (cases r; cases d) (simp add: ecc_code_def ecc_add_def syndrome_def tmp_xor not_xor_not)
qed

lemma tmp_single:
  "(ecc_tmp1 i (NOT i) XOR drop_bit 1 (ecc_tmp1 i (NOT i))) AND 0x55 = 0x55"
  "(ecc_tmp2 i (NOT i) XOR drop_bit 1 (ecc_tmp2 i (NOT i))) AND 0x55 = 0x55"
  by (rule byte_eqI; simp add: bit_simps)+

lemma nat_less_32_cases: "n < 32 \<Longrightarrow> n \<in> {0, 1, 2, 3, 4, 5, 6, 7, 8, 9, 10, 11, 12, 13, 14, 15, 16, 17, 18, 19, 20, 21, 22, 23, 24, 25, 26, 27, 28, 29, 30, 31 :: nat}"
  by (simp only: insert_iff empty_iff) arith

lemma ecc_byteoffs_single:
  "ecc_byteoffs (ucast (ecc_tmp1 i (NOT i))) (ucast (ecc_tmp2 i (NOT i))) = ucast i"
proof (rule bit_word_eqI)
  fix n assume "n < LENGTH(32)"
  then have "n \<in> {0, 1, 2, 3, 4, 5, 6, 7, 8, 9, 10, 11, 12, 13, 14, 15, 16, 17, 18, 19, 20, 21, 22, 23, 24, 25, 26, 27, 28, 29, 30, 31}" using nat_less_32_cases by simp
  then show "bit (ecc_byteoffs (ucast (ecc_tmp1 i (NOT i))) (ucast (ecc_tmp2 i (NOT i)))) n = bit (ucast i :: u32) n"
    unfolding insert_iff empty_iff ecc_byteoffs_def
    by (elim disjE; simp only: bit_or_iff bit_and_iff bit_push_bit_iff bit_drop_bit_eq bit_unsigned_iff) (auto simp: bit_unsigned_iff)
qed

text \<open>The correction as a function of the difference of the two codes.\<close>

definition correct_by :: "u8 list \<Rightarrow> u8 \<times> u8 \<times> u8 \<Rightarrow> (int \<times> u8 list) option" where
  "correct_by dat s = nand_correct_data dat (0, 0, 0) s"

lemma nand_correct_data_by: "nand_correct_data dat r c = correct_by dat (ecc_add c r)"
  by (cases r; cases c) (simp only: nand_correct_data_def correct_by_def ecc_add_def prod.case xor.right_neutral)

subsection \<open>Counting bits\<close>

lemma countbits_card: "countbits w = card {n. bit w n}"
proof (induction w rule: countbits.induct)
  case (1 b)
  show ?case
  proof (cases "b = 0")
    case True
    then show ?thesis by (simp add: countbits.simps [of 0])
  next
    case False
    have fin: "finite {n. bit v n}" for v :: u32
      by (rule finite_subset [of _ "{..<32}"]) (auto dest: bit_imp_le_length)
    have "{n. bit b n} = (if bit b 0 then {0} else {}) \<union> Suc ` {n. bit (drop_bit 1 b) n}"
    proof (rule set_eqI)
      fix n show "n \<in> {n. bit b n} \<longleftrightarrow> n \<in> (if bit b 0 then {0} else {}) \<union> Suc ` {n. bit (drop_bit 1 b) n}"
        by (cases n) (auto simp: bit_drop_bit_eq image_iff)
    qed
    moreover have "card (Suc ` {n. bit (drop_bit 1 b) n}) = card {n. bit (drop_bit 1 b) n}" by (simp add: card_image)
    moreover have "unat (b AND 1) = (if bit b 0 then 1 else 0)" by (simp add: and_one_eq bit_0 mod_2_eq_odd)
    ultimately have "card {n. bit b n} = unat (b AND 1) + card {n. bit (drop_bit 1 b) n}"
      using fin by (auto simp: card_insert_if)
    then show ?thesis using False 1 by (simp add: countbits.simps [of b])
  qed
qed

definition all_syndrome :: "u8 \<times> u8 \<times> u8 \<Rightarrow> u32" where
  "all_syndrome s = (case s of (s1, s0, s2) \<Rightarrow> ucast s0 OR push_bit 8 (ucast s1) OR push_bit 16 (ucast s2))"

definition paired :: "u8 \<Rightarrow> bool" where
  "paired s \<longleftrightarrow> bit s 0 = bit s 1 \<and> bit s 2 = bit s 3 \<and> bit s 4 = bit s 5 \<and> bit s 6 = bit s 7"

lemma bit_all_syndrome: "bit (all_syndrome (s1, s0, s2)) n \<longleftrightarrow>
    (if n < 8 then bit s0 n else if n < 16 then bit s1 (n - 8) else bit s2 (n - 16))"
  using bit_imp_le_length [of s2 "n - 16"] by (auto simp: all_syndrome_def bit_simps)

lemma paired_flip: "paired s \<Longrightarrow> bit s n \<Longrightarrow> bit s (if even n then n + 1 else n - 1)"
proof -
  assume "paired s" "bit s n"
  moreover have "n \<in> {0, 1, 2, 3, 4, 5, 6, 7}"
    using bit_imp_le_length [OF \<open>bit s n\<close>] nat_less_8_cases by simp
  ultimately show ?thesis unfolding paired_def by (elim insertE emptyE; simp)
qed

lemma countbits_paired:
  assumes "paired s0" "paired s1" "paired s2"
  shows "countbits (all_syndrome (s1, s0, s2)) \<noteq> 1"
proof
  let ?w = "all_syndrome (s1, s0, s2)"
  assume "countbits ?w = 1"
  then obtain n where n: "{n. bit ?w n} = {n}" by (auto simp: countbits_card card_1_singleton_iff)
  let ?m = "if even n then n + 1 else n - 1"
  have b: "bit ?w n" using n by blast
  have "bit ?w ?m"
  proof -
    consider "n < 8" | "8 \<le> n" "n < 16" | "16 \<le> n" by linarith
    then show ?thesis
    proof cases
      case 1
      then have "?m < 8" by (auto elim!: evenE)
      then show ?thesis using 1 b paired_flip [OF assms(1), of n] by (auto simp: bit_all_syndrome)
    next
      case 2
      then have "8 \<le> ?m" "?m < 16" "?m - 8 = (if even (n - 8) then n - 8 + 1 else n - 8 - 1)"
        by (auto elim!: evenE oddE)
      then show ?thesis using 2 b paired_flip [OF assms(2), of "n - 8"] by (auto simp: bit_all_syndrome)
    next
      case 3
      then have "16 \<le> ?m" "?m - 16 = (if even (n - 16) then n - 16 + 1 else n - 16 - 1)"
        by (auto elim!: evenE oddE)
      then show ?thesis using 3 b paired_flip [OF assms(3), of "n - 16"] by (auto simp: bit_all_syndrome)
    qed
  qed
  then have "?m = n" using n by blast
  then show False by (cases "even n") (auto elim!: oddE)
qed

subsection \<open>Single and double errors\<close>

definition flip_bit_at :: "nat \<Rightarrow> nat \<Rightarrow> u8 list \<Rightarrow> u8 list" where
  "flip_bit_at i k dat = dat[i := dat ! i XOR 2 ^ k]"

lemma length_flip_bit_at [simp]: "length (flip_bit_at i k dat) = length dat"
  by (simp add: flip_bit_at_def)

lemma flip_bit_twice: "i < length dat \<Longrightarrow> flip_bit_at i k (flip_bit_at i k dat) = dat"
  by (simp add: flip_bit_at_def xor.assoc)

lemma column_cases:
  assumes "k < 8"
  shows "(k, column (2 ^ k)) \<in> {(0, 0x55), (1, 0x56), (2, 0x59), (3, 0x5a), (4, 0x65), (5, 0x66), (6, 0x69), (7, 0x6a)}"
  using column_bit [OF assms] nat_less_8_cases [OF assms] by (elim insertE emptyE; simp add: columns_def)

lemma ecc_term_bit:
  "k < 8 \<Longrightarrow> ecc_term i (2 ^ k) = (column (2 ^ k) AND 0x3f, NOT (of_nat i), of_nat i)"
  using column_cases [of k] by (auto simp: ecc_term_def)

lemma bit_syndrome:
  assumes "k < 8"
  defines "s \<equiv> push_bit 2 (column (2 ^ k) AND 0x3f)"
  shows "(s XOR drop_bit 1 s) AND 0x54 = 0x54" "unat (ecc_bitnum (ucast s)) = k" "s \<noteq> 0"
  unfolding s_def using column_cases [OF assms(1)] by (auto simp: ecc_bitnum_def)

lemma or3_eq_0: "a OR b OR c = 0 \<longleftrightarrow> a = 0 \<and> b = 0 \<and> c = 0" for a b c :: u8
  by (auto simp: or_eq_0_iff)

lemma correct_single:
  assumes "i < 256" "i < length dat" "k < 8"
  shows "correct_by dat (syndrome (ecc_term i (2 ^ k))) = Some (1, flip_bit_at i k dat)"
proof -
  let ?s2 = "push_bit 2 (column (2 ^ k) AND 0x3f)"
  have "unat (ucast (of_nat i :: u8) :: u32) = i"
    using assms(1) by (simp add: unsigned_ucast_eq unsigned_of_nat take_bit_nat_eq_self)
  moreover have "ucast (push_bit k (1 :: u32)) = (2 :: u8) ^ k"
    using assms(3) by (auto dest!: nat_less_8_cases)
  ultimately show ?thesis
    using assms(2) bit_syndrome [OF assms(3)]
    by (simp add: correct_by_def nand_correct_data_def syndrome_def ecc_term_bit [OF assms(3)] tmp_single [unfolded One_nat_def]
      ecc_byteoffs_single flip_bit_at_def Let_def or3_eq_0)
qed

text \<open>Two flipped bits leave pairs of equal bits in the difference of the codes.\<close>

lemma tmp_paired: "paired (ecc_tmp1 x x)" "paired (ecc_tmp2 x x)"
  by (simp_all add: paired_def)

lemma tmp_eq_0: assumes "ecc_tmp1 x x = 0" "ecc_tmp2 x x = 0" shows "x = 0"
  using ecc_tmp1_bits [of x x] ecc_tmp2_bits [of x x] unfolding assms by (intro byte_eqI) simp_all

lemma paired_check: "paired s \<Longrightarrow> (s XOR drop_bit 1 s) AND 0x55 = 0"
  by (rule byte_eqI) (simp_all add: paired_def bit_simps eval_nat_numeral)

lemma column_pairs:
  assumes "k < 8" "l < 8"
  shows "paired (push_bit 2 ((column (2 ^ k) XOR column (2 ^ l)) AND 0x3f))"
    and "push_bit 2 ((column (2 ^ k) XOR column (2 ^ l)) AND 0x3f) = 0 \<Longrightarrow> k = l"
proof -
  have "\<forall>k < 8. \<forall>l < 8. paired (push_bit 2 ((columns ! k XOR columns ! l) AND 0x3f)) \<and>
      (push_bit 2 ((columns ! k XOR columns ! l) AND 0x3f) = 0 \<longrightarrow> k = l)"
    unfolding columns_def paired_def by code_simp
  then have "paired (push_bit 2 ((columns ! (7 - k) XOR columns ! (7 - l)) AND 0x3f)) \<and>
      (push_bit 2 ((columns ! (7 - k) XOR columns ! (7 - l)) AND 0x3f) = 0 \<longrightarrow> 7 - k = 7 - l)"
    using assms by (metis diff_less_Suc Suc_eq_plus1 add_2_eq_Suc' numeral_plus_one semiring_norm(2,4,5,8))
  then show "paired (push_bit 2 ((column (2 ^ k) XOR column (2 ^ l)) AND 0x3f))"
      "push_bit 2 ((column (2 ^ k) XOR column (2 ^ l)) AND 0x3f) = 0 \<Longrightarrow> k = l"
    using assms by (auto simp: column_bit)
qed

lemma correct_double:
  assumes "(i, k) \<noteq> (j, l)" "i < 256" "j < 256" "k < 8" "l < 8"
  shows "correct_by dat (syndrome (ecc_add (ecc_term i (2 ^ k)) (ecc_term j (2 ^ l)))) = Some (- EBADMSG, dat)"
proof -
  let ?x = "of_nat i XOR of_nat j :: u8"
  let ?s1 = "ecc_tmp1 ?x ?x" and ?s0 = "ecc_tmp2 ?x ?x"
    and ?s2 = "push_bit 2 ((column (2 ^ k) XOR column (2 ^ l)) AND 0x3f)"
  have and_xor: "(x AND z) XOR (y AND z) = (x XOR y) AND z" for x y z :: u8
    by (rule bit_word_eqI) (auto simp: bit_simps)
  have s: "syndrome (ecc_add (ecc_term i (2 ^ k)) (ecc_term j (2 ^ l))) = (?s1, ?s0, ?s2)"
    by (simp only: ecc_term_bit [OF assms(4)] ecc_term_bit [OF assms(5)] ecc_add_def syndrome_def prod.case
      not_xor_not and_xor)
  have "i = j" if "?x = 0"
  proof -
    have "(of_nat i :: u8) = of_nat j"
      using that xor.assoc [of "of_nat i" "of_nat j" "of_nat j :: u8"] by simp
    then have "unat (of_nat i :: u8) = unat (of_nat j :: u8)" by simp
    then show ?thesis using assms(2,3) by (simp add: unsigned_of_nat take_bit_nat_eq_self)
  qed
  then have nz: "\<not> (?s0 = 0 \<and> ?s1 = 0 \<and> ?s2 = 0)"
    using assms(1) tmp_eq_0 column_pairs(2) [OF assms(4,5)] by blast
  have c0: "(?s0 XOR drop_bit 1 ?s0) AND 0x55 \<noteq> 0x55" using paired_check [OF tmp_paired(2)] by simp
  have cb: "countbits (ucast ?s0 OR push_bit 8 (ucast ?s1) OR push_bit 16 (ucast ?s2)) \<noteq> 1"
    using countbits_paired [OF tmp_paired(2) tmp_paired(1) column_pairs(1) [OF assms(4,5)]]
    by (simp only: all_syndrome_def prod.case not_False_eq_True)
  show ?thesis
    unfolding s correct_by_def nand_correct_data_def prod.case Let_def xor.right_neutral or3_eq_0
    by (simp only: nz c0 cb if_False simp_thms)
qed

text \<open>
  C11. One flipped bit. A page of 256 bytes with any one bit flipped is restored by the correction
  against the code of the original page: the result is 1 and the data is the original. Without an
  error the result is 0, and the data stays.
\<close>

theorem nand_correct_data_single:
  assumes "length dat = 256" "i < 256" "k < 8"
  shows "\<exists>code code'. nand_calculate_ecc dat = Some code \<and>
    nand_calculate_ecc (flip_bit_at i k dat) = Some code' \<and>
    nand_correct_data dat code code = Some (0, dat) \<and>
    nand_correct_data (flip_bit_at i k dat) code code' = Some (1, dat)"
proof -
  let ?r = "ecc_sum 0 dat" and ?d = "flip_bit_at i k dat"
  have "ecc_sum 0 ?d = ecc_add ?r (ecc_term i (2 ^ k))"
    using assms ecc_sum_update [of i dat 0 "2 ^ k"] by (simp add: flip_bit_at_def)
  then have "nand_correct_data ?d (ecc_code ?r) (ecc_code (ecc_sum 0 ?d)) = Some (1, flip_bit_at i k ?d)"
    using assms by (simp add: nand_correct_data_by code_change correct_single)
  moreover have "nand_correct_data dat (ecc_code ?r) (ecc_code ?r) = Some (0, dat)"
    by (cases "ecc_code ?r") (simp add: nand_correct_data_def)
  ultimately show ?thesis using assms by (auto simp: nand_calculate_ecc_code flip_bit_twice)
qed

text \<open>
  C28. Two flipped bits. A page of 256 bytes with any two different bits flipped is never taken for a
  correct or a correctable one: the correction against the code of the original page returns
  \<open>-EBADMSG\<close>.
\<close>

theorem nand_correct_data_double:
  assumes "length dat = 256" "(i, k) \<noteq> (j, l)" "i < 256" "j < 256" "k < 8" "l < 8"
  shows "\<exists>code code'. nand_calculate_ecc dat = Some code \<and>
    nand_calculate_ecc (flip_bit_at j l (flip_bit_at i k dat)) = Some code' \<and>
    nand_correct_data (flip_bit_at j l (flip_bit_at i k dat)) code code' =
      Some (- EBADMSG, flip_bit_at j l (flip_bit_at i k dat))"
proof -
  let ?r = "ecc_sum 0 dat" and ?d1 = "flip_bit_at i k dat" and ?d = "flip_bit_at j l (flip_bit_at i k dat)"
  have "ecc_sum 0 ?d1 = ecc_add ?r (ecc_term i (2 ^ k))"
    using assms ecc_sum_update [of i dat 0 "2 ^ k"] by (simp add: flip_bit_at_def)
  moreover have "ecc_sum 0 ?d = ecc_add (ecc_sum 0 ?d1) (ecc_term j (2 ^ l))"
    using assms ecc_sum_update [of j ?d1 0 "2 ^ l"] by (simp add: flip_bit_at_def [of j])
  ultimately have "ecc_sum 0 ?d = ecc_add ?r (ecc_add (ecc_term i (2 ^ k)) (ecc_term j (2 ^ l)))"
    by (simp add: ecc_add_assoc)
  then have "nand_correct_data ?d (ecc_code ?r) (ecc_code (ecc_sum 0 ?d)) = Some (- EBADMSG, ?d)"
    using assms(2-) by (simp add: nand_correct_data_by code_change correct_double)
  then show ?thesis using assms(1) by (auto simp: nand_calculate_ecc_code)
qed

theorem nand_correct_data_single_witness:
  "\<exists>code code'. nand_calculate_ecc (replicate 256 0xA5) = Some code \<and>
    nand_calculate_ecc (flip_bit_at 17 3 (replicate 256 0xA5)) = Some code' \<and>
    nand_correct_data (replicate 256 0xA5) code code = Some (0, replicate 256 0xA5) \<and>
    nand_correct_data (flip_bit_at 17 3 (replicate 256 0xA5)) code code' = Some (1, replicate 256 0xA5)"
  by (rule nand_correct_data_single) simp_all

theorem nand_correct_data_double_witness:
  "\<exists>code code'. nand_calculate_ecc (replicate 256 0xA5) = Some code \<and>
    nand_calculate_ecc (flip_bit_at 200 0 (flip_bit_at 17 3 (replicate 256 0xA5))) = Some code' \<and>
    nand_correct_data (flip_bit_at 200 0 (flip_bit_at 17 3 (replicate 256 0xA5))) code code' =
      Some (- EBADMSG, flip_bit_at 200 0 (flip_bit_at 17 3 (replicate 256 0xA5)))"
  by (rule nand_correct_data_double) simp_all

end
