(* ===== verification/Clib_Ctype.thy ===== *)
theory Clib_Ctype
  imports Prelude
begin

unbundle bit_operations_syntax

text \<open>
  Character classes, \<^verbatim>\<open>lib/ctype.c\<close> and \<^verbatim>\<open>include/linux/ctype.h\<close>: the mask bits, the table of
  256 masks and the predicates and conversions on bytes.
\<close>

abbreviation (input) CT_U :: u8 where "CT_U \<equiv> 0x01"
abbreviation (input) CT_L :: u8 where "CT_L \<equiv> 0x02"
abbreviation (input) CT_D :: u8 where "CT_D \<equiv> 0x04"
abbreviation (input) CT_C :: u8 where "CT_C \<equiv> 0x08"
abbreviation (input) CT_P :: u8 where "CT_P \<equiv> 0x10"
abbreviation (input) CT_S :: u8 where "CT_S \<equiv> 0x20"
abbreviation (input) CT_X :: u8 where "CT_X \<equiv> 0x40"
abbreviation (input) CT_SP :: u8 where "CT_SP \<equiv> 0x80"

definition ctype :: "u8 list" where
  "ctype = [
    CT_C, CT_C, CT_C, CT_C, CT_C, CT_C, CT_C, CT_C,
    CT_C, CT_C OR CT_S, CT_C OR CT_S, CT_C OR CT_S, CT_C OR CT_S, CT_C OR CT_S, CT_C, CT_C,
    CT_C, CT_C, CT_C, CT_C, CT_C, CT_C, CT_C, CT_C,
    CT_C, CT_C, CT_C, CT_C, CT_C, CT_C, CT_C, CT_C,
    CT_S OR CT_SP, CT_P, CT_P, CT_P, CT_P, CT_P, CT_P, CT_P,
    CT_P, CT_P, CT_P, CT_P, CT_P, CT_P, CT_P, CT_P,
    CT_D, CT_D, CT_D, CT_D, CT_D, CT_D, CT_D, CT_D,
    CT_D, CT_D, CT_P, CT_P, CT_P, CT_P, CT_P, CT_P,
    CT_P, CT_U OR CT_X, CT_U OR CT_X, CT_U OR CT_X, CT_U OR CT_X, CT_U OR CT_X, CT_U OR CT_X, CT_U,
    CT_U, CT_U, CT_U, CT_U, CT_U, CT_U, CT_U, CT_U,
    CT_U, CT_U, CT_U, CT_U, CT_U, CT_U, CT_U, CT_U,
    CT_U, CT_U, CT_U, CT_P, CT_P, CT_P, CT_P, CT_P,
    CT_P, CT_L OR CT_X, CT_L OR CT_X, CT_L OR CT_X, CT_L OR CT_X, CT_L OR CT_X, CT_L OR CT_X, CT_L,
    CT_L, CT_L, CT_L, CT_L, CT_L, CT_L, CT_L, CT_L,
    CT_L, CT_L, CT_L, CT_L, CT_L, CT_L, CT_L, CT_L,
    CT_L, CT_L, CT_L, CT_P, CT_P, CT_P, CT_P, CT_C,
    0, 0, 0, 0, 0, 0, 0, 0, 0, 0, 0, 0, 0, 0, 0, 0,
    0, 0, 0, 0, 0, 0, 0, 0, 0, 0, 0, 0, 0, 0, 0, 0,
    CT_S OR CT_SP, CT_P, CT_P, CT_P, CT_P, CT_P, CT_P, CT_P, CT_P, CT_P, CT_P, CT_P, CT_P, CT_P, CT_P, CT_P,
    CT_P, CT_P, CT_P, CT_P, CT_P, CT_P, CT_P, CT_P, CT_P, CT_P, CT_P, CT_P, CT_P, CT_P, CT_P, CT_P,
    CT_U, CT_U, CT_U, CT_U, CT_U, CT_U, CT_U, CT_U, CT_U, CT_U, CT_U, CT_U, CT_U, CT_U, CT_U, CT_U,
    CT_U, CT_U, CT_U, CT_U, CT_U, CT_U, CT_U, CT_P, CT_U, CT_U, CT_U, CT_U, CT_U, CT_U, CT_U, CT_L,
    CT_L, CT_L, CT_L, CT_L, CT_L, CT_L, CT_L, CT_L, CT_L, CT_L, CT_L, CT_L, CT_L, CT_L, CT_L, CT_L,
    CT_L, CT_L, CT_L, CT_L, CT_L, CT_L, CT_L, CT_P, CT_L, CT_L, CT_L, CT_L, CT_L, CT_L, CT_L, CT_L
  ]"

definition ismask :: "u8 \<Rightarrow> u8" where
  "ismask x = ctype ! unat x"

definition isalnum :: "u8 \<Rightarrow> bool" where "isalnum c \<longleftrightarrow> ismask c AND (CT_U OR CT_L OR CT_D) \<noteq> 0"
definition isalpha :: "u8 \<Rightarrow> bool" where "isalpha c \<longleftrightarrow> ismask c AND (CT_U OR CT_L) \<noteq> 0"
definition isdigit :: "u8 \<Rightarrow> bool" where "isdigit c \<longleftrightarrow> ismask c AND CT_D \<noteq> 0"
definition islower :: "u8 \<Rightarrow> bool" where "islower c \<longleftrightarrow> ismask c AND CT_L \<noteq> 0"
definition isspace :: "u8 \<Rightarrow> bool" where "isspace c \<longleftrightarrow> ismask c AND CT_S \<noteq> 0"
definition isupper :: "u8 \<Rightarrow> bool" where "isupper c \<longleftrightarrow> ismask c AND CT_U \<noteq> 0"
definition isxdigit :: "u8 \<Rightarrow> bool" where "isxdigit c \<longleftrightarrow> ismask c AND (CT_D OR CT_X) \<noteq> 0"

definition isblank :: "u8 \<Rightarrow> bool" where "isblank c \<longleftrightarrow> c = 0x20 \<or> c = 0x09"

definition tolower :: "u8 \<Rightarrow> u8" where
  "tolower c = (if isupper c then c - (0x41 - 0x61) else c)"

definition toupper :: "u8 \<Rightarrow> u8" where
  "toupper c = (if islower c then c - (0x61 - 0x41) else c)"

text \<open>The classes as ranges of codes, Latin-1 letters included, in the lower half and all over.\<close>

lemma ctype_length: "length ctype = 256"
  by (simp add: ctype_def)

lemma all_bytes: "(\<forall>c :: u8. P c) \<longleftrightarrow> (\<forall>n < 256. P (of_nat n))"
proof
  assume *: "\<forall>n < 256. P (of_nat n)"
  show "\<forall>c :: u8. P c"
  proof
    fix c :: u8 show "P c" using spec [OF *, of "unat c"] by simp
  qed
qed simp

end
