(* ===== verification/Clib_String.thy ===== *)
theory Clib_String
  imports Clib_Ctype
begin

unbundle bit_operations_syntax

text \<open>
  The string and memory functions of U-Boot, \<^verbatim>\<open>lib/string.c\<close>. Memory is the list of its bytes, an
  address is an index into it, a possibly null pointer an option; an access outside the memory has no
  result. \<open>char\<close> is unsigned, as on ARM. A loop that ends only at a NUL byte recurses on the part of the
  memory it has not passed yet, so it ends with no result when it runs off the end.
\<close>

type_synonym mem = "u8 list"
type_synonym ptr = nat

definition size_t :: "nat \<Rightarrow> u32" where
  "size_t n = of_nat n"

fun strncasecmp_loop :: "mem \<Rightarrow> nat \<Rightarrow> ptr \<Rightarrow> ptr \<Rightarrow> u8 \<times> u8 \<Rightarrow> (u8 \<times> u8) option" where
  "strncasecmp_loop m 0 s1 s2 cs = Some cs"
| "strncasecmp_loop m (Suc len) s1 s2 cs = do {
     c1 \<leftarrow> arr_get m s1;
     c2 \<leftarrow> arr_get m s2;
     if c1 = 0 then Some (c1, c2)
     else if c2 = 0 then Some (c1, c2)
     else if c1 = c2 then strncasecmp_loop m len (s1 + 1) (s2 + 1) (c1, c2)
     else do {
       let c1 = tolower c1;
       let c2 = tolower c2;
       if c1 \<noteq> c2 then Some (c1, c2)
       else strncasecmp_loop m len (s1 + 1) (s2 + 1) (c1, c2)
     }
   }"

definition strncasecmp :: "mem \<Rightarrow> ptr \<Rightarrow> ptr \<Rightarrow> u32 \<Rightarrow> int option" where
  "strncasecmp m s1 s2 len = do {
     (c1, c2) \<leftarrow> strncasecmp_loop m (unat len) s1 s2 (0, 0);
     Some (int (unat c1) - int (unat c2))
   }"

definition strcasecmp :: "mem \<Rightarrow> ptr \<Rightarrow> ptr \<Rightarrow> int option" where
  "strcasecmp m s1 s2 = strncasecmp m s1 s2 (- 1)"

function strcpy_loop :: "mem \<Rightarrow> ptr \<Rightarrow> ptr \<Rightarrow> mem option" where
  "strcpy_loop m dest src = do {
     c \<leftarrow> arr_get m src;
     m \<leftarrow> arr_set m dest c;
     if c \<noteq> 0 then strcpy_loop m (dest + 1) (src + 1) else Some m
   }"
  by pat_completeness auto
termination
  by (relation "measure (\<lambda>(m, dest, src). length m - src)") (auto simp: arr_get_Some_iff)

definition strcpy :: "mem \<Rightarrow> ptr \<Rightarrow> ptr \<Rightarrow> (ptr \<times> mem) option" where
  "strcpy m dest src = do { m \<leftarrow> strcpy_loop m dest src; Some (dest, m) }"

fun strncpy_loop :: "mem \<Rightarrow> ptr \<Rightarrow> ptr \<Rightarrow> nat \<Rightarrow> mem option" where
  "strncpy_loop m dest src 0 = Some m"
| "strncpy_loop m dest src (Suc count) = do {
     c \<leftarrow> arr_get m src;
     m \<leftarrow> arr_set m dest c;
     if c \<noteq> 0 then strncpy_loop m (dest + 1) (src + 1) count else Some m
   }"

definition strncpy :: "mem \<Rightarrow> ptr \<Rightarrow> ptr \<Rightarrow> u32 \<Rightarrow> (ptr \<times> mem) option" where
  "strncpy m dest src count = do { m \<leftarrow> strncpy_loop m dest src (unat count); Some (dest, m) }"

text \<open>The loop that looks for the NUL byte, of \<open>strlen\<close> and \<open>strcat\<close>.\<close>

function strend :: "mem \<Rightarrow> ptr \<Rightarrow> ptr option" where
  "strend m sc = do {
     c \<leftarrow> arr_get m sc;
     if c \<noteq> 0 then strend m (sc + 1) else Some sc
   }"
  by pat_completeness auto
termination
  by (relation "measure (\<lambda>(m, sc). length m - sc)") (auto simp: arr_get_Some_iff)

definition strcat :: "mem \<Rightarrow> ptr \<Rightarrow> ptr \<Rightarrow> (ptr \<times> mem) option" where
  "strcat m dest src = do {
     d \<leftarrow> strend m dest;
     m \<leftarrow> strcpy_loop m d src;
     Some (dest, m)
   }"

text \<open>The copy loop with the counter \<open>Suc count\<close>.\<close>

fun strncat_loop :: "mem \<Rightarrow> ptr \<Rightarrow> ptr \<Rightarrow> nat \<Rightarrow> mem option" where
  "strncat_loop m dest src count = do {
     c \<leftarrow> arr_get m src;
     m \<leftarrow> arr_set m dest c;
     if c \<noteq> 0 then
       (case count of 0 \<Rightarrow> arr_set m (dest + 1) 0
        | Suc count \<Rightarrow> strncat_loop m (dest + 1) (src + 1) count)
     else Some m
   }"

definition strncat :: "mem \<Rightarrow> ptr \<Rightarrow> ptr \<Rightarrow> u32 \<Rightarrow> (ptr \<times> mem) option" where
  "strncat m dest src count =
     (if count \<noteq> 0 then do {
        d \<leftarrow> strend m dest;
        m \<leftarrow> strncat_loop m d src (unat count - 1);
        Some (dest, m)
      }
      else Some (dest, m))"

text \<open>The difference is kept in a signed byte.\<close>

function strcmp_loop :: "mem \<Rightarrow> ptr \<Rightarrow> ptr \<Rightarrow> u8 option" where
  "strcmp_loop m cs ct = do {
     a \<leftarrow> arr_get m cs;
     b \<leftarrow> arr_get m ct;
     let res = a - b;
     if res \<noteq> 0 \<or> a = 0 then Some res else strcmp_loop m (cs + 1) (ct + 1)
   }"
  by pat_completeness auto
termination
  by (relation "measure (\<lambda>(m, cs, ct). length m - cs)") (auto simp: arr_get_Some_iff)

definition strcmp :: "mem \<Rightarrow> ptr \<Rightarrow> ptr \<Rightarrow> int option" where
  "strcmp m cs ct = do { res \<leftarrow> strcmp_loop m cs ct; Some (sint res) }"

fun strncmp_loop :: "mem \<Rightarrow> ptr \<Rightarrow> ptr \<Rightarrow> nat \<Rightarrow> u8 \<Rightarrow> u8 option" where
  "strncmp_loop m cs ct 0 res = Some res"
| "strncmp_loop m cs ct (Suc count) res = do {
     a \<leftarrow> arr_get m cs;
     b \<leftarrow> arr_get m ct;
     let res = a - b;
     if res \<noteq> 0 \<or> a = 0 then Some res else strncmp_loop m (cs + 1) (ct + 1) count res
   }"

definition strncmp :: "mem \<Rightarrow> ptr \<Rightarrow> ptr \<Rightarrow> u32 \<Rightarrow> int option" where
  "strncmp m cs ct count = do { res \<leftarrow> strncmp_loop m cs ct (unat count) 0; Some (sint res) }"

text \<open>A null result is \<open>Some None\<close>.\<close>

function strchr :: "mem \<Rightarrow> ptr \<Rightarrow> int \<Rightarrow> ptr option option" where
  "strchr m s c = do {
     x \<leftarrow> arr_get m s;
     if x \<noteq> of_int c then if x = 0 then Some None else strchr m (s + 1) c
     else Some (Some s)
   }"
  by pat_completeness auto
termination
  by (relation "measure (\<lambda>(m, s, c). length m - s)") (auto simp: arr_get_Some_iff)

definition strlen :: "mem \<Rightarrow> ptr \<Rightarrow> u32 option" where
  "strlen m s = do { sc \<leftarrow> strend m s; Some (size_t (sc - s)) }"

text \<open>The loop downwards from \<open>p = s + n\<close>.\<close>

fun strrchr_loop :: "mem \<Rightarrow> ptr \<Rightarrow> int \<Rightarrow> nat \<Rightarrow> ptr option option" where
  "strrchr_loop m s c n = do {
     x \<leftarrow> arr_get m (s + n);
     if x = of_int c then Some (Some (s + n))
     else (case n of 0 \<Rightarrow> Some None | Suc n \<Rightarrow> strrchr_loop m s c n)
   }"

definition strrchr :: "mem \<Rightarrow> ptr \<Rightarrow> int \<Rightarrow> ptr option option" where
  "strrchr m s c = do { n \<leftarrow> strlen m s; strrchr_loop m s c (unat n) }"

fun strnlen_loop :: "mem \<Rightarrow> ptr \<Rightarrow> nat \<Rightarrow> ptr option" where
  "strnlen_loop m sc 0 = Some sc"
| "strnlen_loop m sc (Suc count) = do {
     c \<leftarrow> arr_get m sc;
     if c \<noteq> 0 then strnlen_loop m (sc + 1) count else Some sc
   }"

definition strnlen :: "mem \<Rightarrow> ptr \<Rightarrow> u32 \<Rightarrow> u32 option" where
  "strnlen m s count = do { sc \<leftarrow> strnlen_loop m s (unat count); Some (size_t (sc - s)) }"

text \<open>The allocator is an argument: memory and size to a block, or to none, and the memory.\<close>

definition strdup :: "(mem \<Rightarrow> u32 \<Rightarrow> ptr option \<times> mem) \<Rightarrow> mem \<Rightarrow> ptr option \<Rightarrow> (ptr option \<times> mem) option" where
  "strdup malloc m s = (case s of
     None \<Rightarrow> Some (None, m)
   | Some s \<Rightarrow> do {
       n \<leftarrow> strlen m s;
       case malloc m (n + 1) of
         (None, m) \<Rightarrow> Some (None, m)
       | (Some new, m) \<Rightarrow> do { (_, m) \<leftarrow> strcpy m new s; Some (Some new, m) }
     })"

text \<open>The byte at which the inner loop of \<open>strspn\<close> stops.\<close>

function accept_loop :: "mem \<Rightarrow> u8 \<Rightarrow> ptr \<Rightarrow> u8 option" where
  "accept_loop m p a = do {
     x \<leftarrow> arr_get m a;
     if x \<noteq> 0 then if p = x then Some x else accept_loop m p (a + 1)
     else Some x
   }"
  by pat_completeness auto
termination
  by (relation "measure (\<lambda>(m, p, a). length m - a)") (auto simp: arr_get_Some_iff)

function strspn_loop :: "mem \<Rightarrow> ptr \<Rightarrow> ptr \<Rightarrow> u32 \<Rightarrow> u32 option" where
  "strspn_loop m p accept count = do {
     x \<leftarrow> arr_get m p;
     if x \<noteq> 0 then do {
       a \<leftarrow> accept_loop m x accept;
       if a = 0 then Some count else strspn_loop m (p + 1) accept (count + 1)
     }
     else Some count
   }"
  by pat_completeness auto
termination
  by (relation "measure (\<lambda>(m, p, accept, count). length m - p)") (auto simp: arr_get_Some_iff)

definition strspn :: "mem \<Rightarrow> ptr \<Rightarrow> ptr \<Rightarrow> u32 option" where
  "strspn m s accept = strspn_loop m s accept 0"

function strpbrk_inner :: "mem \<Rightarrow> u8 \<Rightarrow> ptr \<Rightarrow> bool option" where
  "strpbrk_inner m x sc2 = do {
     y \<leftarrow> arr_get m sc2;
     if y \<noteq> 0 then if x = y then Some True else strpbrk_inner m x (sc2 + 1)
     else Some False
   }"
  by pat_completeness auto
termination
  by (relation "measure (\<lambda>(m, x, sc2). length m - sc2)") (auto simp: arr_get_Some_iff)

function strpbrk :: "mem \<Rightarrow> ptr \<Rightarrow> ptr \<Rightarrow> ptr option option" where
  "strpbrk m sc1 ct = do {
     x \<leftarrow> arr_get m sc1;
     if x \<noteq> 0 then do {
       hit \<leftarrow> strpbrk_inner m x ct;
       if hit then Some (Some sc1) else strpbrk m (sc1 + 1) ct
     }
     else Some None
   }"
  by pat_completeness auto
termination
  by (relation "measure (\<lambda>(m, sc1, ct). length m - sc1)") (auto simp: arr_get_Some_iff)

text \<open>The token, the static pointer \<open>___strtok\<close> and the memory.\<close>

definition strtok :: "mem \<Rightarrow> ptr option \<Rightarrow> ptr option \<Rightarrow> ptr \<Rightarrow> (ptr option \<times> ptr option \<times> mem) option" where
  "strtok m sv s ct = (case (case s of Some s \<Rightarrow> Some s | None \<Rightarrow> sv) of
     None \<Rightarrow> Some (None, sv, m)
   | Some sbegin \<Rightarrow> do {
       n \<leftarrow> strspn m sbegin ct;
       let sbegin = sbegin + unat n;
       c \<leftarrow> arr_get m sbegin;
       if c = 0 then Some (None, None, m)
       else do {
         send \<leftarrow> strpbrk m sbegin ct;
         case send of
           None \<Rightarrow> Some (Some sbegin, None, m)
         | Some e \<Rightarrow> do {
             c \<leftarrow> arr_get m e;
             if c \<noteq> 0 then do { m \<leftarrow> arr_set m e 0; Some (Some sbegin, Some (e + 1), m) }
             else Some (Some sbegin, Some e, m)
           }
       }
     })"

text \<open>The token, the new value of the pointer \<open>*s\<close> and the memory.\<close>

definition strsep :: "mem \<Rightarrow> ptr option \<Rightarrow> ptr \<Rightarrow> (ptr option \<times> ptr option \<times> mem) option" where
  "strsep m s ct = (case s of
     None \<Rightarrow> Some (None, None, m)
   | Some sbegin \<Rightarrow> do {
       e \<leftarrow> strpbrk m sbegin ct;
       case e of
         Some e \<Rightarrow> do { m \<leftarrow> arr_set m e 0; Some (Some sbegin, Some (e + 1), m) }
       | None \<Rightarrow> Some (Some sbegin, None, m)
     })"

function strswab_loop :: "mem \<Rightarrow> ptr \<Rightarrow> mem option" where
  "strswab_loop m p = do {
     x \<leftarrow> arr_get m p;
     if x \<noteq> 0 then do {
       y \<leftarrow> arr_get m (p + 1);
       if y \<noteq> 0 then strswab_loop (m[p := y, p + 1 := x]) (p + 2) else Some m
     }
     else Some m
   }"
  by pat_completeness auto
termination
  by (relation "measure (\<lambda>(m, p). length m - p)") (auto simp: arr_get_Some_iff)

definition strswab :: "mem \<Rightarrow> ptr option \<Rightarrow> (ptr option \<times> mem) option" where
  "strswab m s = (case s of
     None \<Rightarrow> Some (None, m)
   | Some s \<Rightarrow> do {
       c \<leftarrow> arr_get m s;
       if c = 0 then Some (None, m)
       else do { m \<leftarrow> strswab_loop m s; Some (Some s, m) }
     })"

subsection \<open>Memory areas\<close>

text \<open>Loads and stores of little-endian words.\<close>

definition load_word :: "mem \<Rightarrow> ptr \<Rightarrow> u8 list option" where
  "load_word m a = (if a + 4 \<le> length m then Some (take 4 (drop a m)) else None)"

definition store_word :: "mem \<Rightarrow> ptr \<Rightarrow> u8 list \<Rightarrow> mem option" where
  "store_word m a bs = arr_blit m a bs"

definition word_bytes :: "u32 \<Rightarrow> u8 list" where
  "word_bytes w = [ucast w, ucast (drop_bit 8 w), ucast (drop_bit 16 w), ucast (drop_bit 24 w)]"

fun memset_word :: "nat \<Rightarrow> int \<Rightarrow> u32 \<Rightarrow> u32" where
  "memset_word 0 c cl = cl"
| "memset_word (Suc n) c cl = memset_word n c (push_bit 8 cl OR (of_int c AND 0xff))"

function memset_words :: "mem \<Rightarrow> ptr \<Rightarrow> u32 \<Rightarrow> nat \<Rightarrow> (mem \<times> ptr \<times> nat) option" where
  "memset_words m sl cl count =
     (if count \<ge> 4 then do {
        m \<leftarrow> store_word m sl (word_bytes cl);
        memset_words m (sl + 4) cl (count - 4)
      }
      else Some (m, sl, count))"
  by pat_completeness auto
termination
  by (relation "measure (\<lambda>(m, sl, cl, count). count)") auto

fun memset_bytes :: "mem \<Rightarrow> ptr \<Rightarrow> int \<Rightarrow> nat \<Rightarrow> mem option" where
  "memset_bytes m s8 c 0 = Some m"
| "memset_bytes m s8 c (Suc count) = do {
     m \<leftarrow> arr_set m s8 (of_int c);
     memset_bytes m (s8 + 1) c count
   }"

definition memset :: "mem \<Rightarrow> ptr \<Rightarrow> int \<Rightarrow> u32 \<Rightarrow> (ptr \<times> mem) option" where
  "memset m s c count = do {
     (m, s8, count) \<leftarrow> (if s mod 4 = 0 then memset_words m s (memset_word 4 c 0) (unat count)
                        else Some (m, s, unat count));
     m \<leftarrow> memset_bytes m s8 c count;
     Some (s, m)
   }"

text \<open>The loop \<open>while (count--) *d++ = *s++\<close> of \<open>bcopy\<close>, \<open>memcpy\<close> and \<open>memmove\<close>.\<close>

fun copy_up :: "mem \<Rightarrow> ptr \<Rightarrow> ptr \<Rightarrow> nat \<Rightarrow> mem option" where
  "copy_up m d s 0 = Some m"
| "copy_up m d s (Suc count) = do {
     c \<leftarrow> arr_get m s;
     m \<leftarrow> arr_set m d c;
     copy_up m (d + 1) (s + 1) count
   }"

text \<open>A negative count runs through all of memory.\<close>

definition bcopy :: "mem \<Rightarrow> ptr \<Rightarrow> ptr \<Rightarrow> int \<Rightarrow> (ptr \<times> mem) option" where
  "bcopy m src dest count =
     (if count < 0 then None else do { m \<leftarrow> copy_up m dest src (nat count); Some (dest, m) })"

function memcpy_words :: "mem \<Rightarrow> ptr \<Rightarrow> ptr \<Rightarrow> nat \<Rightarrow> (mem \<times> ptr \<times> ptr \<times> nat) option" where
  "memcpy_words m dl sl count =
     (if count \<ge> 4 then do {
        w \<leftarrow> load_word m sl;
        m \<leftarrow> store_word m dl w;
        memcpy_words m (dl + 4) (sl + 4) (count - 4)
      }
      else Some (m, dl, sl, count))"
  by pat_completeness auto
termination
  by (relation "measure (\<lambda>(m, dl, sl, count). count)") auto

declare memset_words.simps [simp del] memcpy_words.simps [simp del]

definition memcpy :: "mem \<Rightarrow> ptr \<Rightarrow> ptr \<Rightarrow> u32 \<Rightarrow> (ptr \<times> mem) option" where
  "memcpy m dest src count =
     (if src = dest then Some (dest, m)
      else do {
        (m, d8, s8, count) \<leftarrow> (if dest mod 4 = 0 \<and> src mod 4 = 0 then memcpy_words m dest src (unat count)
                               else Some (m, dest, src, unat count));
        m \<leftarrow> copy_up m d8 s8 count;
        Some (dest, m)
      })"

text \<open>The downward loop, with \<open>d\<close> and \<open>s\<close> the start of the areas.\<close>

fun copy_down :: "mem \<Rightarrow> ptr \<Rightarrow> ptr \<Rightarrow> nat \<Rightarrow> mem option" where
  "copy_down m d s 0 = Some m"
| "copy_down m d s (Suc count) = do {
     c \<leftarrow> arr_get m (s + count);
     m \<leftarrow> arr_set m (d + count) c;
     copy_down m d s count
   }"

definition memmove :: "mem \<Rightarrow> ptr \<Rightarrow> ptr \<Rightarrow> u32 \<Rightarrow> (ptr \<times> mem) option" where
  "memmove m dest src count =
     (if src = dest then Some (dest, m)
      else if dest \<le> src then do { m \<leftarrow> copy_up m dest src (unat count); Some (dest, m) }
      else do { m \<leftarrow> copy_down m dest src (unat count); Some (dest, m) })"

fun memcmp_loop :: "mem \<Rightarrow> ptr \<Rightarrow> ptr \<Rightarrow> nat \<Rightarrow> int option" where
  "memcmp_loop m su1 su2 0 = Some 0"
| "memcmp_loop m su1 su2 (Suc count) = do {
     a \<leftarrow> arr_get m su1;
     b \<leftarrow> arr_get m su2;
     let res = int (unat a) - int (unat b);
     if res \<noteq> 0 then Some res else memcmp_loop m (su1 + 1) (su2 + 1) count
   }"

definition memcmp :: "mem \<Rightarrow> ptr \<Rightarrow> ptr \<Rightarrow> u32 \<Rightarrow> int option" where
  "memcmp m cs ct count = memcmp_loop m cs ct (unat count)"

fun memscan_loop :: "mem \<Rightarrow> ptr \<Rightarrow> int \<Rightarrow> nat \<Rightarrow> ptr option" where
  "memscan_loop m p c 0 = Some p"
| "memscan_loop m p c (Suc sz) = do {
     x \<leftarrow> arr_get m p;
     if int (unat x) = c then Some p else memscan_loop m (p + 1) c sz
   }"

definition memscan :: "mem \<Rightarrow> ptr \<Rightarrow> int \<Rightarrow> u32 \<Rightarrow> ptr option" where
  "memscan m addr c sz = memscan_loop m addr c (unat sz)"

text \<open>The lengths are converted to \<open>int\<close>.\<close>

function strstr_loop :: "mem \<Rightarrow> ptr \<Rightarrow> ptr \<Rightarrow> int \<Rightarrow> int \<Rightarrow> ptr option option" where
  "strstr_loop m s1 s2 l1 l2 =
     (if l1 \<ge> l2 then do {
        let l1 = l1 - 1;
        r \<leftarrow> memcmp m s1 s2 (of_int l2);
        if r = 0 then Some (Some s1) else strstr_loop m (s1 + 1) s2 l1 l2
      }
      else Some None)"
  by pat_completeness auto
termination
  by (relation "measure (\<lambda>(m, s1, s2, l1, l2). nat (l1 - l2 + 1))") auto

declare strstr_loop.simps [simp del]

definition strstr :: "mem \<Rightarrow> ptr \<Rightarrow> ptr \<Rightarrow> ptr option option" where
  "strstr m s1 s2 = do {
     n2 \<leftarrow> strlen m s2;
     let l2 = sint n2;
     if l2 = 0 then Some (Some s1)
     else do {
       n1 \<leftarrow> strlen m s1;
       strstr_loop m s1 s2 (sint n1) l2
     }
   }"

fun memchr_loop :: "mem \<Rightarrow> ptr \<Rightarrow> int \<Rightarrow> nat \<Rightarrow> ptr option option" where
  "memchr_loop m p c 0 = Some None"
| "memchr_loop m p c (Suc n) = do {
     x \<leftarrow> arr_get m p;
     if of_int c = x then Some (Some p) else memchr_loop m (p + 1) c n
   }"

definition memchr :: "mem \<Rightarrow> ptr \<Rightarrow> int \<Rightarrow> u32 \<Rightarrow> ptr option option" where
  "memchr m s c n = memchr_loop m s c (unat n)"

fun check_bytes8 :: "mem \<Rightarrow> ptr \<Rightarrow> u8 \<Rightarrow> nat \<Rightarrow> ptr option option" where
  "check_bytes8 m start v 0 = Some None"
| "check_bytes8 m start v (Suc bytes) = do {
     x \<leftarrow> arr_get m start;
     if x \<noteq> v then Some (Some start) else check_bytes8 m (start + 1) v bytes
   }"

text \<open>Eight bytes as a little-endian 64-bit word.\<close>

definition load_u64 :: "mem \<Rightarrow> ptr \<Rightarrow> 64 word option" where
  "load_u64 m a = (if a + 8 \<le> length m
     then Some (foldr (\<lambda>b w. ucast b OR push_bit 8 w) (take 8 (drop a m)) 0) else None)"

definition memchr_value64 :: "u8 \<Rightarrow> 64 word" where
  "memchr_value64 v = (let w = ucast v;
     w = w OR push_bit 8 w;
     w = w OR push_bit 16 w
   in w OR push_bit 32 w)"

fun memchr_inv_words :: "mem \<Rightarrow> ptr \<Rightarrow> u8 \<Rightarrow> nat \<Rightarrow> (ptr option option) + ptr" where
  "memchr_inv_words m start v 0 = Inr start"
| "memchr_inv_words m start v (Suc words) =
     (case load_u64 m start of
        None \<Rightarrow> Inl None
      | Some w \<Rightarrow> if w \<noteq> memchr_value64 v then Inl (check_bytes8 m start v 8)
                  else memchr_inv_words m (start + 8) v words)"

definition memchr_inv :: "mem \<Rightarrow> ptr \<Rightarrow> int \<Rightarrow> u32 \<Rightarrow> ptr option option" where
  "memchr_inv m start c bytes = (let v = of_int c; n = unat bytes in
     if n \<le> 16 then check_bytes8 m start v n
     else
       (let tail = (\<lambda>start n. case memchr_inv_words m start v (n div 8) of
                      Inl r \<Rightarrow> r | Inr start \<Rightarrow> check_bytes8 m start v (n mod 8))
        in if start mod 8 \<noteq> 0 then do {
             let prefix = 8 - start mod 8;
             r \<leftarrow> check_bytes8 m start v prefix;
             case r of Some r \<Rightarrow> Some (Some r) | None \<Rightarrow> tail (start + prefix) (n - prefix)
           }
           else tail start n))"

declare strcpy_loop.simps [simp del] strend.simps [simp del] strcmp_loop.simps [simp del] strchr.simps [simp del]
  accept_loop.simps [simp del] strspn_loop.simps [simp del] strpbrk_inner.simps [simp del] strpbrk.simps [simp del]
  strswab_loop.simps [simp del] strncat_loop.simps [simp del] strrchr_loop.simps [simp del]

subsection \<open>Copies\<close>

text \<open>The memory after a correct copy of \<open>n\<close> bytes from \<open>s\<close> to \<open>d\<close>.\<close>

definition copied :: "mem \<Rightarrow> ptr \<Rightarrow> ptr \<Rightarrow> nat \<Rightarrow> mem" where
  "copied m d s n = take d m @ take n (drop s m) @ drop (d + n) m"

lemma copy_up_ok:
  "d \<le> s \<or> s + n \<le> d \<Longrightarrow> d + n \<le> length m \<Longrightarrow> s + n \<le> length m \<Longrightarrow> copy_up m d s n = Some (copied m d s n)"
proof (induction n arbitrary: m d s)
  case 0
  then show ?case by (simp add: copied_def)
next
  case (Suc n)
  let ?m = "m[d := m ! s]"
  have "copy_up ?m (d + 1) (s + 1) n = Some (copied ?m (d + 1) (s + 1) n)" using Suc.prems by (intro Suc.IH) auto
  moreover have "copied ?m (d + 1) (s + 1) n = copied m d s (Suc n)"
  proof -
    have "take (d + 1) ?m = take d m @ [m ! s]" using Suc.prems by (simp add: take_Suc_conv_app_nth)
    moreover have "take n (drop (s + 1) ?m) = take n (drop (s + 1) m)"
      using Suc.prems by (intro nth_equalityI) (auto simp: nth_list_update)
    moreover have "take (Suc n) (drop s m) = m ! s # take n (drop (s + 1) m)"
      using Suc.prems by (simp add: Cons_nth_drop_Suc [symmetric])
    ultimately show ?thesis using Suc.prems by (simp add: copied_def)
  qed
  ultimately show ?case using Suc.prems by simp
qed

lemma copy_down_ok:
  "s \<le> d \<Longrightarrow> d + n \<le> length m \<Longrightarrow> copy_down m d s n = Some (copied m d s n)"
proof (induction n arbitrary: m)
  case 0
  then show ?case by (simp add: copied_def)
next
  case (Suc n)
  let ?m = "m[d + n := m ! (s + n)]"
  have "copy_down ?m d s n = Some (copied ?m d s n)" using Suc.prems by (intro Suc.IH) auto
  moreover have "copied ?m d s n = copied m d s (Suc n)"
  proof -
    have "take n (drop s ?m) = take n (drop s m)"
      using Suc.prems by (intro nth_equalityI) (auto simp: nth_list_update)
    moreover have "drop (d + n) ?m = m ! (s + n) # drop (d + Suc n) m"
      using Suc.prems by (simp add: drop_update_swap Cons_nth_drop_Suc [symmetric])
    moreover have "take (Suc n) (drop s m) = take n (drop s m) @ [m ! (s + n)]"
      using Suc.prems by (simp add: take_Suc_conv_app_nth)
    ultimately show ?thesis by (simp add: copied_def)
  qed
  ultimately show ?case using Suc.prems by simp
qed

lemma length_copied: "d + n \<le> length m \<Longrightarrow> s + n \<le> length m \<Longrightarrow> length (copied m d s n) = length m"
  by (simp add: copied_def)

lemma copied_step:
  assumes "d \<le> s \<or> s + a + n \<le> d" "d + a + n \<le> length m" "s + a + n \<le> length m"
  shows "copied (copied m d s a) (d + a) (s + a) n = copied m d s (a + n)"
proof -
  have t: "take (d + a) (copied m d s a) = take d m @ take a (drop s m)"
    using assms by (simp add: copied_def)
  have "take n (drop (s + a) (copied m d s a)) = take n (drop (s + a) m)"
  proof (rule nth_equalityI)
    fix i assume "i < length (take n (drop (s + a) (copied m d s a)))"
    then have "i < n" using assms by (simp add: length_copied)
    then show "take n (drop (s + a) (copied m d s a)) ! i = take n (drop (s + a) m) ! i"
      using assms by (auto simp: copied_def nth_append)
  qed (use assms in \<open>simp add: length_copied\<close>)
  moreover have "drop (d + a + n) (copied m d s a) = drop (d + (a + n)) m"
    using assms by (simp add: copied_def ac_simps)
  moreover have "take (a + n) (drop s m) = take a (drop s m) @ take n (drop (s + a) m)"
    by (simp add: take_add add.commute)
  ultimately show ?thesis unfolding copied_def [of _ "d + a"] t by (simp add: copied_def)
qed

lemma memcpy_words_ok:
  assumes "d \<le> s \<or> s + n \<le> d" "d + n \<le> length m" "s + n \<le> length m"
  shows "memcpy_words m d s n =
    Some (copied m d s (4 * (n div 4)), d + 4 * (n div 4), s + 4 * (n div 4), n mod 4)"
  using assms
proof (induction m d s n rule: memcpy_words.induct)
  case (1 m d s n)
  show ?case
  proof (cases "n \<ge> 4")
    case False
    then show ?thesis by (simp add: memcpy_words.simps [of m d s n] copied_def)
  next
    case True
    have ld: "load_word m s = Some (take 4 (drop s m))" using 1 True by (simp add: load_word_def)
    have st: "store_word m d (take 4 (drop s m)) = Some (copied m d s 4)"
      using 1 True by (simp add: store_word_def arr_blit_eq copied_def)
    have len: "length (copied m d s 4) = length m" using 1 True by (intro length_copied) auto
    have "memcpy_words (copied m d s 4) (d + 4) (s + 4) (n - 4) =
        Some (copied (copied m d s 4) (d + 4) (s + 4) (4 * ((n - 4) div 4)), d + 4 + 4 * ((n - 4) div 4),
          s + 4 + 4 * ((n - 4) div 4), (n - 4) mod 4)"
      using 1 True by (intro "1.IH" [OF True ld st]) (auto simp: len)
    moreover have k: "4 * (n div 4) = 4 + 4 * ((n - 4) div 4)" "n mod 4 = (n - 4) mod 4"
      using True by (auto simp: le_div_geq le_mod_geq)
    moreover have "copied (copied m d s 4) (d + 4) (s + 4) (4 * ((n - 4) div 4)) = copied m d s (4 + 4 * ((n - 4) div 4))"
      using 1 True k(1) div_times_less_eq_dividend [of n 4] by (intro copied_step) (auto simp: algebra_simps)
    ultimately show ?thesis using True ld st by (simp add: memcpy_words.simps [of m d s n])
  qed
qed

text \<open>
  C13. \<open>memmove\<close> copies between any two areas inside the memory, overlapping or not: afterwards the
  destination holds the bytes the source had before, and no other byte has changed.
\<close>

theorem memmove_moves:
  assumes "dest + unat n \<le> length m" "src + unat n \<le> length m"
  shows "memmove m dest src n =
    Some (dest, take dest m @ take (unat n) (drop src m) @ drop (dest + unat n) m)"
proof -
  have "copied m src src (unat n) = m"
    using assms by (simp add: copied_def append_take_drop_id flip: take_add drop_drop)
      (metis append_assoc append_take_drop_id add.commute drop_drop)
  then show ?thesis
    using assms copy_up_ok [of dest src "unat n" m] copy_down_ok [of src dest "unat n" m]
    by (auto simp: memmove_def copied_def)
qed

theorem memmove_moves_witness:
  "memmove [1, 2, 3, 4, 5, 6] 1 0 4 = Some (1, [1, 1, 2, 3, 4, 6])"
  using memmove_moves [of 1 4 "[1, 2, 3, 4, 5, 6]" 0] by simp

text \<open>
  C30. \<open>memcpy\<close>, which copies a word at a time when both addresses are aligned, agrees with
  \<open>memmove\<close> on all areas that do not overlap, and whenever the destination lies below the source.
\<close>

theorem memcpy_is_memmove:
  assumes "dest \<le> src \<or> src + unat n \<le> dest" "dest + unat n \<le> length m" "src + unat n \<le> length m"
  shows "memcpy m dest src n = memmove m dest src n"
proof (cases "src = dest")
  case True
  then show ?thesis by (simp add: memcpy_def memmove_def)
next
  case ne: False
  let ?n = "unat n"
  have mv: "memmove m dest src n = Some (dest, copied m dest src ?n)"
    using assms ne copy_up_ok [of dest src ?n m] copy_down_ok [of src dest ?n m] by (auto simp: memmove_def)
  show ?thesis
  proof (cases "dest mod 4 = 0 \<and> src mod 4 = 0")
    case False
    then show ?thesis using ne assms copy_up_ok [of dest src ?n m] unfolding mv memcpy_def by auto
  next
    case True
    let ?k = "4 * (?n div 4)"
    have k: "?k + ?n mod 4 = ?n" by simp
    have w: "memcpy_words m dest src ?n = Some (copied m dest src ?k, dest + ?k, src + ?k, ?n mod 4)"
      using assms by (intro memcpy_words_ok)
    have "length (copied m dest src ?k) = length m" using assms k by (intro length_copied) linarith+
    then have "copy_up (copied m dest src ?k) (dest + ?k) (src + ?k) (?n mod 4) =
        Some (copied (copied m dest src ?k) (dest + ?k) (src + ?k) (?n mod 4))"
      using assms k by (intro copy_up_ok) linarith+
    moreover have "copied (copied m dest src ?k) (dest + ?k) (src + ?k) (?n mod 4) = copied m dest src (?k + ?n mod 4)"
      using assms k by (intro copied_step) linarith+
    ultimately show ?thesis using ne True w unfolding mv memcpy_def k by simp
  qed
qed

theorem memcpy_is_memmove_witness:
  "memcpy [1, 2, 3, 4, 5, 6, 7, 8, 9, 10, 11, 12] 0 4 6 = memmove [1, 2, 3, 4, 5, 6, 7, 8, 9, 10, 11, 12] 0 4 6"
  by (rule memcpy_is_memmove) simp_all

subsection \<open>Strings\<close>

text \<open>The NUL-terminated string at an address.\<close>

fun cstr :: "mem \<Rightarrow> ptr \<Rightarrow> u8 list \<Rightarrow> bool" where
  "cstr m a [] \<longleftrightarrow> arr_get m a = Some 0"
| "cstr m a (c # s) \<longleftrightarrow> arr_get m a = Some c \<and> c \<noteq> 0 \<and> cstr m (a + 1) s"

lemma cstr_strend: "cstr m a s \<Longrightarrow> strend m a = Some (a + length s)"
  by (induction s arbitrary: a) (auto simp: strend.simps [of m])

lemma cstr_length: "cstr m a s \<Longrightarrow> a + length s < length m"
  by (induction s arbitrary: a) (auto simp: arr_get_Some_iff, fastforce)

lemma cstr_bytes: "cstr m a s \<Longrightarrow> take (length s) (drop a m) = s"
proof (induction s arbitrary: a)
  case (Cons c s)
  then have "a < length m" "m ! a = c" by (auto simp: arr_get_Some_iff)
  then show ?case using Cons by (simp add: Cons_nth_drop_Suc [symmetric])
qed simp

lemma cstr_strlen: "cstr m a s \<Longrightarrow> length m \<le> 2 ^ 32 \<Longrightarrow> \<exists>n. strlen m a = Some n \<and> unat n = length s"
  using cstr_length [of m a s] by (simp add: strlen_def cstr_strend size_t_def unsigned_of_nat take_bit_nat_eq_self)

text \<open>The byte in which two strings are told apart.\<close>

fun scmp :: "u8 list \<Rightarrow> u8 list \<Rightarrow> u8" where
  "scmp [] [] = 0"
| "scmp [] (b # t) = 0 - b"
| "scmp (a # s) [] = a"
| "scmp (a # s) (b # t) = (if a = b then scmp s t else a - b)"

lemma strcmp_loop_scmp: "cstr m a s \<Longrightarrow> cstr m b t \<Longrightarrow> strcmp_loop m a b = Some (scmp s t)"
  by (induction s t arbitrary: a b rule: scmp.induct) (auto simp: strcmp_loop.simps [of m] Let_def)

lemma scmp_eq_0: "0 \<notin> set s \<Longrightarrow> 0 \<notin> set t \<Longrightarrow> scmp s t = 0 \<longleftrightarrow> s = t"
  by (induction s t rule: scmp.induct) auto

lemma cstr_nonzero: "cstr m a s \<Longrightarrow> 0 \<notin> set s"
  by (induction s arbitrary: a) auto

lemma sint_diff_ascii: "a < 128 \<Longrightarrow> b < 128 \<Longrightarrow> sint (a - b) = uint a - uint b" for a b :: u8
proof -
  assume "a < 128" "b < 128"
  then have lt: "uint a < 128" "uint b < 128" "0 \<le> uint a" "0 \<le> uint b" by (simp_all add: word_less_def)
  have "(2 :: int) ^ 7 = 128" by simp
  then have "signed_take_bit 7 (uint a - uint b) = uint a - uint b"
    using lt by (intro signed_take_bit_int_eq_self) linarith+
  then have "sint (word_of_int (uint a - uint b) :: u8) = uint a - uint b" by (simp only: sint_sbintrunc') simp
  then show ?thesis by simp
qed

lemma scmp_sign:
  "\<forall>c \<in> set s \<union> set t. c < 128 \<Longrightarrow> 0 \<notin> set s \<Longrightarrow> 0 \<notin> set t \<Longrightarrow>
   sint (scmp s t) < 0 \<longleftrightarrow> (s, t) \<in> lexord {(x, y). x < y}"
proof (induction s t rule: scmp.induct)
  case (2 b t)
  then have "uint b \<noteq> 0" by (simp add: uint_0_iff)
  then have "0 < uint b" using uint_ge_0 [of b] by linarith
  then show ?case using 2 sint_diff_ascii [of 0 b] by auto
next
  case (3 a s)
  then show ?case using sint_diff_ascii [of a 0] by auto
next
  case (4 a s b t)
  then show ?case using sint_diff_ascii [of a b] by (auto simp: word_less_def)
qed simp

text \<open>
  \<open>strcmp\<close> on two terminated strings returns; the result is 0 exactly for equal strings, and for
  strings of bytes below 128 it is negative exactly when the first one comes first in lexicographic
  order.
\<close>

theorem strcmp_compares:
  assumes "cstr m a s" "cstr m b t"
  shows "\<exists>r. strcmp m a b = Some r \<and> (r = 0 \<longleftrightarrow> s = t) \<and>
    ((\<forall>c \<in> set s \<union> set t. c < 128) \<longrightarrow> (r < 0 \<longleftrightarrow> (s, t) \<in> lexord {(x, y). x < y}))"
  using strcmp_loop_scmp [OF assms] scmp_eq_0 [of s t] scmp_sign [of s t]
    cstr_nonzero [OF assms(1)] cstr_nonzero [OF assms(2)]
  by (simp add: strcmp_def signed_eq_0_iff)

theorem strcmp_compares_witness:
  "\<exists>r. strcmp [0x61, 0x62, 0, 0x61, 0x63, 0] 0 3 = Some r \<and> r < 0"
proof -
  have "cstr [0x61, 0x62, 0, 0x61, 0x63, 0] 0 [0x61, 0x62]" "cstr [0x61, 0x62, 0, 0x61, 0x63, 0] 3 [0x61, 0x63]"
    by (simp_all add: arr_get_def)
  from strcmp_compares [OF this] show ?thesis by auto
qed

text \<open>With a byte of 128 or more the sign can be wrong: 0xE9 is above 0x41.\<close>

lemma strcmp_sign_wrong: "strcmp [0xE9, 0, 0x41, 0] 0 2 = Some (- 88)"
  by (simp add: strcmp_def strcmp_loop.simps [of _ 0 2] arr_get_def)

text \<open>Substring search.\<close>

definition occurs_at :: "'a list \<Rightarrow> 'a list \<Rightarrow> nat \<Rightarrow> bool" where
  "occurs_at t s i \<longleftrightarrow> i + length t \<le> length s \<and> take (length t) (drop i s) = t"

lemma memcmp_loop_eq:
  "a + n \<le> length m \<Longrightarrow> b + n \<le> length m \<Longrightarrow>
   \<exists>r. memcmp_loop m a b n = Some r \<and> (r = 0 \<longleftrightarrow> take n (drop a m) = take n (drop b m))"
proof (induction n arbitrary: a b)
  case (Suc n)
  then have "take (Suc n) (drop a m) = m ! a # take n (drop (a + 1) m)" "take (Suc n) (drop b m) = m ! b # take n (drop (b + 1) m)"
    by (simp_all add: Cons_nth_drop_Suc [symmetric])
  then show ?case using Suc by (auto simp: word_uint_eq_iff)
qed simp

lemma strstr_loop_first:
  assumes "cstr m a s" "cstr m b t" "t \<noteq> []" "length t < 2 ^ 31" "i \<le> length s + 1"
    and "\<forall>j < i. \<not> occurs_at t s j"
  shows "strstr_loop m (a + i) b (int (length s) - int i) (int (length t)) =
    Some (if \<exists>j. occurs_at t s j then Some (a + (LEAST j. occurs_at t s j)) else None)"
  using assms(5,6)
proof (induction "length s + 1 - i" arbitrary: i rule: less_induct)
  case less
  let ?l = "length t"
  show ?case
  proof (cases "i + ?l \<le> length s")
    case False
    then have "\<not> occurs_at t s j" for j using less.prems(2) by (cases "j < i") (auto simp: occurs_at_def)
    then show ?thesis using False by (subst strstr_loop.simps) auto
  next
    case True
    have "unat (of_int (int ?l) :: u32) = ?l"
      using assms(4) by (simp add: unsigned_of_nat take_bit_nat_eq_self)
    moreover have "take ?l (drop (a + i) m) = take ?l (drop i s)"
    proof -
      have "drop i s = take (length s - i) (drop (a + i) m)"
        using arg_cong [OF cstr_bytes [OF assms(1)], of "drop i"] by (simp add: drop_take add.commute)
      then show ?thesis using True by (simp add: min_def)
    qed
    moreover have "take ?l (drop b m) = t" by (rule cstr_bytes [OF assms(2)])
    moreover have "a + i + ?l \<le> length m" "b + ?l \<le> length m"
      using True cstr_length [OF assms(1)] cstr_length [OF assms(2)] by linarith+
    ultimately obtain r where r: "memcmp m (a + i) b (of_int (int ?l)) = Some r" "r = 0 \<longleftrightarrow> occurs_at t s i"
      using memcmp_loop_eq [of "a + i" ?l m b] True by (auto simp: memcmp_def occurs_at_def)
    show ?thesis
    proof (cases "occurs_at t s i")
      case occ: True
      then have "(LEAST j. occurs_at t s j) = i" using less.prems(2) by (intro Least_equality) (auto simp: not_less [symmetric])
      then show ?thesis using True occ r by (subst strstr_loop.simps) auto
    next
      case no: False
      have "\<forall>j < Suc i. \<not> occurs_at t s j" using no less.prems(2) by (auto simp: less_Suc_eq)
      moreover have "Suc i \<le> length s + 1" "length s + 1 - Suc i < length s + 1 - i" using True by auto
      ultimately have "strstr_loop m (a + Suc i) b (int (length s) - int (Suc i)) (int ?l) =
          Some (if \<exists>j. occurs_at t s j then Some (a + (LEAST j. occurs_at t s j)) else None)"
        by (intro less.hyps) auto
      then show ?thesis using True no r by (subst strstr_loop.simps) (auto simp: algebra_simps)
    qed
  qed
qed

text \<open>
  C31. \<open>strstr\<close> on two terminated strings, in a memory of at most 2 GB, returns the address of the first
  occurrence of the second string in the first one, and the null pointer when there is none.
\<close>

theorem strstr_finds_first:
  assumes "cstr m a s" "cstr m b t" "length m \<le> 2 ^ 31"
  shows "strstr m a b = Some (if \<exists>i. occurs_at t s i then Some (a + (LEAST i. occurs_at t s i)) else None)"
proof -
  from cstr_strlen [OF assms(1)] cstr_strlen [OF assms(2)] assms(3) obtain n1 n2 where
    n: "strlen m a = Some n1" "unat n1 = length s" "strlen m b = Some n2" "unat n2 = length t" by auto
  have lt: "length s < 2 ^ 31" "length t < 2 ^ 31"
    using cstr_length [OF assms(1)] cstr_length [OF assms(2)] assms(3) by linarith+
  have "sint n1 = int (length s)" "sint n2 = int (length t)"
    using sint_small [of n1] sint_small [of n2] n lt by simp_all
  moreover have "occurs_at [] s 0" by (simp add: occurs_at_def)
  ultimately show ?thesis
    using n strstr_loop_first [OF assms(1,2) _ lt(2), of 0] by (cases "t = []") (auto simp: strstr_def)
qed

theorem strstr_finds_first_witness:
  "strstr [0x61, 0x62, 0x63, 0, 0x62, 0x63, 0] 0 4 =
    Some (if \<exists>i. occurs_at [0x62, 0x63] [0x61, 0x62, 0x63 :: u8] i
      then Some (0 + (LEAST i. occurs_at [0x62, 0x63] [0x61, 0x62, 0x63 :: u8] i)) else None)"
  by (rule strstr_finds_first) (simp_all add: arr_get_def)

subsection \<open>The search for a different byte\<close>

lemma check_bytes8_append:
  "s + (a + b) \<le> length m \<Longrightarrow> check_bytes8 m s v (a + b) =
     (check_bytes8 m s v a \<bind> (\<lambda>r. case r of Some r \<Rightarrow> Some (Some r) | None \<Rightarrow> check_bytes8 m (s + a) v b))"
  by (induction a arbitrary: s) auto

lemma check_bytes8_all:
  "s + n \<le> length m \<Longrightarrow> check_bytes8 m s v n = Some None \<longleftrightarrow> take n (drop s m) = replicate n v"
proof (induction n arbitrary: s)
  case (Suc n)
  then have "take (Suc n) (drop s m) = m ! s # take n (drop (s + 1) m)" by (simp add: Cons_nth_drop_Suc [symmetric])
  then show ?case using Suc by auto
qed simp

lemma check_bytes8_some:
  "s + n \<le> length m \<Longrightarrow> check_bytes8 m s v n \<noteq> Some None \<Longrightarrow> \<exists>p. check_bytes8 m s v n = Some (Some p)"
  by (induction n arbitrary: s) auto

definition join64 :: "u8 list \<Rightarrow> 64 word" where
  "join64 bs = foldr (\<lambda>b w. ucast b OR push_bit 8 w) bs 0"

lemma bit_join64: "length bs \<le> 8 \<Longrightarrow> bit (join64 bs) n \<longleftrightarrow> n < 8 * length bs \<and> bit (bs ! (n div 8)) (n mod 8)"
proof (induction bs arbitrary: n)
  case (Cons b bs)
  have "join64 (b # bs) = ucast b OR push_bit 8 (join64 bs)" by (simp add: join64_def)
  then have "bit (join64 (b # bs)) n \<longleftrightarrow> bit b n \<or> 8 \<le> n \<and> n < 64 \<and> bit (join64 bs) (n - 8)"
    using bit_imp_le_length [of b n] by (simp only: bit_or_iff bit_unsigned_iff bit_push_bit_iff) auto
  also have "\<dots> \<longleftrightarrow> n < 8 * length (b # bs) \<and> bit ((b # bs) ! (n div 8)) (n mod 8)"
  proof (cases "n < 8")
    case True
    then show ?thesis by simp
  next
    case False
    then have q: "n div 8 = Suc ((n - 8) div 8)" "n mod 8 = (n - 8) mod 8" by (simp_all add: le_div_geq le_mod_geq)
    have "\<not> bit b n" using False by simp
    moreover have "bit (join64 bs) (n - 8) \<longleftrightarrow> n - 8 < 8 * length bs \<and> bit (bs ! ((n - 8) div 8)) ((n - 8) mod 8)"
      using Cons.IH [of "n - 8"] Cons.prems by simp
    moreover have "8 \<le> n \<and> n < 64 \<and> n - 8 < 8 * length bs \<longleftrightarrow> n < 8 * length (b # bs)"
      using False Cons.prems by auto
    ultimately show ?thesis unfolding q nth_Cons_Suc by blast
  qed
  finally show ?case .
qed (simp add: join64_def)

lemma join64_inj:
  assumes "length xs = 8" "length ys = 8" "join64 xs = join64 ys" shows "xs = ys"
proof (rule nth_equalityI)
  fix i assume "i < length xs"
  then have i: "i < 8" using assms by simp
  show "xs ! i = ys ! i"
  proof (rule bit_word_eqI)
    fix k assume "k < LENGTH(8)"
    then have k: "k < 8" by simp
    then have "(8 * i + k) div 8 = i" "(8 * i + k) mod 8 = k" "8 * i + k < 64" using i by auto
    then show "bit (xs ! i) k = bit (ys ! i) k"
      using bit_join64 [of xs "8 * i + k"] bit_join64 [of ys "8 * i + k"] assms by simp
  qed
qed (use assms in simp)

lemma bit_dup:
  assumes "\<And>n. bit w n \<longleftrightarrow> n < k \<and> bit v (n mod 8)" "8 dvd k" "2 * k \<le> 64"
  shows "bit (w OR push_bit k w :: 64 word) n \<longleftrightarrow> n < 2 * k \<and> bit (v :: u8) (n mod 8)"
proof -
  from assms(2) obtain j where j: "k = 8 * j" by (rule dvdE)
  have "(n - k) mod 8 = n mod 8" if "k \<le> n"
  proof -
    have "n mod 8 = (n - k + 8 * j) mod 8" using that j by simp
    also have "\<dots> = (n - k) mod 8" by (rule mod_mult_self2)
    finally show ?thesis by simp
  qed
  moreover have "bit (w OR push_bit k w) n \<longleftrightarrow> bit w n \<or> k \<le> n \<and> n < 64 \<and> bit w (n - k)"
    by (simp only: bit_or_iff bit_push_bit_iff) auto
  ultimately show ?thesis
    unfolding assms(1) [of n] assms(1) [of "n - k"] using assms(3) by (cases "k \<le> n") auto
qed

lemma value64_join: "memchr_value64 v = join64 (replicate 8 v)"
proof (rule bit_word_eqI)
  fix n assume "n < LENGTH(64)"
  have "bit (ucast v :: 64 word) n \<longleftrightarrow> n < 8 \<and> bit v (n mod 8)" for n
    using bit_imp_le_length [of v n] by (cases "n < 8") (auto simp: bit_simps)
  note 1 = bit_dup [OF this, simplified]
  note 2 = bit_dup [OF 1, simplified]
  note 3 = bit_dup [OF 2, simplified]
  show "bit (memchr_value64 v) n = bit (join64 (replicate 8 v)) n"
    using 3 [of n] bit_join64 [of "replicate 8 v" n] by (auto simp: memchr_value64_def Let_def)
qed

lemma load_u64_value:
  "a + 8 \<le> length m \<Longrightarrow> \<exists>w. load_u64 m a = Some w \<and> (w = memchr_value64 v \<longleftrightarrow> check_bytes8 m a v 8 = Some None)"
  using join64_inj [of "take 8 (drop a m)" "replicate 8 v"]
  by (auto simp: load_u64_def value64_join check_bytes8_all join64_def)

lemma memchr_inv_words_ok:
  "a + 8 * k \<le> length m \<Longrightarrow>
   (case memchr_inv_words m a v k of Inl r \<Rightarrow> r = check_bytes8 m a v (8 * k) \<and> r \<noteq> Some None
    | Inr p \<Rightarrow> p = a + 8 * k \<and> check_bytes8 m a v (8 * k) = Some None)"
proof (induction k arbitrary: a)
  case (Suc k)
  from load_u64_value [of a m v] Suc.prems obtain w where
    w: "load_u64 m a = Some w" "w = memchr_value64 v \<longleftrightarrow> check_bytes8 m a v 8 = Some None" by auto
  have ap: "check_bytes8 m a v (8 + 8 * k) = (check_bytes8 m a v 8 \<bind>
      (\<lambda>r. case r of Some r \<Rightarrow> Some (Some r) | None \<Rightarrow> check_bytes8 m (a + 8) v (8 * k)))"
    using Suc.prems by (intro check_bytes8_append) simp
  show ?case
  proof (cases "w = memchr_value64 v")
    case True
    then have "memchr_inv_words m a v (Suc k) = memchr_inv_words m (a + 8) v k"
      "check_bytes8 m a v (8 * Suc k) = check_bytes8 m (a + 8) v (8 * k)" using w ap by simp_all
    moreover have "a + 8 * Suc k = a + 8 + 8 * k" by simp
    ultimately show ?thesis using Suc.IH [of "a + 8"] Suc.prems by (simp only:)
  next
    case False
    then obtain p where "check_bytes8 m a v 8 = Some (Some p)"
      using w(2) check_bytes8_some [of a 8 m v] Suc.prems by auto
    moreover from this have "check_bytes8 m a v (8 * Suc k) = Some (Some p)" using ap by simp
    moreover have "memchr_inv_words m a v (Suc k) = Inl (check_bytes8 m a v 8)" using False w(1) by simp
    ultimately show ?thesis by (simp only: sum.case) simp
  qed
qed simp

text \<open>
  \<open>memchr_inv\<close>, which looks at eight bytes at a time between an unaligned start and a short rest, gives on
  every area inside the memory what the byte-wise search gives: the first byte that differs, or null.
\<close>

theorem memchr_inv_checks:
  assumes "start + unat n \<le> length m"
  shows "memchr_inv m start c n = check_bytes8 m start (of_int c) (unat n)"
proof -
  let ?v = "of_int c :: u8"
  let ?tail = "\<lambda>start n. case memchr_inv_words m start ?v (n div 8) of
                      Inl r \<Rightarrow> r | Inr start \<Rightarrow> check_bytes8 m start ?v (n mod 8)"
  have tail: "?tail s k = check_bytes8 m s ?v k" if "s + k \<le> length m" for s k
  proof -
    have "check_bytes8 m s ?v (8 * (k div 8) + k mod 8) = (check_bytes8 m s ?v (8 * (k div 8)) \<bind>
        (\<lambda>r. case r of Some r \<Rightarrow> Some (Some r) | None \<Rightarrow> check_bytes8 m (s + 8 * (k div 8)) ?v (k mod 8)))"
      using that by (intro check_bytes8_append) simp
    moreover have "s + 8 * (k div 8) \<le> length m" using that by (meson le_trans add_le_cancel_left times_div_less_eq_dividend)
    ultimately show ?thesis
      using memchr_inv_words_ok [of s "k div 8" m ?v] check_bytes8_some [of s "8 * (k div 8)" m ?v]
      by (auto split: sum.splits option.splits)
  qed
  show ?thesis
  proof (cases "unat n \<le> 16")
    case True
    then show ?thesis by (simp add: memchr_inv_def Let_def)
  next
    case False
    define p where "p = 8 - start mod 8"
    have p: "p + (unat n - p) = unat n" "start + p + (unat n - p) \<le> length m" using False assms by (auto simp: p_def)
    have "check_bytes8 m start ?v (p + (unat n - p)) = (check_bytes8 m start ?v p \<bind>
        (\<lambda>r. case r of Some r \<Rightarrow> Some (Some r) | None \<Rightarrow> check_bytes8 m (start + p) ?v (unat n - p)))"
      using p(2) by (intro check_bytes8_append) simp
    then show ?thesis
      unfolding p(1) memchr_inv_def Let_def p_def [symmetric] tail [OF assms] tail [OF p(2)]
      by (simp only: False if_False if_cancel)
  qed
qed

theorem memchr_inv_checks_witness:
  "memchr_inv (replicate 40 7) 3 7 30 = check_bytes8 (replicate 40 7) 3 7 30"
  using memchr_inv_checks [of 3 30 "replicate 40 7" 7] by simp

end
