(* ===== verification/Hashtable.thy ===== *)
theory Hashtable
  imports Prelude
begin

unbundle bit_operations_syntax

text \<open>
  The hash table behind the environment, \<^verbatim>\<open>lib/hashtable.c\<close> with \<^verbatim>\<open>include/search.h\<close>: creation, search
  and insertion by double hashing, deletion by tombstones, prefix search, walking. A string is the list of
  its bytes without the terminating NUL, a string or entry pointer that may be null an option; \<open>strcmp\<close>
  and \<open>strncmp\<close> appear as comparisons of byte lists. Table indices are natural numbers: they stay below
  twice the table size, which a table of 16-byte entries in 32-bit memory keeps far from overflow. The hash value itself wraps at 32 bits.
  The global \<open>errno\<close> and a count of allocations are part of the state; whether the n-th allocation
  succeeds, and the two initialisers that other files provide, are parameters. A freed string is no
  longer readable. Callbacks only return their verdict.
\<close>

datatype env_op = env_op_create | env_op_delete | env_op_overwrite

datatype ACTION = FIND | ENTER

record ENTRY =
  key :: "str option"
  data :: "str option"
  callback :: "(str \<Rightarrow> str option \<Rightarrow> env_op \<Rightarrow> u32 \<Rightarrow> int) option"
  flags :: int

record HENTRY =
  used :: int
  entry :: ENTRY

record hsearch_data =
  table :: "HENTRY list option"
  hsize :: u32
  filled :: u32
  change_ok :: "(ENTRY \<Rightarrow> str option \<Rightarrow> env_op \<Rightarrow> u32 \<Rightarrow> int) option"
  errno :: int
  allocs :: nat

record env_hooks =
  alloc :: "nat \<Rightarrow> bool"
  env_callback_init :: "ENTRY \<Rightarrow> ENTRY"
  env_flags_init :: "ENTRY \<Rightarrow> ENTRY"

abbreviation (input) EPERM :: int where "EPERM \<equiv> 1"
abbreviation (input) ESRCH :: int where "ESRCH \<equiv> 3"
abbreviation (input) ENOMEM :: int where "ENOMEM \<equiv> 12"
abbreviation (input) EINVAL :: int where "EINVAL \<equiv> 22"

definition strdup_h :: "env_hooks \<Rightarrow> str \<Rightarrow> hsearch_data \<Rightarrow> str option \<times> hsearch_data" where
  "strdup_h E s h = (if alloc E (allocs h) then Some s else None, h\<lparr>allocs := allocs h + 1\<rparr>)"

text \<open>\<open>strdup\<close> of a null pointer is null, without an allocation.\<close>

definition strdup_opt :: "env_hooks \<Rightarrow> str option \<Rightarrow> hsearch_data \<Rightarrow> str option \<times> hsearch_data" where
  "strdup_opt E s h = (case s of None \<Rightarrow> (None, h) | Some s \<Rightarrow> strdup_h E s h)"

subsection \<open>Creation\<close>

partial_function (option) isprime_loop :: "u32 \<Rightarrow> u32 \<Rightarrow> u32 option" where
  "isprime_loop number div0 =
     (if div0 * div0 < number \<and> number mod div0 \<noteq> 0 then isprime_loop number (div0 + 2) else Some div0)"

definition isprime :: "u32 \<Rightarrow> bool option" where
  "isprime number = do {
     d \<leftarrow> isprime_loop number 3;
     Some (number mod d \<noteq> 0)
   }"

partial_function (option) next_prime :: "u32 \<Rightarrow> u32 option" where
  "next_prime nel = do {
     p \<leftarrow> isprime nel;
     if \<not> p then next_prime (nel + 2) else Some nel
   }"

definition empty_slot :: HENTRY where
  "empty_slot = \<lparr>used = 0, entry = \<lparr>key = None, data = None, callback = None, flags = 0\<rparr>\<rparr>"

text \<open>The result with the state; the table pointer itself is not null.\<close>

definition hcreate_r :: "env_hooks \<Rightarrow> u32 \<Rightarrow> hsearch_data \<Rightarrow> (int \<times> hsearch_data) option" where
  "hcreate_r E nel h =
     (if table h \<noteq> None then Some (0, h)
      else do {
        nel \<leftarrow> next_prime (nel OR 1);
        let h = h\<lparr>hsize := nel, filled := 0\<rparr>;
        let ok = alloc E (allocs h);
        let h = h\<lparr>allocs := allocs h + 1,
                  table := (if ok then Some (replicate (unat (hsize h) + 1) empty_slot) else None)\<rparr>;
        if table h = None then Some (0, h) else Some (1, h)
      })"

text \<open>Freeing the strings of the live entries has no effect that remains: the table itself is freed.\<close>

definition hdestroy_r :: "hsearch_data \<Rightarrow> hsearch_data" where
  "hdestroy_r h = h\<lparr>table := None\<rparr>"

subsection \<open>Search\<close>

fun hmatch_loop :: "nat \<Rightarrow> nat \<Rightarrow> str \<Rightarrow> HENTRY list \<Rightarrow> nat option option" where
  "hmatch_loop 0 idx match t = Some None"
| "hmatch_loop (Suc n) idx match t = do {
     s \<leftarrow> arr_get t idx;
     if used s \<le> 0 then hmatch_loop n (idx + 1) match t
     else do {
       k \<leftarrow> key (entry s);
       if take (length match) k = match then Some (Some idx) else hmatch_loop n (idx + 1) match t
     }
   }"

definition hmatch_r :: "str \<Rightarrow> nat \<Rightarrow> hsearch_data \<Rightarrow> (int \<times> nat option \<times> hsearch_data) option" where
  "hmatch_r match last_idx h = do {
     t \<leftarrow> table h;
     r \<leftarrow> hmatch_loop (unat (hsize h) - (last_idx + 1)) (last_idx + 1) match t;
     case r of
       Some idx \<Rightarrow> Some (int idx, Some idx, h)
     | None \<Rightarrow> Some (0, None, h\<lparr>errno := ESRCH\<rparr>)
   }"

text \<open>Verdicts of the permission hook and of the callback of an entry.\<close>

definition change_rejected :: "hsearch_data \<Rightarrow> ENTRY \<Rightarrow> str option \<Rightarrow> env_op \<Rightarrow> u32 \<Rightarrow> bool" where
  "change_rejected h e newval op flag =
     (case change_ok h of None \<Rightarrow> False | Some f \<Rightarrow> f e newval op flag \<noteq> 0)"

definition callback_rejected :: "ENTRY \<Rightarrow> str \<Rightarrow> str option \<Rightarrow> env_op \<Rightarrow> u32 \<Rightarrow> bool" where
  "callback_rejected e name v op flag =
     (case callback e of None \<Rightarrow> False | Some f \<Rightarrow> f name v op flag \<noteq> 0)"

definition set_slot :: "nat \<Rightarrow> HENTRY \<Rightarrow> hsearch_data \<Rightarrow> hsearch_data" where
  "set_slot idx s h = h\<lparr>table := map_option (\<lambda>t. t[idx := s]) (table h)\<rparr>"

text \<open>The return code, the entry pointer (as index) and the state; code -1 is to keep searching.\<close>

definition compare_and_overwrite_entry ::
  "env_hooks \<Rightarrow> ENTRY \<Rightarrow> ACTION \<Rightarrow> hsearch_data \<Rightarrow> u32 \<Rightarrow> nat \<Rightarrow> nat \<Rightarrow> (int \<times> nat option \<times> hsearch_data) option" where
  "compare_and_overwrite_entry E item action h flag hval idx = do {
     t \<leftarrow> table h;
     s \<leftarrow> arr_get t idx;
     if used s = int hval then do {
       ik \<leftarrow> key item;
       k \<leftarrow> key (entry s);
       if ik = k then
         (case (action, data item) of
            (ENTER, Some d) \<Rightarrow>
              if change_rejected h (entry s) (Some d) env_op_overwrite flag then
                Some (0, None, h\<lparr>errno := EPERM\<rparr>)
              else if callback_rejected (entry s) ik (Some d) env_op_overwrite flag then
                Some (0, None, h\<lparr>errno := EINVAL\<rparr>)
              else do {
                let (d', h) = strdup_h E d h;
                let h = set_slot idx (s\<lparr>entry := (entry s)\<lparr>data := d'\<rparr>\<rparr>) h;
                if d' = None then Some (0, None, h\<lparr>errno := ENOMEM\<rparr>)
                else Some (int idx, Some idx, h)
              }
          | _ \<Rightarrow> Some (int idx, Some idx, h))
       else Some (-1, None, h)
     }
     else Some (-1, None, h)
   }"

text \<open>The hash value of a key, over its bytes from the last one to the first.\<close>

definition hash_string :: "str \<Rightarrow> u32" where
  "hash_string k = foldl (\<lambda>hval c. push_bit 4 hval + ucast c) (of_nat (length k)) (rev k)"

definition first_hash :: "nat \<Rightarrow> str \<Rightarrow> nat" where
  "first_hash n k = (let hval = unat (hash_string k) mod n in if hval = 0 then hval + 1 else hval)"

definition second_hash :: "nat \<Rightarrow> nat \<Rightarrow> nat" where
  "second_hash n hval = 1 + hval mod (n - 2)"

definition probe_next :: "nat \<Rightarrow> nat \<Rightarrow> nat \<Rightarrow> nat" where
  "probe_next n hval2 idx = (if idx \<le> hval2 then n + idx - hval2 else idx - hval2)"

text \<open>
  The probing loop returns a final result of the search or the index at which it stops. It never takes
  more than as many steps as the table has slots before it is back at the first index; the first argument
  counts them down.
\<close>

fun hsearch_loop ::
  "nat \<Rightarrow> env_hooks \<Rightarrow> ENTRY \<Rightarrow> ACTION \<Rightarrow> hsearch_data \<Rightarrow> u32 \<Rightarrow> nat \<Rightarrow> nat \<Rightarrow> nat \<Rightarrow>
   ((int \<times> nat option \<times> hsearch_data) + nat) option" where
  "hsearch_loop 0 E item action h flag hval hval2 idx = None"
| "hsearch_loop (Suc fuel) E item action h flag hval hval2 idx = do {
     let idx = probe_next (unat (hsize h)) hval2 idx;
     if idx = hval then Some (Inr idx)
     else do {
       (ret, rv, h') \<leftarrow> compare_and_overwrite_entry E item action h flag hval idx;
       if ret \<noteq> -1 then Some (Inl (ret, rv, h'))
       else do {
         t \<leftarrow> table h;
         s \<leftarrow> arr_get t idx;
         if used s \<noteq> 0 then hsearch_loop fuel E item action h flag hval hval2 idx else Some (Inr idx)
       }
     }
   }"

text \<open>Deleting an entry leaves a tombstone.\<close>

definition hdelete_slot :: "hsearch_data \<Rightarrow> nat \<Rightarrow> hsearch_data option" where
  "hdelete_slot h idx = do {
     t \<leftarrow> table h;
     s \<leftarrow> arr_get t idx;
     let h = set_slot idx \<lparr>used = -1,
               entry = (entry s)\<lparr>key := None, data := None, callback := None, flags := 0\<rparr>\<rparr> h;
     Some (h\<lparr>filled := filled h - 1\<rparr>)
   }"

text \<open>The second half of the search: a new entry at the index found, with its copies and its checks.\<close>

definition hsearch_enter ::
  "env_hooks \<Rightarrow> ENTRY \<Rightarrow> ACTION \<Rightarrow> hsearch_data \<Rightarrow> u32 \<Rightarrow> nat \<Rightarrow> nat \<Rightarrow> nat \<Rightarrow> (int \<times> nat option \<times> hsearch_data) option" where
  "hsearch_enter E item action h flag hval first_deleted idx =
     (if action = ENTER then
        if filled h = hsize h then Some (0, None, h\<lparr>errno := ENOMEM\<rparr>)
        else do {
          let idx = (if first_deleted \<noteq> 0 then first_deleted else idx);
          t \<leftarrow> table h;
          s \<leftarrow> arr_get t idx;
          ik \<leftarrow> key item;
          let (k, h) = strdup_h E ik h;
          let (d, h) = strdup_opt E (data item) h;
          let s = s\<lparr>used := int hval, entry := (entry s)\<lparr>key := k, data := d\<rparr>\<rparr>;
          if k = None \<or> d = None then Some (0, None, (set_slot idx s h)\<lparr>errno := ENOMEM\<rparr>)
          else do {
            let h = h\<lparr>filled := filled h + 1\<rparr>;
            let e = env_flags_init E (env_callback_init E (entry s));
            let h = set_slot idx (s\<lparr>entry := e\<rparr>) h;
            if change_rejected h e (data item) env_op_create flag then do {
              h \<leftarrow> hdelete_slot h idx;
              Some (0, None, h\<lparr>errno := EPERM\<rparr>)
            }
            else if callback_rejected e ik (data item) env_op_create flag then do {
              h \<leftarrow> hdelete_slot h idx;
              Some (0, None, h\<lparr>errno := EINVAL\<rparr>)
            }
            else Some (1, Some idx, h)
          }
        }
      else Some (0, None, h\<lparr>errno := ESRCH\<rparr>))"

definition hsearch_r ::
  "env_hooks \<Rightarrow> ENTRY \<Rightarrow> ACTION \<Rightarrow> hsearch_data \<Rightarrow> u32 \<Rightarrow> (int \<times> nat option \<times> hsearch_data) option" where
  "hsearch_r E item action h flag = do {
     ik \<leftarrow> key item;
     let n = unat (hsize h);
     if n = 0 then None
     else do {
       let hval = first_hash n ik;
       t \<leftarrow> table h;
       s \<leftarrow> arr_get t hval;
       if used s \<noteq> 0 then do {
         let first_deleted = (if used s = -1 then hval else 0);
         (ret, rv, h') \<leftarrow> compare_and_overwrite_entry E item action h flag hval hval;
         if ret \<noteq> -1 then Some (ret, rv, h')
         else if n = 2 then None
         else do {
           r \<leftarrow> hsearch_loop n E item action h flag hval (second_hash n hval) hval;
           case r of
             Inl res \<Rightarrow> Some res
           | Inr idx \<Rightarrow> hsearch_enter E item action h flag hval first_deleted idx
         }
       }
       else hsearch_enter E item action h flag hval 0 hval
     }
   }"

definition key_item :: "str \<Rightarrow> ENTRY" where
  "key_item k = \<lparr>key = Some k, data = None, callback = None, flags = 0\<rparr>"

definition hdelete_r :: "env_hooks \<Rightarrow> str \<Rightarrow> hsearch_data \<Rightarrow> u32 \<Rightarrow> (int \<times> hsearch_data) option" where
  "hdelete_r E k h flag = do {
     (idx, ep, h) \<leftarrow> hsearch_r E (key_item k) FIND h 0;
     if idx = 0 then Some (0, h\<lparr>errno := ESRCH\<rparr>)
     else do {
       t \<leftarrow> table h;
       i \<leftarrow> ep;
       s \<leftarrow> arr_get t i;
       if change_rejected h (entry s) None env_op_delete flag then Some (0, h\<lparr>errno := EPERM\<rparr>)
       else if callback_rejected (entry s) k None env_op_delete flag then Some (0, h\<lparr>errno := EINVAL\<rparr>)
       else do {
         h \<leftarrow> hdelete_slot h i;
         Some (1, h)
       }
     }
   }"

text \<open>Walking the entries; the callback may change its entry.\<close>

fun hwalk_loop :: "nat \<Rightarrow> nat \<Rightarrow> (ENTRY \<Rightarrow> int \<times> ENTRY) \<Rightarrow> HENTRY list \<Rightarrow> (int \<times> HENTRY list) option" where
  "hwalk_loop 0 i f t = Some (0, t)"
| "hwalk_loop (Suc n) i f t = do {
     s \<leftarrow> arr_get t i;
     if used s > 0 then do {
       let (r, e) = f (entry s);
       let t = t[i := s\<lparr>entry := e\<rparr>];
       if r \<noteq> 0 then Some (r, t) else hwalk_loop n (i + 1) f t
     }
     else hwalk_loop n (i + 1) f t
   }"

definition hwalk_r :: "hsearch_data \<Rightarrow> (ENTRY \<Rightarrow> int \<times> ENTRY) \<Rightarrow> (int \<times> hsearch_data) option" where
  "hwalk_r h f = do {
     t \<leftarrow> table h;
     (r, t) \<leftarrow> hwalk_loop (unat (hsize h)) 1 f t;
     Some (r, h\<lparr>table := Some t\<rparr>)
   }"

end
