(* ===== verification/Hash_Map.thy ===== *)
theory Hash_Map
  imports Hashtable
begin

text \<open>
  The hash table as a finite map from names to values. The table size is a prime, so the probe sequence
  of a key visits every slot; the invariant says that every live entry lies on the probe sequence
  of its key before the first empty slot. Search, insertion and deletion are shown to refine lookup, update
  and removal in the map.
\<close>

subsection \<open>Probe sequences\<close>

definition prime_nat :: "nat \<Rightarrow> bool" where
  "prime_nat n \<longleftrightarrow> 1 < n \<and> (\<forall>d. d dvd n \<longrightarrow> d = 1 \<or> d = n)"

text \<open>The slot of a residue, and the slot that the search for a key looks at after \<open>j\<close> steps.\<close>

definition slot_of :: "nat \<Rightarrow> nat \<Rightarrow> nat" where
  "slot_of n r = (if r mod n = 0 then n else r mod n)"

definition probe :: "nat \<Rightarrow> str \<Rightarrow> nat \<Rightarrow> nat" where
  "probe n k j = slot_of n (first_hash n k + j * (n - second_hash n (first_hash n k)))"

lemma slot_of_range: "0 < n \<Longrightarrow> 1 \<le> slot_of n r \<and> slot_of n r \<le> n"
  by (auto simp: slot_of_def less_imp_le Suc_le_eq)

lemma slot_of_eq_iff: "0 < n \<Longrightarrow> slot_of n a = slot_of n b \<longleftrightarrow> a mod n = b mod n"
proof -
  assume "0 < n"
  then have "a mod n \<noteq> n" "b mod n \<noteq> n" using mod_less_divisor [of n a] mod_less_divisor [of n b] by linarith+
  then show ?thesis unfolding slot_of_def by auto
qed

lemma slot_of_small: "1 \<le> i \<Longrightarrow> i \<le> n \<Longrightarrow> slot_of n i = i"
  by (cases "i = n") (auto simp: slot_of_def)

lemma slot_of_mod: "0 < n \<Longrightarrow> slot_of n (slot_of n a + b) = slot_of n (a + b)"
  using mod_add_left_eq [of a n b]
  by (subst slot_of_eq_iff) (auto simp: slot_of_def)

lemma first_hash_range: "1 < n \<Longrightarrow> 1 \<le> first_hash n k \<and> first_hash n k < n"
  by (auto simp: first_hash_def Let_def)

lemma second_hash_range: "2 < n \<Longrightarrow> 1 \<le> second_hash n a \<and> second_hash n a < n - 1"
proof -
  assume n: "2 < n"
  then have "a mod (n - 2) < n - 2" by simp
  with n show ?thesis unfolding second_hash_def by linarith
qed

lemma probe_next_slot:
  assumes "1 \<le> b" "b < n" "1 \<le> i" "i \<le> n"
  shows "probe_next n b i = slot_of n (i + (n - b))"
proof (cases "i \<le> b")
  case True
  then have "1 \<le> i + (n - b)" "i + (n - b) \<le> n" using assms by linarith+
  then have "slot_of n (i + (n - b)) = i + (n - b)" by (rule slot_of_small)
  then show ?thesis using True assms by (simp only: probe_next_def if_True)
next
  case False
  then have *: "i + (n - b) = (i - b) + n" using assms by linarith
  have "slot_of n (i + (n - b)) = slot_of n (i - b)" unfolding * slot_of_def by simp
  then show ?thesis using False assms by (simp add: probe_next_def slot_of_small)
qed

lemma probe_0: "1 < n \<Longrightarrow> probe n k 0 = first_hash n k"
  using first_hash_range [of n k] by (simp add: probe_def slot_of_small)

lemma probe_range: "0 < n \<Longrightarrow> 1 \<le> probe n k j \<and> probe n k j \<le> n"
  unfolding probe_def by (rule slot_of_range)

lemma probe_Suc:
  assumes "2 < n"
  shows "probe_next n (second_hash n (first_hash n k)) (probe n k j) = probe n k (Suc j)"
proof -
  let ?b = "second_hash n (first_hash n k)"
  have "probe_next n ?b (probe n k j) = slot_of n (probe n k j + (n - ?b))"
    using assms second_hash_range [of n "first_hash n k"] probe_range [of n k j] by (intro probe_next_slot) auto
  also have "\<dots> = slot_of n (first_hash n k + j * (n - ?b) + (n - ?b))"
    unfolding probe_def using assms by (intro slot_of_mod) simp
  also have "first_hash n k + j * (n - ?b) + (n - ?b) = first_hash n k + Suc j * (n - ?b)" by simp
  finally show ?thesis by (simp only: probe_def)
qed

lemma probe_inj:
  assumes "prime_nat n" "2 < n" "i < n" "j < n" "probe n k i = probe n k j"
  shows "i = j"
proof -
  let ?c = "n - second_hash n (first_hash n k)"
  have c: "0 < ?c" "?c < n" using second_hash_range [OF assms(2), of "first_hash n k"] by auto
  have "gcd ?c n dvd n" "gcd ?c n \<le> ?c" using c by (auto intro: gcd_le1_nat)
  then have "gcd ?c n = 1" using assms(1) c unfolding prime_nat_def by (metis less_le_not_le)
  then have cop: "coprime n ?c" by (simp add: coprime_iff_gcd_eq_1 gcd.commute)
  have main: "i' = j'" if "i' \<le> j'" "j' < n" "(first_hash n k + i' * ?c) mod n = (first_hash n k + j' * ?c) mod n" for i' j'
  proof -
    have "n dvd (first_hash n k + j' * ?c) - (first_hash n k + i' * ?c)"
      using that by (intro mod_eq_dvd_iff_nat [THEN iffD1]) (auto intro: mult_le_mono1)
    then have "n dvd (j' - i') * ?c" by (simp add: diff_mult_distrib)
    then have "n dvd j' - i'" using cop by (simp add: coprime_dvd_mult_left_iff)
    then show ?thesis using that by (auto dest: dvd_imp_le)
  qed
  have "(first_hash n k + i * ?c) mod n = (first_hash n k + j * ?c) mod n"
    using assms by (simp add: probe_def slot_of_eq_iff)
  then show ?thesis using main [of i j] main [of j i] assms(3,4) by (cases "i \<le> j") auto
qed

lemma probe_onto:
  assumes "prime_nat n" "2 < n" "1 \<le> i" "i \<le> n"
  shows "\<exists>j < n. probe n k j = i"
proof -
  have "inj_on (probe n k) {..<n}" using probe_inj [OF assms(1,2)] by (auto simp: inj_on_def)
  then have "card (probe n k ` {..<n}) = n" by (simp add: card_image)
  moreover have "probe n k ` {..<n} \<subseteq> {1..n}" using probe_range [of n k] assms(2) by auto
  ultimately have "probe n k ` {..<n} = {1..n}" by (intro card_subset_eq) auto
  moreover have "i \<in> {1..n}" using assms by auto
  ultimately have "i \<in> probe n k ` {..<n}" by simp
  then show ?thesis by auto
qed

lemma probe_cycle: "1 < n \<Longrightarrow> probe n k n = first_hash n k"
  using first_hash_range [of n k] slot_of_small [of "first_hash n k" n]
  by (simp add: probe_def slot_of_def del: mod_mult_self1_is_0)

subsection \<open>The table as a map\<close>

definition live :: "HENTRY \<Rightarrow> bool" where
  "live s \<longleftrightarrow> 0 < used s"

definition slot_pair :: "HENTRY \<Rightarrow> (str \<times> str) option" where
  "slot_pair s = (if live s then (case (key (entry s), data (entry s)) of (Some k, Some d) \<Rightarrow> Some (k, d) | _ \<Rightarrow> None) else None)"

definition table_map :: "HENTRY list \<Rightarrow> str \<rightharpoonup> str" where
  "table_map t = map_of (List.map_filter slot_pair (tl t))"

definition hmap :: "hsearch_data \<Rightarrow> str \<rightharpoonup> str" where
  "hmap h = (case table h of None \<Rightarrow> Map.empty | Some t \<Rightarrow> table_map t)"

text \<open>The live slot of a key: the slot lies on the probe sequence and no slot before it is empty.\<close>

definition holds :: "nat \<Rightarrow> HENTRY list \<Rightarrow> str \<Rightarrow> nat \<Rightarrow> bool" where
  "holds n t k i \<longleftrightarrow> 1 \<le> i \<and> i \<le> n \<and> used (t ! i) = int (first_hash n k) \<and> key (entry (t ! i)) = Some k"

definition reached :: "nat \<Rightarrow> HENTRY list \<Rightarrow> str \<Rightarrow> nat \<Rightarrow> bool" where
  "reached n t k i \<longleftrightarrow> (\<exists>j < n. i = probe n k j \<and> (\<forall>m < j. used (t ! probe n k m) \<noteq> 0))"

definition table_inv :: "nat \<Rightarrow> HENTRY list \<Rightarrow> bool" where
  "table_inv n t \<longleftrightarrow>
     prime_nat n \<and> 2 < n \<and> length t = n + 1 \<and>
     (\<forall>i. 1 \<le> i \<and> i \<le> n \<and> live (t ! i) \<longrightarrow>
        (\<exists>k d. holds n t k i \<and> data (entry (t ! i)) = Some d \<and> reached n t k i)) \<and>
     (\<forall>k i j. holds n t k i \<and> holds n t k j \<longrightarrow> i = j)"

definition live_slots :: "nat \<Rightarrow> HENTRY list \<Rightarrow> nat set" where
  "live_slots n t = {i. 1 \<le> i \<and> i \<le> n \<and> live (t ! i)}"

definition hinv :: "hsearch_data \<Rightarrow> bool" where
  "hinv h \<longleftrightarrow> (\<exists>t. table h = Some t \<and> table_inv (unat (hsize h)) t \<and> unat (filled h) = card (live_slots (unat (hsize h)) t))"

lemma holds_live: "1 < n \<Longrightarrow> holds n t k i \<Longrightarrow> live (t ! i)"
  using first_hash_range [of n k] by (auto simp: holds_def live_def)

lemma slot_pair_holds:
  assumes "table_inv n t" "1 \<le> i" "i \<le> n"
  shows "slot_pair (t ! i) = Some (k, d) \<longleftrightarrow> holds n t k i \<and> data (entry (t ! i)) = Some d"
proof (cases "live (t ! i)")
  case True
  then obtain k' d' where kd: "holds n t k' i" "data (entry (t ! i)) = Some d'" using assms unfolding table_inv_def by blast
  then show ?thesis using True by (auto simp: slot_pair_def holds_def)
next
  case False
  then show ?thesis using holds_live [of n t k i] assms(1) by (auto simp: slot_pair_def table_inv_def)
qed

lemma table_map_Some_iff:
  assumes "table_inv n t"
  shows "table_map t k = Some d \<longleftrightarrow> (\<exists>i. holds n t k i \<and> data (entry (t ! i)) = Some d)"
proof -
  have len: "length t = n + 1" using assms by (simp add: table_inv_def)
  have tl: "set (tl t) = (\<lambda>i. t ! Suc i) ` {..<n}" using len by (force simp: set_conv_nth nth_tl image_iff)
  have set_iff: "(k, e) \<in> set (List.map_filter slot_pair (tl t)) \<longleftrightarrow> (\<exists>i. holds n t k i \<and> data (entry (t ! i)) = Some e)" for e
  proof -
    have "(k, e) \<in> set (List.map_filter slot_pair (tl t)) \<longleftrightarrow> (\<exists>s \<in> set (tl t). slot_pair s = Some (k, e))"
      by (auto simp: map_filter_def image_iff)
    also have "\<dots> \<longleftrightarrow> (\<exists>i < n. slot_pair (t ! Suc i) = Some (k, e))"
      unfolding tl by blast
    also have "\<dots> \<longleftrightarrow> (\<exists>i. 1 \<le> i \<and> i \<le> n \<and> slot_pair (t ! i) = Some (k, e))"
      by (metis Suc_le_eq Suc_le_lessD le_add1 le_Suc_ex plus_1_eq_Suc)
    also have "\<dots> \<longleftrightarrow> (\<exists>i. holds n t k i \<and> data (entry (t ! i)) = Some e)"
      using slot_pair_holds [OF assms] by (auto simp: holds_def)
    finally show ?thesis .
  qed
  have uniq: "e = e'" if "(k, e) \<in> set (List.map_filter slot_pair (tl t))" "(k, e') \<in> set (List.map_filter slot_pair (tl t))" for e e'
    using that assms unfolding set_iff table_inv_def by (metis option.inject)
  show ?thesis
  proof
    assume "table_map t k = Some d"
    then show "\<exists>i. holds n t k i \<and> data (entry (t ! i)) = Some d"
      using set_iff by (auto simp: table_map_def dest: map_of_SomeD)
  next
    assume "\<exists>i. holds n t k i \<and> data (entry (t ! i)) = Some d"
    then have m: "(k, d) \<in> set (List.map_filter slot_pair (tl t))" by (simp add: set_iff)
    then obtain d' where "table_map t k = Some d'" unfolding table_map_def by (metis weak_map_of_SomeI)
    moreover from this have "(k, d') \<in> set (List.map_filter slot_pair (tl t))" by (auto simp: table_map_def dest: map_of_SomeD)
    ultimately show "table_map t k = Some d" using uniq m by auto
  qed
qed

lemma table_map_None_iff: "table_inv n t \<Longrightarrow> table_map t k = None \<longleftrightarrow> (\<forall>i. \<not> holds n t k i)"
proof -
  assume inv: "table_inv n t"
  have "\<exists>d. data (entry (t ! i)) = Some d" if "holds n t k i" for i
    using that inv holds_live [OF _ that] unfolding table_inv_def holds_def by auto
  then show ?thesis using table_map_Some_iff [OF inv, of k] by (metis not_None_eq)
qed

subsection \<open>Search\<close>

text \<open>The step at which the search for a key stops: at the key, at an empty slot, or after a full cycle.\<close>

definition passes :: "nat \<Rightarrow> HENTRY list \<Rightarrow> str \<Rightarrow> nat \<Rightarrow> bool" where
  "passes n t k m \<longleftrightarrow> \<not> holds n t k (probe n k m) \<and> used (t ! probe n k m) \<noteq> 0"

definition stops :: "nat \<Rightarrow> HENTRY list \<Rightarrow> str \<Rightarrow> nat \<Rightarrow> bool" where
  "stops n t k m \<longleftrightarrow> m \<le> n \<and> (\<forall>i < m. passes n t k i) \<and> (m < n \<longrightarrow> \<not> passes n t k m)"

lemma stops_ex: "\<exists>m. stops n t k m"
proof (cases "\<exists>m < n. \<not> passes n t k m")
  case True
  then obtain m where "m < n" "\<not> passes n t k m" "\<forall>i < m. passes n t k i"
    using exists_least_iff [of "\<lambda>m. m < n \<and> \<not> passes n t k m"] by (auto intro: less_trans)
  then have "stops n t k m" unfolding stops_def by simp
  then show ?thesis by blast
next
  case False
  then have "stops n t k n" unfolding stops_def by simp
  then show ?thesis by blast
qed

lemma stops_holds:
  assumes "table_inv n t" "stops n t k m" "holds n t k i"
  shows "m < n \<and> i = probe n k m"
proof -
  have inv: "prime_nat n" "2 < n" using assms(1) by (auto simp: table_inv_def)
  have "live (t ! i)" "1 \<le> i" "i \<le> n" using assms(3) holds_live [of n t k i] inv by (auto simp: holds_def)
  then obtain k' where k': "holds n t k' i" "reached n t k' i" using assms(1) unfolding table_inv_def by blast
  then have "k' = k" using assms(3) by (simp add: holds_def)
  then obtain j where j: "j < n" "i = probe n k j" "\<forall>m < j. used (t ! probe n k m) \<noteq> 0" using k' by (auto simp: reached_def)
  have "passes n t k l" if "l < j" for l
    using that j probe_inj [OF inv, of l j k] assms(1,3) unfolding passes_def table_inv_def by (metis less_trans nat_neq_iff)
  moreover have "\<not> passes n t k j" using assms(3) j by (simp add: passes_def)
  ultimately have "m = j" using assms(2) j(1) unfolding stops_def by (metis linorder_neqE_nat le_less_trans less_imp_le)
  then show ?thesis using j by simp
qed

lemma stops_empty:
  assumes "table_inv n t" "stops n t k m" "1 \<le> e" "e \<le> n" "used (t ! e) = 0"
  shows "m < n"
proof -
  obtain j where "j < n" "probe n k j = e" using probe_onto [of n e k] assms by (auto simp: table_inv_def)
  then have "\<not> passes n t k j" "j < n" using assms by (auto simp: passes_def)
  then show ?thesis using assms(2) unfolding stops_def by (metis linorder_not_less le_neq_implies_less)
qed

lemma compare_passes:
  assumes "table_inv (unat (hsize h)) t" "table h = Some t" "key item = Some k"
    "1 \<le> i" "i \<le> unat (hsize h)" "\<not> holds (unat (hsize h)) t k i"
  shows "compare_and_overwrite_entry E item action h flag (first_hash (unat (hsize h)) k) i = Some (-1, None, h)"
proof (cases "used (t ! i) = int (first_hash (unat (hsize h)) k)")
  case True
  then have "live (t ! i)" using first_hash_range [of "unat (hsize h)" k] assms(1) by (auto simp: live_def table_inv_def)
  then obtain k' where "holds (unat (hsize h)) t k' i" using assms(1,4,5) unfolding table_inv_def by blast
  then have "key (entry (t ! i)) = Some k'" "k' \<noteq> k" using assms(6) by (auto simp: holds_def)
  then show ?thesis using assms by (simp add: compare_and_overwrite_entry_def arr_get_def table_inv_def)
next
  case False
  then show ?thesis using assms by (simp add: compare_and_overwrite_entry_def arr_get_def table_inv_def)
qed

lemma compare_finds:
  assumes "table_inv (unat (hsize h)) t" "table h = Some t" "key item = Some k" "holds (unat (hsize h)) t k i"
  shows "\<exists>r rv h'. compare_and_overwrite_entry E item action h flag (first_hash (unat (hsize h)) k) i = Some (r, rv, h') \<and> r \<noteq> -1"
  using assms
  by (auto simp: compare_and_overwrite_entry_def arr_get_def table_inv_def holds_def strdup_h_def Let_def
      split: ACTION.splits option.splits prod.splits if_splits)

text \<open>
  The probing loop from step \<open>j\<close>: it reaches the step \<open>m\<close> at which the search stops, with as many rounds
  as there are steps between them.
\<close>

lemma hsearch_loop_stops:
  assumes "table_inv (unat (hsize h)) t" "table h = Some t" "key item = Some k" "stops (unat (hsize h)) t k m"
    "j < m" "m \<le> j + fuel"
  shows "hsearch_loop fuel E item action h flag (first_hash (unat (hsize h)) k)
           (second_hash (unat (hsize h)) (first_hash (unat (hsize h)) k)) (probe (unat (hsize h)) k j) =
         (if m < unat (hsize h) \<and> holds (unat (hsize h)) t k (probe (unat (hsize h)) k m)
          then map_option Inl (compare_and_overwrite_entry E item action h flag (first_hash (unat (hsize h)) k) (probe (unat (hsize h)) k m))
          else Some (Inr (probe (unat (hsize h)) k m)))"
  using assms(5,6)
proof (induction fuel arbitrary: j)
  case 0
  then show ?case by simp
next
  case (Suc fuel)
  define n where "n = unat (hsize h)"
  note inv = assms(1-4) [folded n_def]
  have n: "prime_nat n" "2 < n" "length t = n + 1" using inv(1) by (auto simp: table_inv_def)
  have first: "first_hash n k = probe n k 0" using n by (simp add: probe_0)
  have rng: "1 \<le> probe n k i" "probe n k i \<le> n" for i using probe_range [of n k i] n by auto
  note step = probe_Suc [OF n(2), of k j] 
  have get: "arr_get t (probe n k (Suc j)) = Some (t ! probe n k (Suc j))" using rng n by (simp add: arr_get_def less_Suc_eq_le)
  have mn: "m \<le> n" using inv(4) by (simp add: stops_def)
  show ?case
  proof (cases "Suc j = n")
    case True
    then have "m = n" using mn Suc.prems by simp
    then show ?thesis using True step probe_cycle [of n k] n unfolding n_def [symmetric] by (simp add: n_def [symmetric])
  next
    case False
    then have "Suc j < n" using mn Suc.prems by simp
    then have ne: "probe n k (Suc j) \<noteq> first_hash n k" using probe_inj [OF n(1,2), of "Suc j" 0 k] first by auto
    show ?thesis
    proof (cases "m = Suc j")
      case True
      show ?thesis
      proof (cases "holds n t k (probe n k m)")
        case True
        then show ?thesis
          using \<open>m = Suc j\<close> \<open>Suc j < n\<close> ne step compare_finds [OF assms(1-3), of "probe n k m" E action flag]
          by (auto simp: n_def [symmetric])
      next
        case False
        then have "used (t ! probe n k m) = 0" using inv(4) \<open>m = Suc j\<close> \<open>Suc j < n\<close> by (auto simp: stops_def passes_def)
        then show ?thesis
          using False \<open>m = Suc j\<close> ne step get rng compare_passes [OF assms(1-3), of "probe n k m" E action flag] assms(2)
          by (simp add: n_def [symmetric])
      qed
    next
      case False
      then have m: "Suc j < m" using Suc.prems by simp
      then have p: "passes n t k (Suc j)" using inv(4) by (simp add: stops_def)
      have "hsearch_loop (Suc fuel) E item action h flag (first_hash n k) (second_hash n (first_hash n k)) (probe n k j) =
            hsearch_loop fuel E item action h flag (first_hash n k) (second_hash n (first_hash n k)) (probe n k (Suc j))"
        using p ne step get rng compare_passes [OF assms(1-3), of "probe n k (Suc j)" E action flag] assms(2)
        by (simp add: n_def [symmetric] passes_def)
      then show ?thesis using Suc.IH [OF m] Suc.prems by (simp add: n_def [symmetric])
    qed
  qed
qed

lemma hsearch_r_stops:
  assumes "table_inv (unat (hsize h)) t" "table h = Some t" "key item = Some k" "stops (unat (hsize h)) t k m"
  shows "hsearch_r E item action h flag =
    (if m < unat (hsize h) \<and> holds (unat (hsize h)) t k (probe (unat (hsize h)) k m)
     then compare_and_overwrite_entry E item action h flag (first_hash (unat (hsize h)) k) (probe (unat (hsize h)) k m)
     else hsearch_enter E item action h flag (first_hash (unat (hsize h)) k)
            (if m \<noteq> 0 \<and> used (t ! first_hash (unat (hsize h)) k) = -1 then first_hash (unat (hsize h)) k else 0)
            (probe (unat (hsize h)) k m))"
proof -
  define n where "n = unat (hsize h)"
  note inv = assms(1-4) [folded n_def]
  have n: "prime_nat n" "2 < n" "length t = n + 1" using inv(1) by (auto simp: table_inv_def)
  have first: "probe n k 0 = first_hash n k" using n by (simp add: probe_0)
  have r: "1 \<le> first_hash n k" "first_hash n k \<le> n" using first_hash_range [of n k] n by auto
  have get: "arr_get t (first_hash n k) = Some (t ! first_hash n k)" using r n by (simp add: arr_get_def)
  show ?thesis
  proof (cases "m = 0")
    case True
    then have np: "\<not> passes n t k 0" using inv(4) n by (simp add: stops_def)
    show ?thesis
    proof (cases "holds n t k (first_hash n k)")
      case True
      then have "used (t ! first_hash n k) \<noteq> 0" using r by (simp add: holds_def)
      then show ?thesis
        using True \<open>m = 0\<close> get n first compare_finds [OF assms(1-3), of "first_hash n k" E action flag] assms(2,3)
        unfolding hsearch_r_def n_def [symmetric] by auto
    next
      case False
      then show ?thesis using np \<open>m = 0\<close> get n first assms(2,3)
        unfolding hsearch_r_def n_def [symmetric] by (simp add: passes_def Let_def)
    qed
  next
    case False
    then have p: "passes n t k 0" "0 < m" using inv(4) by (auto simp: stops_def)
    then have c: "compare_and_overwrite_entry E item action h flag (first_hash n k) (first_hash n k) = Some (-1, None, h)"
      "used (t ! first_hash n k) \<noteq> 0"
      using compare_passes [OF assms(1-3), of "first_hash n k" E action flag] r first by (auto simp: passes_def n_def [symmetric])
    have "m \<le> 0 + n" using inv(4) by (simp add: stops_def)
    note l = hsearch_loop_stops [OF assms(1-4) p(2) this [unfolded n_def], of E action flag, folded n_def, unfolded first]
    show ?thesis using c get n False assms(2,3) l compare_finds [OF assms(1-3), of "probe n k m" E action flag]
      unfolding hsearch_r_def n_def [symmetric] Let_def by auto
  qed
qed

subsection \<open>Changing one slot\<close>

lemma reached_update:
  "reached n t k l \<Longrightarrow> used s \<noteq> 0 \<Longrightarrow> reached n (t[i := s]) k l"
  unfolding reached_def by (metis nth_list_update_eq nth_list_update_neq list_update_beyond not_le)

lemma update_live:
  assumes inv: "table_inv n t" and i: "1 \<le> i" "i \<le> n"
    and s: "used s = int (first_hash n k)" "key (entry s) = Some k" "data (entry s) = Some d"
    and r: "reached n t k i" and u: "\<And>l. holds n t k l \<Longrightarrow> l = i" and o: "live (t ! i) \<Longrightarrow> holds n t k i"
  shows "table_inv n (t[i := s])" "table_map (t[i := s]) = (table_map t)(k \<mapsto> d)"
proof -
  have n: "2 < n" "length t = n + 1" using inv by (auto simp: table_inv_def)
  have nth: "t[i := s] ! l = (if l = i then s else t ! l)" for l using i n by (cases "l = i") auto
  have h: "holds n (t[i := s]) k' l \<longleftrightarrow> (if l = i then k' = k else holds n t k' l)" for k' l
    using i s by (auto simp: holds_def nth)
  have s0: "used s \<noteq> 0" "live s" using s first_hash_range [of n k] n by (auto simp: live_def)
  have other: "l \<noteq> i" if "holds n t k' l" "k' \<noteq> k" for k' l
    using that o holds_live [of n t k' l] n by (auto simp: holds_def)
  show inv': "table_inv n (t[i := s])"
    unfolding table_inv_def
  proof (intro conjI allI impI)
    show "prime_nat n" "2 < n" "length (t[i := s]) = n + 1" using inv by (auto simp: table_inv_def)
  next
    fix l assume l: "1 \<le> l \<and> l \<le> n \<and> live (t[i := s] ! l)"
    show "\<exists>k' d'. holds n (t[i := s]) k' l \<and> data (entry (t[i := s] ! l)) = Some d' \<and> reached n (t[i := s]) k' l"
    proof (cases "l = i")
      case True
      then show ?thesis using reached_update [OF r s0(1)] s by (auto simp: h nth)
    next
      case False
      then obtain k' d' where "holds n t k' l" "data (entry (t ! l)) = Some d'" "reached n t k' l"
        using l inv unfolding table_inv_def by (metis nth)
      then show ?thesis using False reached_update [of n t k' l s i] s0 by (auto simp: h nth)
    qed
  next
    fix k' l l' assume a: "holds n (t[i := s]) k' l \<and> holds n (t[i := s]) k' l'"
    then show "l = l'" using u inv unfolding h table_inv_def by (metis)
  qed
  show "table_map (t[i := s]) = (table_map t)(k \<mapsto> d)"
  proof
    fix k'
    have "table_map (t[i := s]) k' = Some d' \<longleftrightarrow> ((table_map t)(k \<mapsto> d)) k' = Some d'" for d'
    proof (cases "k' = k")
      case True
      then show ?thesis using u s unfolding table_map_Some_iff [OF inv'] h nth by auto
    next
      case False
      then show ?thesis using other unfolding table_map_Some_iff [OF inv'] h nth
        by (auto simp: table_map_Some_iff [OF inv])
    qed
    then show "table_map (t[i := s]) k' = ((table_map t)(k \<mapsto> d)) k'" by (metis not_None_eq)
  qed
qed

lemma update_dead:
  assumes inv: "table_inv n t" and i: "1 \<le> i" "i \<le> n" and s: "used s = -1"
  shows "table_inv n (t[i := s])"
    "holds n t k i \<Longrightarrow> table_map (t[i := s]) = (table_map t)(k := None)"
    "\<not> live (t ! i) \<Longrightarrow> table_map (t[i := s]) = table_map t"
proof -
  have n: "2 < n" "length t = n + 1" using inv by (auto simp: table_inv_def)
  have nth: "t[i := s] ! l = (if l = i then s else t ! l)" for l using i n by (cases "l = i") auto
  have h: "holds n (t[i := s]) k' l \<longleftrightarrow> l \<noteq> i \<and> holds n t k' l" for k' l
    using i s by (auto simp: holds_def nth)
  show inv': "table_inv n (t[i := s])"
    unfolding table_inv_def
  proof (intro conjI allI impI)
    show "prime_nat n" "2 < n" "length (t[i := s]) = n + 1" using inv by (auto simp: table_inv_def)
  next
    fix l assume l: "1 \<le> l \<and> l \<le> n \<and> live (t[i := s] ! l)"
    then have ne: "l \<noteq> i" using s by (auto simp: nth live_def)
    then obtain k' d' where "holds n t k' l" "data (entry (t ! l)) = Some d'" "reached n t k' l"
      using l inv unfolding table_inv_def by (metis nth)
    then show "\<exists>k' d'. holds n (t[i := s]) k' l \<and> data (entry (t[i := s] ! l)) = Some d' \<and> reached n (t[i := s]) k' l"
      using ne reached_update [of n t k' l s i] s by (auto simp: h nth)
  next
    fix k' l l' assume "holds n (t[i := s]) k' l \<and> holds n (t[i := s]) k' l'"
    then show "l = l'" using inv unfolding h table_inv_def by metis
  qed
  have m: "table_map (t[i := s]) k' = Some d' \<longleftrightarrow> (\<exists>l. l \<noteq> i \<and> holds n t k' l \<and> data (entry (t ! l)) = Some d')" for k' d'
    unfolding table_map_Some_iff [OF inv'] h nth by auto
  have ext: "f = g" if "\<And>k d. f k = Some d \<longleftrightarrow> g k = Some d" for f g :: "str \<rightharpoonup> str"
    using that by (metis ext not_None_eq)
  show "table_map (t[i := s]) = (table_map t)(k := None)" if k: "holds n t k i"
  proof (rule ext)
    fix k' d'
    have "l = i \<longleftrightarrow> k' = k" if "holds n t k' l" for l
      using k that inv unfolding table_inv_def holds_def by (metis option.inject)
    then show "table_map (t[i := s]) k' = Some d' \<longleftrightarrow> ((table_map t)(k := None)) k' = Some d'"
      unfolding m by (auto simp: table_map_Some_iff [OF inv])
  qed
  show "table_map (t[i := s]) = table_map t" if "\<not> live (t ! i)"
  proof (rule ext)
    fix k' d'
    have "l \<noteq> i" if "holds n t k' l" for l using that \<open>\<not> live (t ! i)\<close> holds_live [of n t k' l] n by auto
    then show "table_map (t[i := s]) k' = Some d' \<longleftrightarrow> table_map t k' = Some d'"
      unfolding m by (auto simp: table_map_Some_iff [OF inv])
  qed
qed

lemma live_slots_update:
  assumes "1 \<le> i" "i \<le> n" "length t = n + 1"
  shows "live_slots n (t[i := s]) = (if live s then insert i (live_slots n t) else live_slots n t - {i})"
  using assms by (auto simp: live_slots_def nth_list_update)

lemma finite_live_slots: "finite (live_slots n t)"
  by (rule finite_subset [of _ "{1..n}"]) (auto simp: live_slots_def)

lemma card_live_slots_empty:
  assumes "1 \<le> e" "e \<le> n" "used (t ! e) = 0"
  shows "card (live_slots n t) < n"
proof -
  have "e \<notin> live_slots n t" "e \<in> {1..n}" "live_slots n t \<subseteq> {1..n}" using assms by (auto simp: live_slots_def live_def)
  then have "live_slots n t \<subset> {1..n}" by blast
  then have "card (live_slots n t) < card {1..n}" by (intro psubset_card_mono) auto
  then show ?thesis by simp
qed

subsection \<open>The operations on the map\<close>

lemma set_slot_simps [simp]:
  "table (set_slot i s h) = map_option (\<lambda>t. t[i := s]) (table h)" "hsize (set_slot i s h) = hsize h"
  "filled (set_slot i s h) = filled h" "change_ok (set_slot i s h) = change_ok h" "errno (set_slot i s h) = errno h"
  by (auto simp: set_slot_def)

lemma hinvE:
  assumes "hinv h"
  obtains t where "table h = Some t" "table_inv (unat (hsize h)) t" "unat (filled h) = card (live_slots (unat (hsize h)) t)" "hmap h = table_map t"
  using assms by (auto simp: hinv_def hmap_def)

lemma hinvI:
  "table h = Some t \<Longrightarrow> table_inv (unat (hsize h)) t \<Longrightarrow> unat (filled h) = card (live_slots (unat (hsize h)) t) \<Longrightarrow> hinv h"
  by (auto simp: hinv_def)

lemma hsearch_FIND:
  assumes "hinv h" "key item = Some k" "table h = Some t"
  shows "(hmap h k = None \<longrightarrow> hsearch_r E item FIND h flag = Some (0, None, h\<lparr>errno := ESRCH\<rparr>)) \<and>
    (\<forall>d. hmap h k = Some d \<longrightarrow> (\<exists>i. hsearch_r E item FIND h flag = Some (int i, Some i, h) \<and> holds (unat (hsize h)) t k i \<and> data (entry (t ! i)) = Some d))"
proof -
  have t: "table_inv (unat (hsize h)) t" "hmap h = table_map t" using assms by (auto elim: hinvE)
  obtain m where m: "stops (unat (hsize h)) t k m" using stops_ex by blast
  note r = hsearch_r_stops [OF t(1) assms(3,2) m, of E FIND flag]
  show ?thesis
  proof (intro conjI allI impI)
    assume "hmap h k = None"
    then have "\<not> holds (unat (hsize h)) t k i" for i using table_map_None_iff [OF t(1)] t(2) by simp
    then show "hsearch_r E item FIND h flag = Some (0, None, h\<lparr>errno := ESRCH\<rparr>)" using r by (simp add: hsearch_enter_def)
  next
    fix d assume "hmap h k = Some d"
    then obtain i where i: "holds (unat (hsize h)) t k i" "data (entry (t ! i)) = Some d" using table_map_Some_iff [OF t(1)] t(2) by auto
    then have "m < unat (hsize h)" "i = probe (unat (hsize h)) k m" using stops_holds [OF t(1) m] by auto
    then have "hsearch_r E item FIND h flag = Some (int i, Some i, h)"
      using r i t(1) assms by (simp add: compare_and_overwrite_entry_def arr_get_def holds_def table_inv_def)
    then show "\<exists>i. hsearch_r E item FIND h flag = Some (int i, Some i, h) \<and> holds (unat (hsize h)) t k i \<and> data (entry (t ! i)) = Some d"
      using i by blast
  qed
qed

text \<open>
  Every allocation succeeds and the initialisers of a new entry leave its strings alone; a table with room
  has an empty slot; nothing rejects a change when the permission hook accepts it and no callback is installed.
\<close>

definition plain_hooks :: "env_hooks \<Rightarrow> bool" where
  "plain_hooks E \<longleftrightarrow> (\<forall>n. alloc E n) \<and>
     (\<forall>e. key (env_flags_init E (env_callback_init E e)) = key e \<and> data (env_flags_init E (env_callback_init E e)) = data e)"

definition has_room :: "hsearch_data \<Rightarrow> bool" where
  "has_room h = (case table h of None \<Rightarrow> False | Some t \<Rightarrow> (\<exists>s \<in> set (tl t). used s = 0))"

definition accepting :: "env_hooks \<Rightarrow> hsearch_data \<Rightarrow> u32 \<Rightarrow> bool" where
  "accepting E h flag \<longleftrightarrow>
     (\<forall>e v op. \<not> change_rejected h e v op flag) \<and>
     (\<forall>e. callback (env_flags_init E (env_callback_init E e)) = None) \<and>
     (\<forall>t. table h = Some t \<longrightarrow> (\<forall>s \<in> set t. callback (entry s) = None))"

definition no_tomb :: "hsearch_data \<Rightarrow> bool" where
  "no_tomb h = (case table h of None \<Rightarrow> False | Some t \<Rightarrow> (\<forall>s \<in> set (tl t). used s = 0 \<or> live s))"

lemma set_tl_update: "1 \<le> i \<Longrightarrow> set (tl (t[i := s])) \<subseteq> insert s (set (tl t))"
  by (cases t; cases i) (auto dest: subsetD [OF set_update_subset_insert])

lemma no_tomb_update:
  "no_tomb h \<Longrightarrow> table h = Some t \<Longrightarrow> table h' = Some (t[i := s]) \<Longrightarrow> live s \<Longrightarrow> 1 \<le> i \<Longrightarrow> no_tomb h'"
  using set_tl_update [of i t s] by (auto simp: no_tomb_def)

lemma accepting_update:
  assumes "accepting E h flag" "table h = Some t" "table h' = Some (t[i := s])" "callback (entry s) = None" "change_ok h' = change_ok h"
  shows "accepting E h' flag"
  using assms set_update_subset_insert [of t i s] by (auto simp: accepting_def change_rejected_def)

lemma has_roomE:
  assumes "has_room h" "table h = Some t" "length t = n + 1"
  obtains e where "1 \<le> e" "e \<le> n" "used (t ! e) = 0"
proof -
  obtain s where "s \<in> set (tl t)" "used s = 0" using assms by (auto simp: has_room_def)
  then obtain i where "i < n" "used (t ! Suc i) = 0" using assms(3) by (auto simp: in_set_conv_nth nth_tl)
  then show ?thesis using that [of "Suc i"] by simp
qed

lemma no_tomb_has_room:
  assumes "hinv h" "no_tomb h" "card (dom (hmap h)) < unat (hsize h)"
  shows "has_room h"
proof -
  let ?n = "unat (hsize h)"
  obtain t where t: "table h = Some t" "table_inv ?n t" "hmap h = table_map t" using assms(1) by (auto elim: hinvE)
  have len: "length t = ?n + 1" using t(2) by (simp add: table_inv_def)
  have ex: "\<exists>k d. holds ?n t k i \<and> data (entry (t ! i)) = Some d" if "i \<in> live_slots ?n t" for i
    using that t(2) unfolding live_slots_def table_inv_def by blast
  have "inj_on (\<lambda>i. the (key (entry (t ! i)))) (live_slots ?n t)"
    using ex t(2) unfolding inj_on_def table_inv_def holds_def by (metis option.sel)
  moreover have "(\<lambda>i. the (key (entry (t ! i)))) ` live_slots ?n t \<subseteq> dom (hmap h)"
    using ex table_map_Some_iff [OF t(2)] unfolding t(3) holds_def by fastforce
  moreover have "finite (dom (hmap h))" unfolding t(3) table_map_def by (rule finite_dom_map_of)
  ultimately have "card (live_slots ?n t) \<le> card (dom (hmap h))" by (rule card_inj_on_le)
  then have "card (live_slots ?n t) < card {1..?n}" using assms(3) by simp
  then obtain i where i: "i \<in> {1..?n}" "i \<notin> live_slots ?n t" by (metis card_mono finite_live_slots not_less subsetI)
  have "t ! i = tl t ! (i - 1)" "i - 1 < length (tl t)" using i len by (auto simp: nth_tl)
  then have mem: "t ! i \<in> set (tl t)" by simp
  then have "used (t ! i) = 0" using i assms(2) t(1) by (auto simp: no_tomb_def live_slots_def)
  then show ?thesis using mem t(1) by (auto simp: has_room_def)
qed

lemma hinv_live_slot:
  assumes "hinv h" "table h = Some t" "1 \<le> i" "i \<le> unat (hsize h)" "table_inv (unat (hsize h)) t'" "t' = t[i := s]"
    "table h' = Some t'" "hsize h' = hsize h" "live s" "filled h' = (if live (t ! i) then filled h else filled h + 1)"
    "card (live_slots (unat (hsize h)) t) < unat (hsize h) \<or> live (t ! i)"
  shows "hinv h'"
proof (rule hinvI [OF assms(7)])
  let ?n = "unat (hsize h)"
  have t: "unat (filled h) = card (live_slots ?n t)" "length t = ?n + 1" using assms(1,2) by (auto elim!: hinvE simp: table_inv_def)
  show "table_inv (unat (hsize h')) t'" using assms by simp
  have ls: "live_slots ?n t' = insert i (live_slots ?n t)" using assms t live_slots_update [of i ?n t s] by simp
  have mem: "i \<in> live_slots ?n t \<longleftrightarrow> live (t ! i)" using assms by (simp add: live_slots_def)
  show "unat (filled h') = card (live_slots (unat (hsize h')) t')"
  proof (cases "live (t ! i)")
    case True
    then have "insert i (live_slots ?n t) = live_slots ?n t" using mem by auto
    then show ?thesis using True assms(8,10) t ls by simp
  next
    case False
    then have lt: "unat (filled h) < unat (hsize h)" using assms(11) t by simp
    have "unat (hsize h) < 2 ^ LENGTH(32)" by (rule unsigned_less)
    with lt have "unat (filled h + 1) = unat (filled h) + 1" by (simp add: unat_word_ariths)
    then show ?thesis using False assms(8,10) t ls mem finite_live_slots [of ?n t] by simp
  qed
qed

lemma hdelete_slot_refines:
  assumes inv: "hinv h" and h: "table h = Some t" "holds (unat (hsize h)) t k i"
  shows "\<exists>h'. hdelete_slot h i = Some h' \<and> hinv h' \<and> hmap h' = (hmap h)(k := None) \<and> hsize h' = hsize h"
proof -
  let ?n = "unat (hsize h)"
  have t: "table_inv ?n t" "hmap h = table_map t" "unat (filled h) = card (live_slots ?n t)" using inv h(1) by (auto elim: hinvE)
  have n: "length t = ?n + 1" "1 < ?n" "1 \<le> i" "i \<le> ?n" using t(1) h(2) by (auto simp: table_inv_def holds_def)
  define s where "s = \<lparr>used = -1, entry = (entry (t ! i))\<lparr>key := None, data := None, callback := None, flags := 0\<rparr>\<rparr>"
  define h' where "h' = (set_slot i s h)\<lparr>filled := filled h - 1\<rparr>"
  have d: "hdelete_slot h i = Some h'" using h n by (simp add: hdelete_slot_def arr_get_def s_def h'_def)
  have tab: "table h' = Some (t[i := s])" "hsize h' = hsize h" "filled h' = filled h - 1" "change_ok h' = change_ok h" using h by (simp_all add: h'_def)
  have s: "used s = -1" "\<not> live s" by (simp_all add: s_def live_def)
  have mem: "i \<in> live_slots ?n t" using holds_live [OF n(2) h(2)] n by (simp add: live_slots_def)
  then have "0 < card (live_slots ?n t)" using finite_live_slots by (auto simp: card_gt_0_iff)
  then have "unat (filled h - 1) = unat (filled h) - 1" using t(3) by (intro unat_minus_one) auto
  then have "hinv h'" using update_dead(1) [OF t(1) n(3,4) s(1)] tab t(3) s mem finite_live_slots n
    by (intro hinvI [of _ "t[i := s]"]) (simp_all add: live_slots_update)
  moreover have "hmap h' = (hmap h)(k := None)" using update_dead(2) [OF t(1) n(3,4) s(1) h(2)] tab t by (simp add: hmap_def)
  ultimately show ?thesis using d tab by auto
qed

lemma hsearch_overwrite:
  assumes inv: "hinv h" and E: "plain_hooks E" and h: "table h = Some t" "holds (unat (hsize h)) t k i"
    and item: "key item = Some k" "data item = Some d"
  shows "\<exists>r rv h'. compare_and_overwrite_entry E item ENTER h flag (first_hash (unat (hsize h)) k) i = Some (r, rv, h') \<and> hinv h' \<and>
     hmap h' = (if r = 0 then hmap h else (hmap h)(k \<mapsto> d)) \<and> hsize h' = hsize h \<and>
     (accepting E h flag \<longrightarrow> r \<noteq> 0 \<and> rv \<noteq> None \<and> accepting E h' flag \<and> (no_tomb h \<longrightarrow> no_tomb h'))"
proof -
  let ?n = "unat (hsize h)"
  have t: "table_inv ?n t" "hmap h = table_map t" "unat (filled h) = card (live_slots ?n t)" using inv h(1) by (auto elim: hinvE)
  have n: "length t = ?n + 1" "1 < ?n" "1 \<le> i" "i \<le> ?n" using t(1) h(2) by (auto simp: table_inv_def holds_def)
  have si: "used (t ! i) = int (first_hash ?n k)" "key (entry (t ! i)) = Some k" using h(2) by (auto simp: holds_def)
  have cb: "accepting E h flag \<Longrightarrow> callback (entry (t ! i)) = None" using h(1) n by (auto simp: accepting_def)
  define s where "s = (t ! i)\<lparr>entry := (entry (t ! i))\<lparr>data := Some d\<rparr>\<rparr>"
  have keep: "hinv (h\<lparr>errno := x\<rparr>)" "hmap (h\<lparr>errno := x\<rparr>) = hmap h" for x using inv by (auto simp: hinv_def hmap_def)
  consider (perm) "change_rejected h (entry (t ! i)) (Some d) env_op_overwrite flag"
    | (call) "\<not> change_rejected h (entry (t ! i)) (Some d) env_op_overwrite flag" "callback_rejected (entry (t ! i)) k (Some d) env_op_overwrite flag"
    | (ok) "\<not> change_rejected h (entry (t ! i)) (Some d) env_op_overwrite flag" "\<not> callback_rejected (entry (t ! i)) k (Some d) env_op_overwrite flag"
    by blast
  then show ?thesis
  proof cases
    case perm
    then have "\<not> accepting E h flag" by (auto simp: accepting_def)
    then show ?thesis using perm h(1) n si item keep by (simp add: compare_and_overwrite_entry_def arr_get_def)
  next
    case call
    then have "\<not> accepting E h flag" using cb by (auto simp: callback_rejected_def)
    then show ?thesis using call h(1) n si item keep by (simp add: compare_and_overwrite_entry_def arr_get_def)
  next
    case ok
    define h' where "h' = set_slot i s (h\<lparr>allocs := allocs h + 1\<rparr>)"
    have tab: "table h' = Some (t[i := s])" "hsize h' = hsize h" "filled h' = filled h" using h by (simp_all add: h'_def)
    obtain j where r: "reached ?n t k i" using t(1) holds_live [OF n(2) h(2)] n si unfolding table_inv_def holds_def by auto
    have u: "\<And>l. holds ?n t k l \<Longrightarrow> l = i" using t(1) h(2) unfolding table_inv_def by blast
    have s: "used s = int (first_hash ?n k)" "key (entry s) = Some k" "data (entry s) = Some d" using si by (simp_all add: s_def)
    note up = update_live [OF t(1) n(3,4) s r u h(2)]
    have live: "live s" "live (t ! i)" using holds_live [OF n(2) h(2)] by (simp_all add: s_def live_def)
    have "hinv h'" using hinv_live_slot [OF inv h(1) n(3,4) up(1) refl tab(1,2) live(1)] tab live by simp
    moreover have "hmap h' = (hmap h)(k \<mapsto> d)" using up(2) tab t by (simp add: hmap_def)
    moreover have "compare_and_overwrite_entry E item ENTER h flag (first_hash ?n k) i = Some (int i, Some i, h')"
      using ok h(1) n si item E by (simp add: compare_and_overwrite_entry_def arr_get_def strdup_h_def plain_hooks_def h'_def s_def)
    moreover have "accepting E h flag \<Longrightarrow> accepting E h' flag"
      by (rule accepting_update [OF _ h(1) tab(1)]) (simp_all add: s_def h'_def cb)
    moreover have "no_tomb h \<Longrightarrow> no_tomb h'" by (rule no_tomb_update [OF _ h(1) tab(1) live(1) n(3)])
    ultimately show ?thesis using n tab(2) by simp
  qed
qed

text \<open>A new entry at a slot that is not live: it is entered, or its rejection leaves a tombstone.\<close>

lemma hsearch_insert:
  assumes inv: "hinv h" and E: "plain_hooks E" and h: "table h = Some t" "\<not> live (t ! i)" "1 \<le> i" "i \<le> unat (hsize h)"
    and r: "reached (unat (hsize h)) t k i" and new: "hmap h k = None"
    and item: "key item = Some k" "data item = Some d" and i: "i = (if fd \<noteq> 0 then fd else idx)"
    and room: "card (live_slots (unat (hsize h)) t) < unat (hsize h)"
  shows "\<exists>r rv h'. hsearch_enter E item ENTER h flag (first_hash (unat (hsize h)) k) fd idx = Some (r, rv, h') \<and> hinv h' \<and>
     hmap h' = (if r = 0 then hmap h else (hmap h)(k \<mapsto> d)) \<and> hsize h' = hsize h \<and>
     (accepting E h flag \<longrightarrow> r \<noteq> 0 \<and> rv \<noteq> None \<and> accepting E h' flag \<and> (no_tomb h \<longrightarrow> no_tomb h'))"
proof -
  let ?n = "unat (hsize h)"
  have t: "table_inv ?n t" "hmap h = table_map t" "unat (filled h) = card (live_slots ?n t)" using inv h(1) by (auto elim: hinvE)
  have n: "length t = ?n + 1" "1 < ?n" using t(1) by (auto simp: table_inv_def)
  have none: "\<not> holds ?n t k l" for l using new t table_map_None_iff [OF t(1)] by simp
  define e where "e = env_flags_init E (env_callback_init E ((entry (t ! i))\<lparr>key := Some k, data := Some d\<rparr>))"
  define s where "s = (t ! i)\<lparr>used := int (first_hash ?n k), entry := e\<rparr>"
  have s: "used s = int (first_hash ?n k)" "key (entry s) = Some k" "data (entry s) = Some d" "entry s = e"
    using E by (simp_all add: s_def e_def plain_hooks_def)
  define h' where "h' = set_slot i s (h\<lparr>allocs := allocs h + 2, filled := filled h + 1\<rparr>)"
  have tab: "table h' = Some (t[i := s])" "hsize h' = hsize h" "filled h' = filled h + 1" "change_ok h' = change_ok h"
    using h by (simp_all add: h'_def)
  have up: "table_inv ?n (t[i := s])" "table_map (t[i := s]) = (table_map t)(k \<mapsto> d)"
    using update_live [OF t(1) h(3,4) s(1-3) r] none h(2) by auto
  have live: "live s" using s first_hash_range [OF n(2), of k] by (simp add: live_def)
  have inv': "hinv h'" using hinv_live_slot [OF inv h(1,3,4) up(1) refl tab(1,2) live] tab h(2) room by simp
  have map': "hmap h' = (hmap h)(k \<mapsto> d)" using up(2) tab t by (simp add: hmap_def)
  have "filled h \<noteq> hsize h" using room t by auto
  then have run: "hsearch_enter E item ENTER h flag (first_hash ?n k) fd idx =
      (if change_rejected h' e (data item) env_op_create flag then do { h \<leftarrow> hdelete_slot h' i; Some (0, None, h\<lparr>errno := EPERM\<rparr>) }
       else if callback_rejected e k (data item) env_op_create flag then do { h \<leftarrow> hdelete_slot h' i; Some (0, None, h\<lparr>errno := EINVAL\<rparr>) }
       else Some (1, Some i, h'))"
    using h n E item i
    by (simp add: hsearch_enter_def arr_get_def strdup_h_def strdup_opt_def plain_hooks_def h'_def s_def e_def Let_def set_slot_def)
  have hold: "holds (unat (hsize h')) (t[i := s]) k i" using s h n tab by (simp add: holds_def)
  obtain h2 where h2: "hdelete_slot h' i = Some h2" "hinv h2" "hmap h2 = (hmap h')(k := None)" "hsize h2 = hsize h"
    using hdelete_slot_refines [OF inv' tab(1) hold] tab(2) by auto
  have h2': "hinv (h2\<lparr>errno := x\<rparr>)" "hmap (h2\<lparr>errno := x\<rparr>) = hmap h" for x
    using h2 map' new by (auto simp: hinv_def hmap_def fun_upd_idem)
  have "accepting E h flag \<Longrightarrow> \<not> change_rejected h' e (data item) env_op_create flag \<and> \<not> callback_rejected e k (data item) env_op_create flag"
    using tab by (simp add: accepting_def change_rejected_def callback_rejected_def e_def)
  moreover have "accepting E h flag \<Longrightarrow> accepting E h' flag"
    by (rule accepting_update [OF _ h(1) tab(1)]) (auto simp: s(4) e_def accepting_def tab(4))
  moreover have "no_tomb h \<Longrightarrow> no_tomb h'" by (rule no_tomb_update [OF _ h(1) tab(1) live h(3)])
  ultimately show ?thesis using run h2 h2' inv' map' tab(2) by auto
qed

text \<open>Where a new key goes: the first slot when that is a tombstone, else the empty slot at the end of the search.\<close>

lemma enter_slot:
  assumes inv: "table_inv n t" and m: "stops n t k m" "m < n" "\<not> holds n t k (probe n k m)"
    and i: "i = (if m \<noteq> 0 \<and> used (t ! first_hash n k) = -1 then first_hash n k else probe n k m)"
  shows "1 \<le> i" "i \<le> n" "\<not> live (t ! i)" "reached n t k i"
proof -
  have n: "2 < n" using inv by (simp add: table_inv_def)
  have r: "1 \<le> first_hash n k" "first_hash n k < n" using first_hash_range [of n k] n by auto
  have e: "used (t ! probe n k m) = 0" using m by (auto simp: stops_def passes_def)
  show "1 \<le> i" "i \<le> n" using i r probe_range [of n k m] n by (auto split: if_splits)
  show "\<not> live (t ! i)" using i e by (auto simp: live_def)
  have "reached n t k (first_hash n k)" using n probe_0 [of n k] unfolding reached_def by (intro exI [of _ 0]) auto
  moreover have "reached n t k (probe n k m)" using m unfolding reached_def stops_def passes_def by blast
  ultimately show "reached n t k i" using i by auto
qed

lemma hsearch_ENTER:
  assumes inv: "hinv h" and E: "plain_hooks E" and room: "has_room h" and item: "key item = Some k" "data item = Some d"
  shows "\<exists>r rv h'. hsearch_r E item ENTER h flag = Some (r, rv, h') \<and> hinv h' \<and>
     hmap h' = (if r = 0 then hmap h else (hmap h)(k \<mapsto> d)) \<and> hsize h' = hsize h \<and>
     (accepting E h flag \<longrightarrow> r \<noteq> 0 \<and> rv \<noteq> None \<and> accepting E h' flag \<and> (no_tomb h \<longrightarrow> no_tomb h'))"
proof -
  let ?n = "unat (hsize h)"
  obtain t where t: "table h = Some t" "table_inv ?n t" "hmap h = table_map t" using inv by (auto elim: hinvE)
  obtain e where e: "1 \<le> e" "e \<le> ?n" "used (t ! e) = 0" using has_roomE [OF room t(1), of ?n] t(2) by (auto simp: table_inv_def)
  obtain m where m: "stops ?n t k m" using stops_ex by blast
  have mn: "m < ?n" by (rule stops_empty [OF t(2) m e])
  note run = hsearch_r_stops [OF t(2,1) item(1) m, of E ENTER flag]
  show ?thesis
  proof (cases "holds ?n t k (probe ?n k m)")
    case True
    then show ?thesis using run mn hsearch_overwrite [OF inv E t(1) True item, of flag] by simp
  next
    case False
    have new: "hmap h k = None" using False stops_holds [OF t(2) m] table_map_None_iff [OF t(2), of k] t(3) by auto
    define fd where "fd = (if m \<noteq> 0 \<and> used (t ! first_hash ?n k) = -1 then first_hash ?n k else 0)"
    define i where "i = (if fd \<noteq> 0 then fd else probe ?n k m)"
    have n: "1 < ?n" using t(2) by (simp add: table_inv_def)
    have "i = (if m \<noteq> 0 \<and> used (t ! first_hash ?n k) = -1 then first_hash ?n k else probe ?n k m)"
      using first_hash_range [OF n, of k] by (simp add: i_def fd_def)
    note slot = enter_slot [OF t(2) m mn False this]
    show ?thesis
      using run False hsearch_insert [OF inv E t(1) slot(3,1,2,4) new item i_def card_live_slots_empty [OF e], of flag]
      by (simp add: fd_def)
  qed
qed

lemma hdelete_refines:
  assumes inv: "hinv h"
  shows "\<exists>r h'. hdelete_r E k h flag = Some (r, h') \<and> hinv h' \<and> hmap h' = (if r = 0 then hmap h else (hmap h)(k := None)) \<and>
     (r \<noteq> 0 \<longrightarrow> hmap h k \<noteq> None) \<and> (accepting E h flag \<and> hmap h k \<noteq> None \<longrightarrow> r \<noteq> 0)"
proof -
  let ?n = "unat (hsize h)"
  obtain t where t: "table h = Some t" "table_inv ?n t" "hmap h = table_map t" using inv by (auto elim: hinvE)
  have keep: "hinv (h\<lparr>errno := x\<rparr>)" "hmap (h\<lparr>errno := x\<rparr>) = hmap h" for x using inv by (auto simp: hinv_def hmap_def)
  have k: "key (key_item k) = Some k" by (simp add: key_item_def)
  note find = hsearch_FIND [OF inv k t(1), of E 0]
  show ?thesis
  proof (cases "hmap h k")
    case None
    then show ?thesis using find keep by (simp add: hdelete_r_def)
  next
    case (Some d)
    then obtain i where i: "hsearch_r E (key_item k) FIND h 0 = Some (int i, Some i, h)" "holds ?n t k i" using find by blast
    have n: "length t = ?n + 1" "1 \<le> i" "i \<le> ?n" using t(2) i(2) by (auto simp: table_inv_def holds_def)
    obtain h2 where h2: "hdelete_slot h i = Some h2" "hinv h2" "hmap h2 = (hmap h)(k := None)"
      using hdelete_slot_refines [OF inv t(1) i(2)] by blast
    have "accepting E h flag \<Longrightarrow> \<not> change_rejected h (entry (t ! i)) None env_op_delete flag \<and> \<not> callback_rejected (entry (t ! i)) k None env_op_delete flag"
      using t(1) n by (auto simp: accepting_def callback_rejected_def)
    then show ?thesis using i n t(1) h2 keep Some by (auto simp: hdelete_r_def arr_get_def)
  qed
qed

subsection \<open>Creation\<close>

lemma unat_mult_small:
  fixes a b :: u32
  assumes "unat a * unat b < 2 ^ 32"
  shows "unat (a * b) = unat a * unat b"
  using assms by (simp add: unat_word_ariths)

lemma isprime_loop_finds:
  assumes "odd (unat p)" "5 \<le> unat p" "unat p \<le> 2 ^ 16" "odd (unat d)" "3 \<le> unat d"
    "(unat d - 2) * (unat d - 2) < unat p" "\<forall>e. odd e \<and> 3 \<le> e \<and> e < unat d \<longrightarrow> \<not> e dvd unat p"
  shows "\<exists>q. isprime_loop p d = Some q \<and> 3 \<le> unat q \<and> unat q < unat p \<and>
    (\<forall>e. odd e \<and> 3 \<le> e \<and> e < unat q \<longrightarrow> \<not> e dvd unat p) \<and> (unat p \<le> unat q * unat q \<or> unat q dvd unat p)"
  using assms(4-)
proof (induction "unat p - unat d" arbitrary: d rule: less_induct)
  case less
  have dle: "unat d \<le> 258"
  proof (rule ccontr)
    assume "\<not> ?thesis"
    then have "257 * 257 \<le> (unat d - 2) * (unat d - 2)" by (intro mult_le_mono) auto
    then show False using less.prems(3) assms(3) by simp
  qed
  have dp: "unat d < unat p"
  proof (rule ccontr)
    assume "\<not> ?thesis"
    then have "(unat p - 2) * 3 \<le> (unat d - 2) * (unat d - 2)" using assms(2) by (intro mult_le_mono) auto
    then show False using less.prems(3) assms(2) by linarith
  qed
  have sq: "unat (d * d) = unat d * unat d"
  proof (rule unat_mult_small)
    have "unat d * unat d \<le> 258 * 258" using dle by (intro mult_le_mono)
    then show "unat d * unat d < 2 ^ 32" by simp
  qed
  have d2: "unat (d + 2) = unat d + 2" using dle by (simp add: unat_word_ariths)
  have md: "p mod d = 0 \<longleftrightarrow> unat d dvd unat p"
    by (metis dvd_eq_mod_eq_0 unat_mod_distrib unsigned_0 unsigned_word_eqI)
  show ?case
  proof (cases "d * d < p \<and> p mod d \<noteq> 0")
    case True
    then have lt: "unat d * unat d < unat p" and nd: "\<not> unat d dvd unat p" using sq md by (auto simp: word_less_nat_alt)
    have "\<not> e dvd unat p" if "odd e" "3 \<le> e" "e < unat (d + 2)" for e
    proof -
      have "e < unat d \<or> e = unat d" using that less.prems(1) d2 by (metis Suc_leI add_2_eq_Suc' even_Suc le_neq_implies_less less_antisym)
      then show ?thesis using nd that less.prems(4) by auto
    qed
    moreover have "isprime_loop p d = isprime_loop p (d + 2)" using True by (subst isprime_loop.simps) simp
    ultimately show ?thesis using less.hyps [of "d + 2"] less.prems(1,2) d2 dp lt by auto
  next
    case False
    then have "isprime_loop p d = Some d" by (subst isprime_loop.simps) auto
    moreover have "unat p \<le> unat d * unat d \<or> unat d dvd unat p" using False sq md by (auto simp: word_less_nat_alt not_less)
    ultimately show ?thesis using dp less.prems by auto
  qed
qed

lemma isprime_correct:
  assumes "odd (unat p)" "5 \<le> unat p" "unat p \<le> 2 ^ 16"
  shows "isprime p = Some (prime_nat (unat p))"
proof -
  have "\<forall>e. odd e \<and> 3 \<le> e \<and> e < unat (3 :: u32) \<longrightarrow> \<not> e dvd unat p" by auto
  then obtain q where q: "isprime_loop p 3 = Some q" "3 \<le> unat q" "unat q < unat p"
    "\<forall>e. odd e \<and> 3 \<le> e \<and> e < unat q \<longrightarrow> \<not> e dvd unat p" "unat p \<le> unat q * unat q \<or> unat q dvd unat p"
    using isprime_loop_finds [OF assms, of 3] assms(2) by fastforce
  have mq: "p mod q = 0 \<longleftrightarrow> unat q dvd unat p" by (metis dvd_eq_mod_eq_0 unat_mod_distrib unsigned_0 unsigned_word_eqI)
  have "prime_nat (unat p)" if nd: "\<not> unat q dvd unat p"
    unfolding prime_nat_def
  proof (intro conjI allI impI)
    show "1 < unat p" using assms by simp
    fix d assume d: "d dvd unat p"
    have big: "unat q < e" if "e dvd unat p" "e \<noteq> 1" for e
    proof -
      have "odd e" using that(1) assms(1) by (metis dvd_trans)
      moreover from this have "3 \<le> e" using that(2) by (cases e rule: parity_cases) (auto, presburger)
      ultimately show ?thesis using q(4) that(1) nd by (metis linorder_neqE_nat)
    qed
    obtain e where e: "unat p = d * e" using d by (auto elim: dvdE)
    show "d = 1 \<or> d = unat p"
    proof (rule ccontr)
      assume "\<not> ?thesis"
      then have "d \<noteq> 1" "e \<noteq> 1" using e by auto
      then have "unat q < d" "unat q < e" using big [of d] big [of e] d e by auto
      then have "unat q * unat q < d * e" by (intro mult_strict_mono) auto
      then show False using q(5) e nd by simp
    qed
  qed
  moreover have "\<not> prime_nat (unat p)" if "unat q dvd unat p"
    using that q(2,3) unfolding prime_nat_def by auto
  ultimately show ?thesis using q(1) mq by (auto simp: isprime_def)
qed

lemma next_prime_least:
  assumes "odd (unat p)" "5 \<le> unat p" "unat p \<le> r" "prime_nat r" "r \<le> 2 ^ 16"
  shows "\<exists>q. next_prime p = Some q \<and> prime_nat (unat q) \<and> unat p \<le> unat q \<and> unat q \<le> r"
  using assms(1-3)
proof (induction "r - unat p" arbitrary: p rule: less_induct)
  case less
  have ip: "isprime p = Some (prime_nat (unat p))" using less.prems assms(5) by (intro isprime_correct) auto
  show ?case
  proof (cases "prime_nat (unat p)")
    case True
    then show ?thesis using ip less.prems by (subst next_prime.simps) auto
  next
    case False
    have "odd r" using assms(4) less.prems unfolding prime_nat_def by auto
    then have "unat p + 2 \<le> r" using False assms(4) less.prems by (metis Suc_leI add_2_eq_Suc' even_Suc le_neq_implies_less)
    moreover have p2: "unat (p + 2) = unat p + 2" using less.prems assms(5) by (simp add: unat_word_ariths)
    moreover have "next_prime p = next_prime (p + 2)" using ip False by (subst next_prime.simps) simp
    moreover have "\<exists>q. next_prime (p + 2) = Some q \<and> prime_nat (unat q) \<and> unat (p + 2) \<le> unat q \<and> unat q \<le> r"
      by (rule less.hyps) (use less.prems calculation in auto)
    ultimately show ?thesis by (metis add_leD1)
  qed
qed

lemma odd_unat_or_1: "odd (unat (x OR 1 :: u32))" "unat x \<le> unat (x OR 1)" "unat (x OR 1) \<le> unat x + 1"
proof -
  have u: "unat (x OR 1) = unat x OR 1" by (simp add: unsigned_or_eq)
  have "unat x OR 1 = unat x + of_bool (even (unat x))" by (rule or_one_eq)
  then show "odd (unat (x OR 1))" "unat x \<le> unat (x OR 1)" "unat (x OR 1) \<le> unat x + 1" unfolding u by auto
qed

lemma table_inv_empty: "prime_nat n \<Longrightarrow> 2 < n \<Longrightarrow> table_inv n (replicate (n + 1) empty_slot)"
proof -
  assume n: "prime_nat n" "2 < n"
  have d: "\<not> live (replicate (n + 1) empty_slot ! i)" if "i \<le> n" for i using that by (simp add: live_def empty_slot_def nth_replicate del: replicate_Suc)
  have "\<not> holds n (replicate (n + 1) empty_slot) k i" for k i
    using holds_live [of n "replicate (n + 1) empty_slot" k i] d [of i] n(2) unfolding holds_def by linarith
  then show ?thesis using n d unfolding table_inv_def by (auto simp del: replicate_Suc)
qed

lemma hmap_empty: "List.map_filter slot_pair (replicate n empty_slot) = []"
  by (induction n) (auto simp: slot_pair_def live_def empty_slot_def)

lemma hcreate_creates:
  assumes "table h = None" "4 \<le> unat nel" "unat nel \<le> r" "prime_nat r" "r \<le> 2 ^ 16" "alloc E (allocs h)"
  shows "\<exists>h'. hcreate_r E nel h = Some (1, h') \<and> hinv h' \<and> hmap h' = Map.empty \<and> has_room h' \<and>
    prime_nat (unat (hsize h')) \<and> unat nel \<le> unat (hsize h') \<and> unat (hsize h') \<le> r \<and> change_ok h' = change_ok h \<and>
    no_tomb h' \<and> table h' = Some (replicate (unat (hsize h') + 1) empty_slot)"
proof -
  have "odd r" using assms unfolding prime_nat_def by auto
  then have o: "odd (unat (nel OR 1))" "5 \<le> unat (nel OR 1)" "unat (nel OR 1) \<le> r"
    using odd_unat_or_1 [of nel] assms by (presburger, presburger, presburger)
  then obtain q where q: "next_prime (nel OR 1) = Some q" "prime_nat (unat q)" "unat (nel OR 1) \<le> unat q" "unat q \<le> r"
    using next_prime_least assms by blast
  define t where "t = replicate (unat q + 1) empty_slot"
  define h' where "h' = h\<lparr>hsize := q, filled := 0, allocs := allocs h + 1, table := Some t\<rparr>"
  have "hcreate_r E nel h = Some (1, h')" using assms q by (simp add: hcreate_r_def h'_def t_def Let_def)
  moreover have "hinv h'"
  proof (rule hinvI [of _ t])
    show "table_inv (unat (hsize h')) t" unfolding t_def h'_def using q o table_inv_empty [of "unat q"] by (simp del: replicate_Suc)
    have "live_slots (unat q) t = {}" by (auto simp: live_slots_def t_def live_def empty_slot_def nth_replicate simp del: replicate_Suc)
    then show "unat (filled h') = card (live_slots (unat (hsize h')) t)" by (simp add: h'_def)
  qed (simp add: h'_def)
  moreover have "hmap h' = Map.empty" by (simp add: hmap_def h'_def t_def table_map_def hmap_empty)
  moreover have "has_room h'" using q o by (simp add: has_room_def h'_def t_def empty_slot_def)
  moreover have "no_tomb h'" by (simp add: no_tomb_def h'_def t_def empty_slot_def)
  ultimately show ?thesis using q odd_unat_or_1 [of nel] by (intro exI [of _ h']) (auto simp: h'_def t_def)
qed

subsection \<open>An example\<close>

definition ex_hooks :: env_hooks where
  "ex_hooks = \<lparr>alloc = \<lambda>_. True, env_callback_init = (\<lambda>e. e\<lparr>callback := None\<rparr>), env_flags_init = (\<lambda>e. e)\<rparr>"

definition ex_item :: "str \<Rightarrow> str \<Rightarrow> ENTRY" where
  "ex_item k d = \<lparr>key = Some k, data = Some d, callback = None, flags = 0\<rparr>"

definition ex_empty :: hsearch_data where
  "ex_empty = \<lparr>table = Some [empty_slot, empty_slot, empty_slot, empty_slot, empty_slot, empty_slot], hsize = 5, filled = 0, change_ok = None, errno = 0, allocs = 0\<rparr>"

definition ex_table :: hsearch_data where
  "ex_table = ex_empty\<lparr>table := Some [empty_slot, empty_slot, empty_slot, \<lparr>used = 3, entry = ex_item [97] [98]\<rparr>, empty_slot, empty_slot], filled := 1, allocs := 2\<rparr>"

lemma ex_enter: "hsearch_r ex_hooks (ex_item [97] [98]) ENTER ex_empty 0 = Some (1, Some 3, ex_table)"
proof -
  have "first_hash 5 [97] = 3" by code_simp
  then show ?thesis
    by (simp add: hsearch_r_def hsearch_enter_def ex_item_def ex_empty_def ex_hooks_def ex_table_def
       arr_get_def empty_slot_def strdup_h_def strdup_opt_def set_slot_def change_rejected_def callback_rejected_def Let_def)
qed

definition ex_full :: hsearch_data where
  "ex_full = ex_empty\<lparr>filled := 4, table := Some [empty_slot,
     \<lparr>used = 1, entry = ex_item [99] [1]\<rparr>, \<lparr>used = 2, entry = ex_item [101] [2]\<rparr>, \<lparr>used = 3, entry = ex_item [97] [3]\<rparr>,
     \<lparr>used = -1, entry = \<lparr>key = None, data = None, callback = None, flags = 0\<rparr>\<rparr>, \<lparr>used = 3, entry = ex_item [102] [4]\<rparr>]\<rparr>"

lemma prime_5: "prime_nat 5"
proof -
  have "isprime 5 = Some True" by (subst isprime_def, subst isprime_loop.simps) simp
  then show ?thesis using isprime_correct [of 5] by simp
qed

lemma ex_hooks_plain: "plain_hooks ex_hooks"
  by (simp add: plain_hooks_def ex_hooks_def)

lemma ex_empty_inv: "hinv ex_empty" "has_room ex_empty" "hmap ex_empty = Map.empty"
proof -
  have r: "table ex_empty = Some (replicate (5 + 1) empty_slot)" "hsize ex_empty = 5" "filled ex_empty = 0"
    by (simp_all add: ex_empty_def eval_nat_numeral)
  have "live_slots 5 (replicate (5 + 1) empty_slot) = {}"
    by (auto simp: live_slots_def live_def empty_slot_def nth_replicate simp del: replicate_Suc)
  then have c: "card (live_slots 5 (replicate (5 + 1) empty_slot)) = 0" by (simp only: card.empty)
  have "table_inv 5 (replicate (5 + 1) empty_slot)" by (rule table_inv_empty [OF prime_5]) simp
  with c show "hinv ex_empty" by (intro hinvI [OF r(1)]) (simp_all only: r unsigned_0 unsigned_numeral, simp_all)
  show "has_room ex_empty" by (simp add: has_room_def ex_empty_def empty_slot_def)
  show "hmap ex_empty = Map.empty" using r by (simp add: hmap_def table_map_def hmap_empty)
qed

lemma ex_table_inv: "hinv ex_table" "hmap ex_table = [[97] \<mapsto> [98]]" "has_room ex_table" "accepting ex_hooks ex_table 0"
proof -
  have i: "key (ex_item [97] [98]) = Some [97]" "data (ex_item [97] [98]) = Some [98]" by (simp_all add: ex_item_def)
  show "hinv ex_table" "hmap ex_table = [[97] \<mapsto> [98]]"
    using hsearch_ENTER [OF ex_empty_inv(1) ex_hooks_plain ex_empty_inv(2) i, of 0] ex_enter ex_empty_inv(3) by simp_all
  show "has_room ex_table" by (simp add: has_room_def ex_table_def empty_slot_def)
  show "accepting ex_hooks ex_table 0"
    by (simp add: accepting_def ex_hooks_def ex_table_def ex_empty_def ex_item_def empty_slot_def change_rejected_def)
qed

subsection \<open>The correctness of the hash table\<close>

text \<open>
  C33. Searching finds exactly what the table holds: a key without an entry gives 0 with the error \<open>ESRCH\<close>, a
  key with one gives the non-zero index of a slot with that key and its value; the table does not change.
\<close>

theorem hsearch_find_looks_up:
  assumes "hinv h" "key item = Some k"
  shows "(hmap h k = None \<longrightarrow> hsearch_r E item FIND h flag = Some (0, None, h\<lparr>errno := 3\<rparr>)) \<and>
    (\<forall>d. hmap h k = Some d \<longrightarrow>
      (\<exists>i t. hsearch_r E item FIND h flag = Some (int i, Some i, h) \<and> 0 < i \<and> table h = Some t \<and> i < length t \<and>
             key (entry (t ! i)) = Some k \<and> data (entry (t ! i)) = Some d))"
proof -
  obtain t where t: "table h = Some t" "length t = unat (hsize h) + 1" using assms(1) by (auto elim: hinvE simp: table_inv_def)
  show ?thesis using hsearch_FIND [OF assms t(1), of E flag] t by (fastforce simp: holds_def)
qed

theorem hsearch_find_looks_up_witness:
  "hsearch_r ex_hooks (key_item [99]) FIND ex_table 0 = Some (0, None, ex_table\<lparr>errno := 3\<rparr>) \<and>
   (\<exists>i t. hsearch_r ex_hooks (key_item [97]) FIND ex_table 0 = Some (int i, Some i, ex_table) \<and> table ex_table = Some t \<and>
          data (entry (t ! i)) = Some [98])"
  using hsearch_find_looks_up [OF ex_table_inv(1), of "key_item [99]" "[99]" ex_hooks 0]
    hsearch_find_looks_up [OF ex_table_inv(1), of "key_item [97]" "[97]" ex_hooks 0]
  by (auto simp: ex_table_inv key_item_def)



text \<open>
  C34. Deleting a key removes exactly that key from the map, or reports 0 and leaves the map as it was: when the
  key is absent or a permission check or callback rejects. The invariant is kept.
\<close>

theorem hdelete_removes:
  assumes "hinv h"
  shows "\<exists>r h'. hdelete_r E k h flag = Some (r, h') \<and> hinv h' \<and> hmap h' = (if r = 0 then hmap h else (hmap h)(k := None)) \<and>
     (r \<noteq> 0 \<longrightarrow> hmap h k \<noteq> None) \<and> (accepting E h flag \<and> hmap h k \<noteq> None \<longrightarrow> r \<noteq> 0)"
  by (rule hdelete_refines [OF assms])

theorem hdelete_removes_witness:
  "\<exists>r h'. hdelete_r ex_hooks [97] ex_table 0 = Some (r, h') \<and> r \<noteq> 0 \<and> hinv h' \<and> hmap h' = Map.empty"
  using hdelete_removes [OF ex_table_inv(1), of ex_hooks "[97]" 0] by (fastforce simp: ex_table_inv)

text \<open>
  Creating a table ends for every requested size from 4 on that has a prime above it up to 65536: the size is a prime
  not below the request and not above that prime, and the table is empty and has room.
\<close>

theorem hcreate_makes_table:
  assumes "table h = None" "4 \<le> unat nel" "unat nel \<le> r" "prime_nat r" "r \<le> 2 ^ 16" "alloc E (allocs h)"
  shows "\<exists>h'. hcreate_r E nel h = Some (1, h') \<and> hinv h' \<and> hmap h' = Map.empty \<and> has_room h' \<and>
    prime_nat (unat (hsize h')) \<and> unat nel \<le> unat (hsize h') \<and> unat (hsize h') \<le> r"
  using hcreate_creates [OF assms] by blast

theorem hcreate_makes_table_witness:
  "\<exists>h'. hcreate_r ex_hooks 4 (hdestroy_r ex_table) = Some (1, h') \<and> hinv h' \<and> hmap h' = Map.empty \<and> unat (hsize h') = 5"
proof -
  have "table (hdestroy_r ex_table) = None" "alloc ex_hooks (allocs (hdestroy_r ex_table))" by (simp_all add: hdestroy_r_def ex_hooks_def)
  then obtain h' where h': "hcreate_r ex_hooks 4 (hdestroy_r ex_table) = Some (1, h')" "hinv h'" "hmap h' = Map.empty"
      "4 \<le> unat (hsize h')" "unat (hsize h') \<le> 5" "prime_nat (unat (hsize h'))"
    using hcreate_makes_table [of "hdestroy_r ex_table" 4 5 ex_hooks] prime_5 by auto
  have "\<not> prime_nat 4" unfolding prime_nat_def by (auto intro!: exI [of _ 2])
  then have "unat (hsize h') = 5" using h' by (metis le_antisym not_less_eq_eq eval_nat_numeral(3) numeral_code(2) nat_less_le)
  then show ?thesis using h' by blast
qed

text \<open>
  With no empty slot left, only live entries and tombstones off the first index, the search for a new key comes
  back to its first index and the new entry overwrites the live entry there, although the table is not full.
\<close>

lemma hsearch_enter_loses_entry:
  "filled ex_full \<noteq> hsize ex_full \<and> hmap ex_full [99] = Some [1] \<and>
   (case hsearch_r ex_hooks (ex_item [100] [5]) ENTER ex_full 0 of
      None \<Rightarrow> False | Some (r, rv, h) \<Rightarrow> r = 1 \<and> hmap h [99] = None)"
  by code_simp

end
