(* ===== verification/Clib_Qsort.thy ===== *)
theory Clib_Qsort
  imports Prelude "HOL-Library.Multiset"
begin

text \<open>
  The shell sort of \<^verbatim>\<open>lib/qsort.c\<close>. The array is the list of its elements; the byte offsets and the byte-wise
  exchange of the code, which are multiples of the element width, appear as element indices and as one exchange of
  two elements. The gaps are the numbers 1, 4, 13, ... The comparison function is an argument.
\<close>

definition swap_at :: "'a list \<Rightarrow> nat \<Rightarrow> nat \<Rightarrow> 'a list" where
  "swap_at xs i j = xs[i := xs ! j, j := xs ! i]"

text \<open>The first gap: \<open>do wgap = 3 * wgap + 1; while (wgap < (nel - 1) / 3)\<close>.\<close>

function qsort_gap :: "nat \<Rightarrow> nat \<Rightarrow> nat" where
  "qsort_gap nel wgap = (let wgap = 3 * wgap + 1 in if wgap < (nel - 1) div 3 then qsort_gap nel wgap else wgap)"
  by pat_completeness auto
termination
  by (relation "measure (\<lambda>(nel, wgap). nel - wgap)") auto

text \<open>The innermost loop, which moves the element at \<open>j\<close> down in steps of the gap.\<close>

function qsort_sift :: "('a \<Rightarrow> 'a \<Rightarrow> int) \<Rightarrow> nat \<Rightarrow> nat \<Rightarrow> 'a list \<Rightarrow> 'a list" where
  "qsort_sift cmp wgap j xs =
     (let j' = j - wgap in
      if cmp (xs ! j') (xs ! (j' + wgap)) \<le> 0 then xs
      else
        (let xs = swap_at xs j' (j' + wgap) in
         if 0 < wgap \<and> wgap \<le> j' then qsort_sift cmp wgap j' xs else xs))"
  by pat_completeness auto
termination
  by (relation "measure (\<lambda>(cmp, wgap, j, xs). j)") auto

function qsort_pass :: "('a \<Rightarrow> 'a \<Rightarrow> int) \<Rightarrow> nat \<Rightarrow> nat \<Rightarrow> nat \<Rightarrow> 'a list \<Rightarrow> 'a list" where
  "qsort_pass cmp wgap nel i xs =
     (let xs = qsort_sift cmp wgap i xs; i = i + 1 in
      if i < nel then qsort_pass cmp wgap nel i xs else xs)"
  by pat_completeness auto
termination
  by (relation "measure (\<lambda>(cmp, wgap, nel, i, xs). nel - i)") auto

function qsort_gaps :: "('a \<Rightarrow> 'a \<Rightarrow> int) \<Rightarrow> nat \<Rightarrow> nat \<Rightarrow> 'a list \<Rightarrow> 'a list" where
  "qsort_gaps cmp nel wgap xs =
     (let xs = qsort_pass cmp wgap nel wgap xs; wgap' = (wgap - 1) div 3 in
      if wgap' \<noteq> 0 then qsort_gaps cmp nel wgap' xs else xs)"
  by pat_completeness auto
termination
  by (relation "measure (\<lambda>(cmp, nel, wgap, xs). wgap)") auto

declare qsort_gap.simps [simp del] qsort_sift.simps [simp del] qsort_pass.simps [simp del] qsort_gaps.simps [simp del]

definition qsort :: "('a \<Rightarrow> 'a \<Rightarrow> int) \<Rightarrow> 'a list \<Rightarrow> 'a list" where
  "qsort cmp xs = (let nel = length xs in
     if nel > 1 then qsort_gaps cmp nel (qsort_gap nel 0) xs else xs)"

subsection \<open>The result is a permutation\<close>

lemma mset_swap_at: "i < length xs \<Longrightarrow> j < length xs \<Longrightarrow> mset (swap_at xs i j) = mset xs"
  by (simp add: swap_at_def mset_swap)

lemma length_swap_at [simp]: "length (swap_at xs i j) = length xs"
  by (simp add: swap_at_def)

lemma mset_sift: "j < length xs \<Longrightarrow> wgap \<le> j \<Longrightarrow> mset (qsort_sift cmp wgap j xs) = mset xs"
proof (induction cmp wgap j xs rule: qsort_sift.induct)
  case (1 cmp wgap j xs)
  let ?j = "j - wgap"
  have m: "mset (swap_at xs ?j (?j + wgap)) = mset xs" using "1.prems" by (intro mset_swap_at) auto
  show ?case
  proof (cases "cmp (xs ! ?j) (xs ! (?j + wgap)) \<le> 0 \<or> \<not> (0 < wgap \<and> wgap \<le> ?j)")
    case True
    then show ?thesis using m by (subst qsort_sift.simps) (auto simp: Let_def)
  next
    case False
    then have "mset (qsort_sift cmp wgap ?j (swap_at xs ?j (?j + wgap))) = mset (swap_at xs ?j (?j + wgap))"
      using "1.prems" by (intro "1.IH") auto
    then show ?thesis using False m by (subst qsort_sift.simps) (auto simp: Let_def)
  qed
qed

lemma mset_pass: "i < nel \<Longrightarrow> nel \<le> length xs \<Longrightarrow> wgap \<le> i \<Longrightarrow> mset (qsort_pass cmp wgap nel i xs) = mset xs"
proof (induction cmp wgap nel i xs rule: qsort_pass.induct)
  case (1 cmp wgap nel i xs)
  let ?xs = "qsort_sift cmp wgap i xs"
  have m: "mset ?xs = mset xs" using "1.prems" by (intro mset_sift) auto
  then have len: "length ?xs = length xs" by (metis size_mset)
  show ?case
  proof (cases "i + 1 < nel")
    case True
    have "mset (qsort_pass cmp wgap nel (i + 1) ?xs) = mset ?xs"
      using "1.prems" True len by (intro "1.IH") auto
    then show ?thesis using True m by (subst qsort_pass.simps) (simp add: Let_def)
  next
    case False
    then show ?thesis using m by (subst qsort_pass.simps) (simp add: Let_def)
  qed
qed

lemma mset_gaps: "wgap < nel \<Longrightarrow> nel = length xs \<Longrightarrow> mset (qsort_gaps cmp nel wgap xs) = mset xs"
proof (induction cmp nel wgap xs rule: qsort_gaps.induct)
  case (1 cmp nel wgap xs)
  let ?xs = "qsort_pass cmp wgap nel wgap xs"
  have m: "mset ?xs = mset xs" using "1.prems" by (intro mset_pass) auto
  then have len: "length ?xs = length xs" by (metis size_mset)
  show ?case
  proof (cases "(wgap - 1) div 3 \<noteq> 0")
    case True
    have "mset (qsort_gaps cmp nel ((wgap - 1) div 3) ?xs) = mset ?xs"
      using "1.prems" True len by (intro "1.IH") auto
    then show ?thesis using True m by (subst qsort_gaps.simps) (simp add: Let_def)
  next
    case False
    then show ?thesis using m by (subst qsort_gaps.simps) (simp add: Let_def)
  qed
qed

text \<open>The gaps are \<open>1, 4, 13, ...\<close> and stay below the number of elements.\<close>

inductive_set shell_gaps :: "nat set" where
  one: "1 \<in> shell_gaps"
| step: "g \<in> shell_gaps \<Longrightarrow> 3 * g + 1 \<in> shell_gaps"

lemma qsort_gap_ok: "w = 0 \<or> w \<in> shell_gaps \<Longrightarrow> w = 0 \<or> w < (nel - 1) div 3 \<Longrightarrow> 1 < nel \<Longrightarrow>
    qsort_gap nel w \<in> shell_gaps \<and> qsort_gap nel w < nel"
proof (induction nel w rule: qsort_gap.induct)
  case (1 nel w)
  have g: "3 * w + 1 \<in> shell_gaps" using "1.prems"(1) shell_gaps.step [of w] shell_gaps.one by auto
  have lt: "3 * w + 1 < nel" using "1.prems"(2,3) by auto
  show ?case
  proof (cases "3 * w + 1 < (nel - 1) div 3")
    case True
    then show ?thesis using "1.IH" [OF refl True] g "1.prems" by (subst (1 2) qsort_gap.simps) (simp add: Let_def)
  next
    case False
    then show ?thesis using g lt by (subst (1 2) qsort_gap.simps) (simp add: Let_def)
  qed
qed

lemma qsort_mset: "mset (qsort cmp xs) = mset xs"
proof (cases "length xs > 1")
  case True
  then have "qsort_gap (length xs) 0 < length xs" using qsort_gap_ok [of 0 "length xs"] by auto
  then show ?thesis using mset_gaps [OF _ refl] True by (simp add: qsort_def Let_def)
next
  case False
  then show ?thesis by (simp add: qsort_def Let_def)
qed

subsection \<open>The result is sorted\<close>

text \<open>The comparison orders a set: it is total and transitive there.\<close>

definition orders :: "('a \<Rightarrow> 'a \<Rightarrow> int) \<Rightarrow> 'a set \<Rightarrow> bool" where
  "orders cmp A \<longleftrightarrow> (\<forall>a \<in> A. \<forall>b \<in> A. cmp a b \<le> 0 \<or> cmp b a \<le> 0) \<and>
     (\<forall>a \<in> A. \<forall>b \<in> A. \<forall>c \<in> A. cmp a b \<le> 0 \<and> cmp b c \<le> 0 \<longrightarrow> cmp a c \<le> 0)"

text \<open>The state of the innermost loop with gap 1: all but the moving element at \<open>j\<close> are in order up to \<open>k\<close>.\<close>

definition sifting :: "('a \<Rightarrow> 'a \<Rightarrow> int) \<Rightarrow> nat \<Rightarrow> nat \<Rightarrow> 'a list \<Rightarrow> bool" where
  "sifting cmp j k xs \<longleftrightarrow> (\<forall>a b. a < b \<and> b \<le> k \<and> b \<noteq> j \<longrightarrow> cmp (xs ! a) (xs ! b) \<le> 0)"

lemma sift_one:
  assumes "orders cmp (set xs)" "sifting cmp j k xs" "0 < j" "j \<le> k" "k < length xs"
  shows "sorted_wrt (\<lambda>a b. cmp a b \<le> 0) (take (Suc k) (qsort_sift cmp 1 j xs)) \<and>
    drop (Suc k) (qsort_sift cmp 1 j xs) = drop (Suc k) xs"
  using assms
proof (induction cmp "1 :: nat" j xs rule: qsort_sift.induct)
  case (1 cmp j xs)
  let ?i = "j - 1"
  have ij: "?i < j" "?i + 1 = j" "j < length xs" using "1.prems" by auto
  have ord: "\<And>a b. a < length xs \<Longrightarrow> b < length xs \<Longrightarrow> cmp (xs ! a) (xs ! b) \<le> 0 \<or> cmp (xs ! b) (xs ! a) \<le> 0"
    and tr: "\<And>a b c. a < length xs \<Longrightarrow> b < length xs \<Longrightarrow> c < length xs \<Longrightarrow>
      cmp (xs ! a) (xs ! b) \<le> 0 \<Longrightarrow> cmp (xs ! b) (xs ! c) \<le> 0 \<Longrightarrow> cmp (xs ! a) (xs ! c) \<le> 0"
    using "1.prems"(1) unfolding orders_def by (metis nth_mem)+
  have s: "cmp (xs ! a) (xs ! b) \<le> 0" if "a < b" "b \<le> k" "b \<noteq> j" for a b
    using "1.prems"(2) that by (auto simp: sifting_def)
  show ?case
  proof (cases "cmp (xs ! ?i) (xs ! j) \<le> 0")
    case True
    have "cmp (xs ! a) (xs ! j) \<le> 0" if "a < j" for a
    proof (cases "a = ?i")
      case False
      then show ?thesis using that True s [of a ?i] tr [of a ?i j] "1.prems"(4,5) ij by auto
    qed (use True in simp)
    then have "cmp (xs ! a) (xs ! b) \<le> 0" if "a < b" "b \<le> k" for a b
      using that s [of a b] by (cases "b = j") auto
    then have "sorted_wrt (\<lambda>a b. cmp a b \<le> 0) (take (Suc k) xs)"
      using "1.prems"(5) by (auto simp: sorted_wrt_iff_nth_less)
    then show ?thesis using True ij by (subst (1 2) qsort_sift.simps) (simp add: Let_def)
  next
    case False
    let ?xs = "swap_at xs ?i j"
    have nth: "?xs ! a = (if a = j then xs ! ?i else if a = ?i then xs ! j else xs ! a)" if "a < length xs" for a
      using that ij by (auto simp: swap_at_def nth_list_update)
    have le: "cmp (xs ! j) (xs ! ?i) \<le> 0" using False ord [of ?i j] ij by auto
    have sift: "cmp (?xs ! a) (?xs ! b) \<le> 0" if ab: "a < b" "b \<le> k" "b \<noteq> ?i" for a b
    proof -
      have n: "?xs ! a = (if a = j then xs ! ?i else if a = ?i then xs ! j else xs ! a)"
        "?xs ! b = (if b = j then xs ! ?i else xs ! b)" using nth ab "1.prems"(5) by auto
      consider "b = j" "a = ?i" | "b = j" "a < ?i" | "b \<noteq> j" "a = j" | "b \<noteq> j" "a = ?i" | "b \<noteq> j" "a \<noteq> j" "a \<noteq> ?i"
        using ab ij by linarith
      then show ?thesis
      proof cases
        case 1 then show ?thesis using n le ij by simp
      next
        case 2
        then have "a \<noteq> j" "?i \<noteq> j" "?i \<le> k" using "1.prems"(4) ij by auto
        then show ?thesis using 2 n s [of a ?i] by simp
      next
        case 3 then show ?thesis using n s [of ?i b] ab ij by simp
      next
        case 4
        then have "j < b" using ab ij by linarith
        then show ?thesis using 4 n s [of j b] ab ij by simp
      next
        case 5 then show ?thesis using n s [of a b] ab by simp
      qed
    qed
    have drop: "drop (Suc k) ?xs = drop (Suc k) xs" using ij "1.prems"(4) by (simp add: swap_at_def)
    have eq: "qsort_sift cmp 1 j xs = (if 1 \<le> ?i then qsort_sift cmp 1 ?i ?xs else ?xs)"
      using False ij by (subst qsort_sift.simps) (simp add: Let_def)
    show ?thesis
    proof (cases "1 \<le> ?i")
      case True
      have "mset ?xs = mset xs" using ij by (intro mset_swap_at) auto
      then have "set ?xs = set xs" by (rule mset_eq_setD)
      then have "sorted_wrt (\<lambda>a b. cmp a b \<le> 0) (take (Suc k) (qsort_sift cmp 1 ?i ?xs)) \<and>
          drop (Suc k) (qsort_sift cmp 1 ?i ?xs) = drop (Suc k) ?xs"
        using "1.hyps" [OF refl _ refl] False True ij "1.prems" sift by (auto simp: sifting_def)
      then show ?thesis using True drop unfolding eq by simp
    next
      case no: False
      then have "?i = 0" by simp
      then have "sorted_wrt (\<lambda>a b. cmp a b \<le> 0) (take (Suc k) ?xs)"
        using sift "1.prems"(5) by (auto simp: sorted_wrt_iff_nth_less)
      then show ?thesis using no drop unfolding eq by simp
    qed
  qed
qed

lemma pass_one:
  assumes "orders cmp (set xs)" "sorted_wrt (\<lambda>a b. cmp a b \<le> 0) (take i xs)" "0 < i" "i < length xs"
  shows "sorted_wrt (\<lambda>a b. cmp a b \<le> 0) (qsort_pass cmp 1 (length xs) i xs)"
  using assms
proof (induction "length xs - i" arbitrary: i xs)
  case (Suc n)
  let ?xs = "qsort_sift cmp 1 i xs"
  have "sifting cmp i i xs"
    using Suc.prems(2,4) by (auto simp: sifting_def sorted_wrt_iff_nth_less)
  with sift_one [of cmp xs i i] Suc.prems
  have so: "sorted_wrt (\<lambda>a b. cmp a b \<le> 0) (take (Suc i) ?xs)" by simp
  have m: "mset ?xs = mset xs" using Suc.prems by (intro mset_sift) auto
  then have len: "length ?xs = length xs" and set: "set ?xs = set xs" by (metis size_mset, metis set_mset_mset)
  show ?case
  proof (cases "Suc i < length xs")
    case True
    have "sorted_wrt (\<lambda>a b. cmp a b \<le> 0) (qsort_pass cmp 1 (length ?xs) (Suc i) ?xs)"
      using Suc.hyps Suc.prems so True len set by (intro Suc.hyps(1)) auto
    then show ?thesis using True len by (subst qsort_pass.simps) (simp add: Let_def)
  next
    case False
    then have "take (Suc i) ?xs = ?xs" using len by simp
    then show ?thesis using so False by (subst qsort_pass.simps) (simp add: Let_def)
  qed
qed simp

lemma gaps_sorted:
  assumes "orders cmp (set xs)" "wgap \<in> shell_gaps" "wgap < length xs" "nel = length xs"
  shows "sorted_wrt (\<lambda>a b. cmp a b \<le> 0) (qsort_gaps cmp nel wgap xs)"
  using assms
proof (induction cmp nel wgap xs rule: qsort_gaps.induct)
  case (1 cmp nel wgap xs)
  let ?xs = "qsort_pass cmp wgap nel wgap xs"
  have m: "mset ?xs = mset xs" using "1.prems" by (intro mset_pass) auto
  then have len: "length ?xs = length xs" and set: "set ?xs = set xs" by (metis size_mset, metis set_mset_mset)
  from "1.prems"(2) show ?case
  proof cases
    case one
    have "sorted_wrt (\<lambda>a b. cmp a b \<le> 0) (take 1 xs)" by (cases xs) auto
    then have "sorted_wrt (\<lambda>a b. cmp a b \<le> 0) (qsort_pass cmp 1 (length xs) 1 xs)"
      using "1.prems" one by (intro pass_one) auto
    then show ?thesis using one "1.prems"(4) by (subst qsort_gaps.simps) (simp add: Let_def)
  next
    case (step g)
    have "g \<noteq> 0" using step(2) by cases auto
    then have "(wgap - 1) div 3 = g" "g \<noteq> 0" using step by auto
    moreover from this have "sorted_wrt (\<lambda>a b. cmp a b \<le> 0) (qsort_gaps cmp nel ((wgap - 1) div 3) ?xs)"
      using step "1.prems" len set by (intro "1.IH") auto
    ultimately show ?thesis by (subst qsort_gaps.simps) (simp add: Let_def)
  qed
qed

text \<open>
  C32. \<open>qsort\<close> always returns a permutation of the array, and for a comparison that is total and
  transitive on the elements the result is sorted.
\<close>

theorem qsort_sorts:
  assumes "orders cmp (set xs)"
  shows "mset (qsort cmp xs) = mset xs \<and> sorted_wrt (\<lambda>a b. cmp a b \<le> 0) (qsort cmp xs)"
proof (cases "length xs > 1")
  case True
  have "qsort_gap (length xs) 0 \<in> shell_gaps \<and> qsort_gap (length xs) 0 < length xs"
    using True by (intro qsort_gap_ok) auto
  then show ?thesis
    using True gaps_sorted [OF assms _ _ refl, of "qsort_gap (length xs) 0"] qsort_mset [of cmp xs] by (simp add: qsort_def Let_def)
next
  case False
  then show ?thesis by (cases xs) (auto simp: qsort_def Let_def)
qed

theorem qsort_sorts_witness:
  "mset (qsort (\<lambda>a b. a - b) [5, 2, 9, 1, 7, 3 :: int]) = mset [5, 2, 9, 1, 7, 3] \<and>
    sorted_wrt (\<lambda>a b. a - b \<le> 0) (qsort (\<lambda>a b. a - b) [5, 2, 9, 1, 7, 3 :: int])"
  by (rule qsort_sorts) (auto simp: orders_def)

end
