(* ===== verification/Env_Text.thy ===== *)
theory Env_Text
  imports Hash_Map Clib_Qsort Clib_Ctype
begin

unbundle bit_operations_syntax

text \<open>
  The environment as text: \<open>hexport_r\<close> and \<open>himport_r\<close> of \<^verbatim>\<open>lib/hashtable.c\<close> with their helpers. The output
  buffer is a list of bytes, and a store outside it has no result. The importer works on its own copy of the text,
  in which it terminates names and values; it never reads a byte again that it has written, so the model returns
  names and values as lists and leaves the copy alone. A read outside the copy has no result. Text
  lengths are natural numbers: a text that fits the memory cannot overflow them. The printed messages are not modelled, and \<open>CONFIG_REGEX\<close> is off.
\<close>

abbreviation (input) H_NOCLEAR :: u32 where "H_NOCLEAR \<equiv> 0x01"
abbreviation (input) H_FORCE :: u32 where "H_FORCE \<equiv> 0x02"
abbreviation (input) H_INTERACTIVE :: u32 where "H_INTERACTIVE \<equiv> 0x04"
abbreviation (input) H_HIDE_DOT :: u32 where "H_HIDE_DOT \<equiv> 0x08"
abbreviation (input) H_MATCH_KEY :: u32 where "H_MATCH_KEY \<equiv> 0x10"
abbreviation (input) H_MATCH_DATA :: u32 where "H_MATCH_DATA \<equiv> 0x20"
abbreviation (input) H_MATCH_IDENT :: u32 where "H_MATCH_IDENT \<equiv> 0x40"
abbreviation (input) H_MATCH_SUBSTR :: u32 where "H_MATCH_SUBSTR \<equiv> 0x80"
abbreviation (input) H_MATCH_METHOD :: u32 where "H_MATCH_METHOD \<equiv> 0x1C0"
abbreviation (input) CONFIG_ENV_MIN_ENTRIES :: nat where "CONFIG_ENV_MIN_ENTRIES \<equiv> 64"
abbreviation (input) CONFIG_ENV_MAX_ENTRIES :: nat where "CONFIG_ENV_MAX_ENTRIES \<equiv> 512"

subsection \<open>Export\<close>

text \<open>The result of \<open>strcmp\<close> on two strings: the first difference, as a signed byte.\<close>

fun strcmp_str :: "str \<Rightarrow> str \<Rightarrow> int" where
  "strcmp_str [] [] = 0"
| "strcmp_str (a # as) [] = sint a"
| "strcmp_str [] (b # bs) = sint (- b)"
| "strcmp_str (a # as) (b # bs) = (if a - b \<noteq> 0 then sint (a - b) else strcmp_str as bs)"

definition strstr_str :: "str \<Rightarrow> str \<Rightarrow> bool" where
  "strstr_str s pat = list_ex (\<lambda>i. take (length pat) (drop i s) = pat) [0..<length s + 1]"

definition cmpkey :: "str \<times> str \<Rightarrow> str \<times> str \<Rightarrow> int" where
  "cmpkey e1 e2 = strcmp_str (fst e1) (fst e2)"

definition match_string :: "u32 \<Rightarrow> str \<Rightarrow> str \<Rightarrow> bool" where
  "match_string flag s pat =
     (if flag AND H_MATCH_METHOD = H_MATCH_IDENT then s = pat
      else if flag AND H_MATCH_METHOD = H_MATCH_SUBSTR then strstr_str s pat
      else False)"

fun match_entry :: "str \<times> str \<Rightarrow> u32 \<Rightarrow> str list \<Rightarrow> bool" where
  "match_entry e flag [] = False"
| "match_entry e flag (arg # argv) =
     (if flag AND H_MATCH_KEY \<noteq> 0 \<and> match_string flag (fst e) arg then True
      else if flag AND H_MATCH_DATA \<noteq> 0 \<and> match_string flag (snd e) arg then True
      else match_entry e flag argv)"

text \<open>The room that the first pass counts for a value.\<close>

fun value_room :: "u8 \<Rightarrow> str \<Rightarrow> nat" where
  "value_room sep [] = 0"
| "value_room sep (c # s) = 1 + (if c = sep \<or> c = 92 then 1 else 0) + value_room sep s"

text \<open>The first pass: the entries to export, as pairs of key and value, and the total length.\<close>

fun hexport_scan :: "nat \<Rightarrow> nat \<Rightarrow> u8 \<Rightarrow> u32 \<Rightarrow> str list \<Rightarrow> HENTRY list \<Rightarrow> ((str \<times> str) list \<times> nat) option" where
  "hexport_scan 0 i sep flag argv t = Some ([], 0)"
| "hexport_scan (Suc n) i sep flag argv t = do {
     s \<leftarrow> arr_get t i;
     if used s > 0 then do {
       k \<leftarrow> key (entry s);
       d \<leftarrow> data (entry s);
       let found = match_entry (k, d) flag argv;
       if argv \<noteq> [] \<and> \<not> found then hexport_scan n (i + 1) sep flag argv t
       else if flag AND H_HIDE_DOT \<noteq> 0 \<and> k \<noteq> [] \<and> hd k = 46 then hexport_scan n (i + 1) sep flag argv t
       else do {
         (es, totlen) \<leftarrow> hexport_scan n (i + 1) sep flag argv t;
         Some ((k, d) # es,
               length k + 2 + (if sep = 0 then length d else value_room sep d) + 2 + totlen)
       }
     }
     else hexport_scan n (i + 1) sep flag argv t
   }"

text \<open>What the second pass writes for an entry.\<close>

fun export_value :: "u8 \<Rightarrow> str \<Rightarrow> str" where
  "export_value sep [] = []"
| "export_value sep (c # s) = (if c = sep \<or> c = 92 then [92, c] else [c]) @ export_value sep s"

definition export_entry :: "u8 \<Rightarrow> str \<times> str \<Rightarrow> str" where
  "export_entry sep e = fst e @ [61] @ export_value sep (snd e) @ [sep]"

fun hexport_write :: "u8 \<Rightarrow> (str \<times> str) list \<Rightarrow> u8 list \<Rightarrow> nat \<Rightarrow> u8 list option" where
  "hexport_write sep [] res p = arr_set res p 0"
| "hexport_write sep (e # es) res p = do {
     res \<leftarrow> arr_blit res p (export_entry sep e);
     hexport_write sep es res (p + length (export_entry sep e))
   }"

text \<open>The result, the buffer pointed to by \<open>*resp\<close> afterwards, and the state; the pointers are not null.\<close>

definition hexport_r ::
  "env_hooks \<Rightarrow> hsearch_data \<Rightarrow> u8 \<Rightarrow> u32 \<Rightarrow> u8 list option \<Rightarrow> nat \<Rightarrow> str list \<Rightarrow>
   (int \<times> u8 list option \<times> hsearch_data) option" where
  "hexport_r E h sep flag resp sz argv = do {
     t \<leftarrow> table h;
     (es, totlen) \<leftarrow> hexport_scan (unat (hsize h)) 1 sep flag argv t;
     let es = qsort cmpkey es;
     if sz \<noteq> 0 \<and> sz < totlen + 1 then Some (-1, resp, h\<lparr>errno := ENOMEM\<rparr>)
     else do {
       let sz = (if sz \<noteq> 0 then sz else totlen + 1);
       case resp of
         Some res \<Rightarrow> do {
           res \<leftarrow> arr_blit res 0 (replicate sz 0);
           res \<leftarrow> hexport_write sep es res 0;
           Some (int sz, Some res, h)
         }
       | None \<Rightarrow> do {
           let ok = alloc E (allocs h);
           let h = h\<lparr>allocs := allocs h + 1\<rparr>;
           if \<not> ok then Some (-1, None, h\<lparr>errno := ENOMEM\<rparr>)
           else do {
             res \<leftarrow> hexport_write sep es (replicate sz 0) 0;
             Some (int sz, Some res, h)
           }
         }
     }
   }"

subsection \<open>Import\<close>

text \<open>Whether a variable is to be processed, and the list without it.\<close>

definition drop_var_from_set :: "str \<Rightarrow> str option list \<Rightarrow> bool \<times> str option list" where
  "drop_var_from_set name vars =
     (if vars = [] then (True, vars)
      else (Some name \<in> set vars, map (\<lambda>v. if v = Some name then None else v) vars))"

function skip_blank :: "u8 list \<Rightarrow> nat \<Rightarrow> nat option" where
  "skip_blank buf dp = do {
     c \<leftarrow> arr_get buf dp;
     if isblank c then skip_blank buf (dp + 1) else Some dp
   }"
  by pat_completeness auto
termination
  by (relation "measure (\<lambda>(buf, dp). length buf - dp)") (auto simp: arr_get_Some_iff)

function skip_comment :: "u8 list \<Rightarrow> u8 \<Rightarrow> nat \<Rightarrow> nat option" where
  "skip_comment buf sep dp = do {
     c \<leftarrow> arr_get buf dp;
     if c \<noteq> 0 \<and> c \<noteq> sep then skip_comment buf sep (dp + 1) else Some dp
   }"
  by pat_completeness auto
termination
  by (relation "measure (\<lambda>(buf, sep, dp). length buf - dp)") (auto simp: arr_get_Some_iff)

text \<open>A name or a value, with the position at which its loop stops.\<close>

function parse_name :: "u8 list \<Rightarrow> u8 \<Rightarrow> nat \<Rightarrow> (str \<times> nat) option" where
  "parse_name buf sep dp = do {
     c \<leftarrow> arr_get buf dp;
     if c \<noteq> 61 \<and> c \<noteq> 0 \<and> c \<noteq> sep then do {
       (name, dp) \<leftarrow> parse_name buf sep (dp + 1);
       Some (c # name, dp)
     }
     else Some ([], dp)
   }"
  by pat_completeness auto
termination
  by (relation "measure (\<lambda>(buf, sep, dp). length buf - dp)") (auto simp: arr_get_Some_iff)

function parse_value :: "u8 list \<Rightarrow> u8 \<Rightarrow> nat \<Rightarrow> (str \<times> nat) option" where
  "parse_value buf sep dp = do {
     c \<leftarrow> arr_get buf dp;
     if c \<noteq> 0 \<and> c \<noteq> sep then
       if c = 92 then do {
         d \<leftarrow> arr_get buf (dp + 1);
         let (x, dp) = (if d \<noteq> 0 then (d, dp + 1) else (c, dp));
         (v, dp) \<leftarrow> parse_value buf sep (dp + 1);
         Some (x # v, dp)
       }
       else do {
         (v, dp) \<leftarrow> parse_value buf sep (dp + 1);
         Some (c # v, dp)
       }
     else Some ([], dp)
   }"
  by pat_completeness auto
termination
  by (relation "measure (\<lambda>(buf, sep, dp). length buf - dp)") (auto simp: arr_get_Some_iff split: if_splits)

declare skip_blank.simps [simp del] skip_comment.simps [simp del] parse_name.simps [simp del] parse_value.simps [simp del]

text \<open>One round of the parser: a comment, a name to delete, or a name with a value; and the next position.\<close>

datatype item = Comment | Delete str | Insert str str

definition parse_item :: "u8 list \<Rightarrow> u8 \<Rightarrow> nat \<Rightarrow> (item \<times> nat) option" where
  "parse_item buf sep dp = do {
     dp \<leftarrow> skip_blank buf dp;
     c \<leftarrow> arr_get buf dp;
     if c = 35 then do {
       dp \<leftarrow> skip_comment buf sep dp;
       Some (Comment, dp + 1)
     }
     else do {
       (name, dp) \<leftarrow> parse_name buf sep dp;
       c \<leftarrow> arr_get buf dp;
       delete \<leftarrow> (if c = 0 then Some True
                  else do { d \<leftarrow> arr_get buf (dp + 1); Some (d = 0 \<or> c = sep \<or> d = sep) });
       if delete then Some (Delete name, (if c = 61 then dp + 2 else dp + 1))
       else do {
         (v, dp) \<leftarrow> parse_value buf sep (dp + 1);
         Some (Insert name v, dp + 1)
       }
     }
   }"

text \<open>What a round does to the table: false when the import ends with an error.\<close>

definition import_item ::
  "env_hooks \<Rightarrow> item \<Rightarrow> u32 \<Rightarrow> str option list \<Rightarrow> hsearch_data \<Rightarrow> (bool \<times> str option list \<times> hsearch_data) option" where
  "import_item E it flag vars h = (case it of
     Comment \<Rightarrow> Some (True, vars, h)
   | Delete name \<Rightarrow> do {
       let (ok, vars) = drop_var_from_set name vars;
       if \<not> ok then Some (True, vars, h)
       else do { (_, h) \<leftarrow> hdelete_r E name h flag; Some (True, vars, h) }
     }
   | Insert name v \<Rightarrow>
       if name = [] then Some (False, vars, h\<lparr>errno := EINVAL\<rparr>)
       else do {
         let (ok, vars) = drop_var_from_set name vars;
         if \<not> ok then Some (True, vars, h)
         else do {
           (_, _, h) \<leftarrow> hsearch_r E \<lparr>key = Some name, data = Some v, callback = None, flags = 0\<rparr> ENTER h flag;
           Some (True, vars, h)
         }
       })"

lemma skip_blank_ge: "skip_blank buf dp = Some dp' \<Longrightarrow> dp \<le> dp'"
  by (induction buf dp rule: skip_blank.induct)
    (subst (asm) (2) skip_blank.simps, auto simp: bind_eq_Some_conv split: if_splits)

lemma skip_comment_ge: "skip_comment buf sep dp = Some dp' \<Longrightarrow> dp \<le> dp'"
  by (induction buf sep dp rule: skip_comment.induct)
    (subst (asm) (2) skip_comment.simps, auto simp: bind_eq_Some_conv split: if_splits)

lemma parse_name_ge: "parse_name buf sep dp = Some (n, dp') \<Longrightarrow> dp \<le> dp'"
  by (induction buf sep dp arbitrary: n rule: parse_name.induct)
    (subst (asm) (2) parse_name.simps, force simp: bind_eq_Some_conv split: if_splits)

lemma parse_value_ge: "parse_value buf sep dp = Some (v, dp') \<Longrightarrow> dp \<le> dp'"
proof (induction "length buf - dp" arbitrary: dp v rule: less_induct)
  case less
  have IH: "\<And>d w. dp < length buf \<Longrightarrow> dp < d \<Longrightarrow> parse_value buf sep d = Some (w, dp') \<Longrightarrow> dp \<le> dp'"
    using less.hyps by (meson diff_less_mono2 less_imp_le order_trans)
  from less.prems show ?case
    by (subst (asm) parse_value.simps)
      (auto simp: bind_eq_Some_conv Let_def arr_get_Some_iff split: if_splits intro: IH [of "Suc dp"] IH [of "Suc (Suc dp)"])
qed

lemma parse_item_progress: "parse_item buf sep dp = Some (it, dp') \<Longrightarrow> dp < dp'"
  unfolding parse_item_def
  by (auto simp: bind_eq_Some_conv split: if_splits
      dest!: skip_blank_ge skip_comment_ge parse_name_ge parse_value_ge)

function himport_loop ::
  "env_hooks \<Rightarrow> u8 list \<Rightarrow> u8 \<Rightarrow> nat \<Rightarrow> u32 \<Rightarrow> str option list \<Rightarrow> hsearch_data \<Rightarrow>
   (bool \<times> str option list \<times> hsearch_data) option" where
  "himport_loop E buf sep dp flag vars h =
     (case parse_item buf sep dp of
        None \<Rightarrow> None
      | Some (it, dp') \<Rightarrow> do {
          (ok, vars, h) \<leftarrow> import_item E it flag vars h;
          if \<not> ok then Some (False, vars, h)
          else if dp' < length buf \<and> buf ! dp' \<noteq> 0 then himport_loop E buf sep dp' flag vars h
          else Some (True, vars, h)
        })"
  by pat_completeness auto
termination
  by (relation "measure (\<lambda>(E, buf, sep, dp, flag, vars, h). length buf - dp)") (auto dest: parse_item_progress)

declare himport_loop.simps [simp del]

text \<open>The variables that the text did not mention are deleted.\<close>

fun himport_rest :: "env_hooks \<Rightarrow> str option list \<Rightarrow> u32 \<Rightarrow> hsearch_data \<Rightarrow> hsearch_data option" where
  "himport_rest E [] flag h = Some h"
| "himport_rest E (None # vars) flag h = himport_rest E vars flag h"
| "himport_rest E (Some name # vars) flag h = do {
     (_, h) \<leftarrow> hdelete_r E name h flag;
     himport_rest E vars flag h
   }"

definition himport_r ::
  "env_hooks \<Rightarrow> hsearch_data \<Rightarrow> u8 list \<Rightarrow> nat \<Rightarrow> u8 \<Rightarrow> u32 \<Rightarrow> str list \<Rightarrow> (int \<times> hsearch_data) option" where
  "himport_r E h env sz sep flag vars =
     (if length env < sz then None
      else do {
        let ok = alloc E (allocs h);
        let h = h\<lparr>allocs := allocs h + 1\<rparr>;
        if \<not> ok then Some (0, h\<lparr>errno := ENOMEM\<rparr>)
        else do {
          let buf = take sz env;
          let h = (if flag AND H_NOCLEAR = 0 \<and> table h \<noteq> None then hdestroy_r h else h);
          let nent = min CONFIG_ENV_MAX_ENTRIES (CONFIG_ENV_MIN_ENTRIES + sz div 8);
          (ret, h) \<leftarrow> (if table h = None then hcreate_r E (of_nat nent) h else Some (1, h));
          if ret = 0 then Some (0, h)
          else do {
            (ok, vars, h) \<leftarrow> himport_loop E buf sep 0 flag (map Some vars) h;
            if \<not> ok then Some (0, h)
            else do {
              h \<leftarrow> himport_rest E vars flag h;
              Some (1, h)
            }
          }
        }
      })"

subsection \<open>Reading back an exported text\<close>

text \<open>
  The variables that survive: the name is not empty, has no \<open>=\<close>, NUL or separator and starts with neither a
  blank nor \<open>#\<close>; the value is not empty and has no NUL. The separator is NUL or some byte other than \<open>=\<close> and the backslash.
\<close>

definition key_ok :: "u8 \<Rightarrow> str \<Rightarrow> bool" where
  "key_ok sep k \<longleftrightarrow> k \<noteq> [] \<and> 0 \<notin> set k \<and> 61 \<notin> set k \<and> sep \<notin> set k \<and> \<not> isblank (hd k) \<and> hd k \<noteq> 35"

definition value_ok :: "str \<Rightarrow> bool" where
  "value_ok v \<longleftrightarrow> v \<noteq> [] \<and> 0 \<notin> set v"

definition sep_ok :: "u8 \<Rightarrow> bool" where
  "sep_ok sep \<longleftrightarrow> sep \<noteq> 61 \<and> sep \<noteq> 92"

lemma get_append: "arr_get (pre @ x # post) (length pre) = Some x"
  by (simp add: arr_get_def)

lemma parse_name_key:
  "0 \<notin> set k \<Longrightarrow> 61 \<notin> set k \<Longrightarrow> sep \<notin> set k \<Longrightarrow> parse_name (pre @ k @ 61 # post) sep (length pre) = Some (k, length pre + length k)"
proof (induction k arbitrary: pre)
  case Nil
  then show ?case by (subst parse_name.simps) (simp add: get_append)
next
  case (Cons c k)
  have "parse_name ((pre @ [c]) @ k @ 61 # post) sep (length (pre @ [c])) = Some (k, length (pre @ [c]) + length k)"
    using Cons by (intro Cons.IH) auto
  then show ?case using Cons.prems by (subst parse_name.simps) (auto simp: get_append)
qed

lemma parse_value_export:
  assumes "sep_ok sep"
  shows "0 \<notin> set v \<Longrightarrow> parse_value (pre @ export_value sep v @ sep # post) sep (length pre) =
      Some (v, length pre + length (export_value sep v))"
proof (induction v arbitrary: pre)
  case Nil
  then show ?case by (subst parse_value.simps) (simp add: get_append)
next
  case (Cons c v)
  show ?case
  proof (cases "c = sep \<or> c = 92")
    case True
    have "parse_value ((pre @ [92, c]) @ export_value sep v @ sep # post) sep (length (pre @ [92, c])) =
        Some (v, length (pre @ [92, c]) + length (export_value sep v))"
      using Cons by (intro Cons.IH) auto
    moreover have "arr_get (pre @ 92 # c # export_value sep v @ sep # post) (length pre + 1) = Some c"
      using get_append [of "pre @ [92]" c] by simp
    ultimately show ?thesis using True assms Cons.prems by (subst parse_value.simps) (auto simp: get_append sep_ok_def)
  next
    case False
    have "parse_value ((pre @ [c]) @ export_value sep v @ sep # post) sep (length (pre @ [c])) =
        Some (v, length (pre @ [c]) + length (export_value sep v))"
      using Cons by (intro Cons.IH) auto
    then show ?thesis using False Cons.prems by (subst parse_value.simps) (auto simp: get_append)
  qed
qed

lemma parse_item_export:
  assumes "sep_ok sep" "key_ok sep k" "value_ok v"
  shows "parse_item (pre @ export_entry sep (k, v) @ post) sep (length pre) =
      Some (Insert k v, length pre + length (export_entry sep (k, v)))"
proof -
  obtain c k' where k: "k = c # k'" using assms(2) by (cases k) (auto simp: key_ok_def)
  have "\<exists>d w. export_value sep v = d # w \<and> d \<noteq> 0 \<and> d \<noteq> sep"
    using assms(1,3) by (cases v) (auto simp: value_ok_def sep_ok_def)
  then obtain d w where w: "export_value sep v = d # w" "d \<noteq> 0" "d \<noteq> sep" by blast
  define b where "b = pre @ export_entry sep (k, v) @ post"
  have b1: "b = pre @ c # (k' @ 61 # export_value sep v @ sep # post)" by (simp add: b_def export_entry_def k)
  have b2: "b = pre @ k @ 61 # (export_value sep v @ sep # post)" by (simp add: b_def export_entry_def)
  have b3: "b = (pre @ k @ [61]) @ export_value sep v @ sep # post" by (simp add: b_def export_entry_def)
  have g: "arr_get b (length pre) = Some c" unfolding b1 by (rule get_append)
  have e: "arr_get b (length pre + length k) = Some 61" using get_append [of "pre @ k" 61] unfolding b2 by simp
  have f: "arr_get b (Suc (length pre + length k)) = Some d" using get_append [of "pre @ k @ [61]" d] unfolding b3 w by simp
  have sb: "skip_blank b (length pre) = Some (length pre)" using g assms(2) k by (subst skip_blank.simps) (simp add: key_ok_def)
  have nm: "parse_name b sep (length pre) = Some (k, length pre + length k)"
    unfolding b2 using assms(2) by (intro parse_name_key) (auto simp: key_ok_def)
  have pv: "parse_value b sep (Suc (length pre + length k)) = Some (v, Suc (length pre + length k) + length (export_value sep v))"
    using parse_value_export [OF assms(1), of v "pre @ k @ [61]" post] assms(3) unfolding b3 by (simp add: value_ok_def)
  have c: "c \<noteq> 35" using assms(2) k by (simp add: key_ok_def)
  have "parse_item b sep (length pre) = Some (Insert k v, length pre + length (export_entry sep (k, v)))"
    using g sb nm e f pv c w(2,3) assms(1) by (simp add: parse_item_def sep_ok_def export_entry_def)
  then show ?thesis by (simp add: b_def)
qed

lemma himport_loop_entries:
  assumes "sep_ok sep" "plain_hooks E"
  shows "es \<noteq> [] \<Longrightarrow> \<forall>(k, v) \<in> set es. key_ok sep k \<and> value_ok v \<Longrightarrow> distinct (map fst es) \<Longrightarrow>
    hinv h \<Longrightarrow> accepting E h flag \<Longrightarrow> no_tomb h \<Longrightarrow> \<forall>e \<in> set es. hmap h (fst e) = None \<Longrightarrow>
    card (dom (hmap h)) + length es \<le> unat (hsize h) \<Longrightarrow>
    \<exists>h'. himport_loop E (pre @ concat (map (export_entry sep) es) @ 0 # post) sep (length pre) flag [] h = Some (True, [], h') \<and>
      hinv h' \<and> hmap h' = hmap h ++ map_of (rev es)"
proof (induction es arbitrary: pre h)
  case Nil
  then show ?case by simp
next
  case (Cons e es)
  obtain k v where e: "e = (k, v)" by (cases e)
  define b where "b = pre @ concat (map (export_entry sep) (e # es)) @ 0 # post"
  define pre' where "pre' = pre @ export_entry sep e"
  have b: "b = pre @ export_entry sep (k, v) @ (concat (map (export_entry sep) es) @ 0 # post)"
    "b = pre' @ concat (map (export_entry sep) es) @ 0 # post" by (simp_all add: b_def e pre'_def)
  have ok: "key_ok sep k" "value_ok v" using Cons.prems(2) e by auto
  have it: "parse_item b sep (length pre) = Some (Insert k v, length pre')"
    unfolding b(1) using parse_item_export [OF assms(1) ok] by (simp add: pre'_def e)
  have none: "hmap h k = None" using Cons.prems(7) e by simp
  have room: "has_room h" using Cons.prems(4,6,8) by (intro no_tomb_has_room) auto
  define item where "item = \<lparr>key = Some k, data = Some v, callback = None, flags = 0\<rparr>"
  have "key item = Some k" "data item = Some v" by (simp_all add: item_def)
  from hsearch_ENTER [OF Cons.prems(4) assms(2) room this, of flag] Cons.prems(5,6) obtain r rv h1 where
    h1: "hsearch_r E item ENTER h flag = Some (r, rv, h1)" "hinv h1" "hmap h1 = (hmap h)(k \<mapsto> v)" "hsize h1 = hsize h"
      "accepting E h1 flag" "no_tomb h1" by auto
  have imp: "import_item E (Insert k v) flag [] h = Some (True, [], h1)"
    using ok h1(1) by (simp add: import_item_def key_ok_def drop_var_from_set_def item_def)
  have step: "himport_loop E b sep (length pre) flag [] h =
      (if length pre' < length b \<and> b ! length pre' \<noteq> 0 then himport_loop E b sep (length pre') flag [] h1 else Some (True, [], h1))"
    using it imp by (subst himport_loop.simps) simp
  have eq: "hmap h1 ++ map_of (rev es) = hmap h ++ map_of (rev (e # es))" unfolding h1(3) using e by (simp add: map_add_assoc [symmetric])
  show ?case
  proof (cases es)
    case Nil
    then have "b ! length pre' = 0" unfolding b(2) by simp
    then have run: "himport_loop E b sep (length pre) flag [] h = Some (True, [], h1)" using step by simp
    have "hmap h1 = hmap h ++ map_of (rev (e # es))" using eq by (simp only: Nil rev.simps(1) map_of.simps(1) map_add_empty)
    with run h1(2) show ?thesis unfolding b_def by (intro exI conjI)
  next
    case (Cons e2 es2)
    have k2: "fst e2 \<noteq> []" "0 \<notin> set (fst e2)" using Cons.prems(2) Cons by (auto simp: key_ok_def)
    then have "hd (fst e2) \<noteq> 0" by (metis hd_in_set)
    moreover have "b ! length pre' = hd (fst e2)" "length pre' < length b"
      using k2(1) Cons unfolding b(2) by (auto simp: export_entry_def nth_append hd_conv_nth)
    ultimately have step2: "himport_loop E b sep (length pre) flag [] h = himport_loop E b sep (length pre') flag [] h1" using step by simp
    have fresh: "\<forall>e \<in> set es. hmap h1 (fst e) = None"
      using Cons.prems(3,7) e h1(3) by (auto simp: image_iff) 
    have "card (dom (hmap h1)) \<le> card (dom (hmap h)) + 1" unfolding h1(3) by (simp add: card_insert_le_m1 card_insert_if)
    then have room: "card (dom (hmap h1)) + length es \<le> unat (hsize h1)" using Cons.prems(8) h1(4) by simp
    have es: "es \<noteq> []" "\<forall>(k, v) \<in> set es. key_ok sep k \<and> value_ok v" "distinct (map fst es)"
      using Cons Cons.prems(2,3) by simp_all
    obtain h' where "himport_loop E b sep (length pre') flag [] h1 = Some (True, [], h')" "hinv h'" "hmap h' = hmap h1 ++ map_of (rev es)"
      using Cons.IH [OF es h1(2,5,6) fresh room, of pre'] unfolding b(2) by blast
    then show ?thesis using step2 eq unfolding b_def by auto
  qed
qed

lemma hexport_write_spec:
  "length (concat (map (export_entry sep) es)) < m \<Longrightarrow>
   hexport_write sep es (pre @ replicate m 0) (length pre) =
     Some (pre @ concat (map (export_entry sep) es) @ replicate (m - length (concat (map (export_entry sep) es))) 0)"
proof (induction es arbitrary: pre m)
  case Nil
  then obtain m' where "m = Suc m'" by (cases m) auto
  then show ?case by simp
next
  case (Cons e es)
  let ?x = "export_entry sep e"
  have le: "length ?x \<le> m" using Cons.prems by simp
  have "arr_blit (pre @ replicate m 0) (length pre) ?x = Some ((pre @ ?x) @ replicate (m - length ?x) 0)"
    using le by (subst arr_blit_eq) auto
  moreover have "hexport_write sep es ((pre @ ?x) @ replicate (m - length ?x) 0) (length (pre @ ?x)) =
     Some ((pre @ ?x) @ concat (map (export_entry sep) es) @ replicate (m - length ?x - length (concat (map (export_entry sep) es))) 0)"
    using Cons.prems by (intro Cons.IH) simp
  ultimately show ?case by (simp add: diff_diff_eq)
qed

lemma hexport_write_fits:
  "hexport_write sep es res p = Some res' \<Longrightarrow> p + length (concat (map (export_entry sep) es)) < length res"
proof (induction es arbitrary: res p)
  case (Cons e es)
  then obtain r1 where r1: "arr_blit res p (export_entry sep e) = Some r1"
    "hexport_write sep es r1 (p + length (export_entry sep e)) = Some res'" by (auto simp: bind_eq_Some_conv)
  then show ?case using Cons.IH [OF r1(2)] arr_blit_length [OF r1(1)] by simp
qed auto

lemma hexport_scan_pairs:
  assumes "\<forall>j. i \<le> j \<and> j < i + n \<longrightarrow> j < length t \<and> (live (t ! j) \<longrightarrow> (\<exists>k d. key (entry (t ! j)) = Some k \<and> data (entry (t ! j)) = Some d))"
  shows "\<exists>tot. hexport_scan n i sep 0 [] t = Some (List.map_filter slot_pair (take n (drop i t)), tot)"
  using assms
proof (induction n arbitrary: i)
  case 0
  then show ?case by simp
next
  case (Suc n)
  have i: "i < length t" using Suc.prems by auto
  obtain tot where tot: "hexport_scan n (Suc i) sep 0 [] t = Some (List.map_filter slot_pair (take n (drop (Suc i) t)), tot)"
    using Suc.IH [of "Suc i"] Suc.prems by auto
  have d: "take (Suc n) (drop i t) = t ! i # take n (drop (Suc i) t)" using i by (simp add: Cons_nth_drop_Suc [symmetric])
  show ?case
  proof (cases "live (t ! i)")
    case True
    then obtain k d where "key (entry (t ! i)) = Some k" "data (entry (t ! i)) = Some d" using Suc.prems by auto
    moreover from this have "slot_pair (t ! i) = Some (k, d)" "0 < used (t ! i)" using True by (simp_all add: slot_pair_def live_def)
    ultimately show ?thesis using tot d i by simp
  next
    case False
    then have "slot_pair (t ! i) = None" "\<not> 0 < used (t ! i)" by (simp_all add: slot_pair_def live_def)
    then show ?thesis using tot d i by simp
  qed
qed

lemma map_filter_distinct:
  "(\<And>i j a b. i < j \<Longrightarrow> j < length xs \<Longrightarrow> f (xs ! i) = Some a \<Longrightarrow> f (xs ! j) = Some b \<Longrightarrow> fst a \<noteq> fst b) \<Longrightarrow>
   distinct (map fst (List.map_filter f xs))"
proof (induction xs)
  case (Cons x xs)
  have IH: "distinct (map fst (List.map_filter f xs))"
  proof (rule Cons.IH)
    fix i j a b assume "i < j" "j < length xs" "f (xs ! i) = Some a" "f (xs ! j) = Some b"
    then show "fst a \<noteq> fst b" using Cons.prems [of "Suc i" "Suc j" a b] by simp
  qed
  have "fst a \<notin> fst ` set (List.map_filter f xs)" if "f x = Some a" for a
  proof
    assume "fst a \<in> fst ` set (List.map_filter f xs)"
    then obtain b y where "fst b = fst a" "y \<in> set xs" "f y = Some b" by (auto simp: map_filter_def)
    then obtain j where "j < length xs" "f (xs ! j) = Some b" by (auto simp: in_set_conv_nth)
    then show False using Cons.prems [of 0 "Suc j" a b] that \<open>fst b = fst a\<close> by simp
  qed
  then show ?case using IH by (cases "f x") simp_all
qed simp

lemma table_pairs_distinct:
  assumes "table_inv n t"
  shows "distinct (map fst (List.map_filter slot_pair (tl t)))"
proof (rule map_filter_distinct)
  fix i j a b assume ij: "i < j" "j < length (tl t)" "slot_pair (tl t ! i) = Some a" "slot_pair (tl t ! j) = Some b"
  have len: "length t = n + 1" using assms by (simp add: table_inv_def)
  obtain k d k' d' where ab: "a = (k, d)" "b = (k', d')" by (cases a; cases b)
  have "slot_pair (t ! Suc i) = Some a" "slot_pair (t ! Suc j) = Some b" using ij by (simp_all add: nth_tl)
  then have "holds n t k (Suc i)" "holds n t k' (Suc j)"
    using slot_pair_holds [OF assms, of "Suc i"] slot_pair_holds [OF assms, of "Suc j"] ij len ab by auto
  then have "k \<noteq> k'" using assms ij unfolding table_inv_def by (metis less_irrefl nat.inject)
  then show "fst a \<noteq> fst b" using ab by simp
qed

text \<open>The text that an export without a filter leaves: the entries in some order, a NUL, and NULs to the end.\<close>

lemma hexport_text:
  assumes inv: "hinv h" and run: "hexport_r E h sep 0 resp sz [] = Some (r, Some env, h1)" "r \<noteq> -1"
    and resp: "resp = None \<or> (\<exists>res. resp = Some res \<and> length res = sz \<and> sz \<noteq> 0)"
  obtains es m where "env = concat (map (export_entry sep) es) @ 0 # replicate m 0" "distinct (map fst es)" "map_of es = hmap h"
    "r = int (length env)" "\<And>x. hmap (h1\<lparr>allocs := x\<rparr>) = hmap h"
proof -
  let ?n = "unat (hsize h)"
  obtain t where t: "table h = Some t" "table_inv ?n t" "hmap h = table_map t" using inv by (auto elim: hinvE)
  define ps where "ps = List.map_filter slot_pair (tl t)"
  define es where "es = qsort cmpkey ps"
  have len: "length t = ?n + 1" using t(2) by (simp add: table_inv_def)
  have "\<forall>j. 1 \<le> j \<and> j < 1 + ?n \<longrightarrow> j < length t \<and> (live (t ! j) \<longrightarrow> (\<exists>k d. key (entry (t ! j)) = Some k \<and> data (entry (t ! j)) = Some d))"
    using t(2) len unfolding table_inv_def holds_def by (metis add.commute less_Suc_eq_le plus_1_eq_Suc)
  from hexport_scan_pairs [OF this, of sep] obtain tot where
    scan: "hexport_scan ?n 1 sep 0 [] t = Some (ps, tot)" using len by (auto simp: ps_def drop_Suc)
  have d: "distinct (map fst ps)" unfolding ps_def by (rule table_pairs_distinct [OF t(2)])
  have ms: "mset es = mset ps" unfolding es_def by (rule qsort_mset)
  then have "mset (map fst es) = mset (map fst ps)" by simp
  then have d': "distinct (map fst es)" using d by (metis mset_eq_imp_distinct_iff)
  have "map_of es = map_of ps" using d d' ms by (intro iffD2 [OF map_of_inject_set]) (auto dest: mset_eq_setD)
  then have mo: "map_of es = hmap h" using t(3) by (simp add: ps_def table_map_def)
  define sz' where "sz' = (if sz \<noteq> 0 then sz else tot + 1)"
  have "hexport_write sep es (replicate sz' 0) 0 = Some env \<and> r = int sz' \<and> table h1 = table h"
  proof (cases resp)
    case None
    then show ?thesis using run scan t(1)
      by (auto simp: hexport_r_def bind_eq_Some_conv es_def sz'_def Let_def split: if_splits)
  next
    case (Some res)
    then have res: "length res = sz" "sz' = sz" using resp by (auto simp: sz'_def)
    then have "arr_blit res 0 (replicate sz 0) = Some (replicate sz 0)" using arr_blit_eq [of 0 "replicate sz 0" res] by simp
    then show ?thesis using run scan t(1) Some res
      by (auto simp: hexport_r_def bind_eq_Some_conv es_def sz'_def Let_def split: if_splits)
  qed
  then have w: "hexport_write sep es (replicate sz' 0) 0 = Some env" "r = int sz'" "table h1 = table h" by auto
  let ?c = "concat (map (export_entry sep) es)"
  have lt: "length ?c < sz'" using hexport_write_fits [OF w(1)] by simp
  then have env: "env = ?c @ replicate (sz' - length ?c) 0" using hexport_write_spec [OF lt, of "[]"] w(1) by simp
  obtain m where "sz' - length ?c = Suc m" using lt by (metis Suc_diff_Suc)
  then have "env = ?c @ 0 # replicate m 0" "length env = sz'" using env lt by auto
  then show ?thesis using that [of es m] d' mo w(2,3) by (simp add: hmap_def)
qed

lemma hexport_write_length: "hexport_write sep es res p = Some res' \<Longrightarrow> length res' = length res"
  by (induction es arbitrary: res p) (auto simp: bind_eq_Some_conv dest: arr_blit_length)

lemma hexport_length:
  assumes "hexport_r E h sep flag (Some res) sz argv = Some (r, Some env, h1)" "\<not> r < 0" "length res = n"
  shows "length env = n"
proof -
  have "\<exists>m es res1. arr_blit res 0 (replicate m 0) = Some res1 \<and> hexport_write sep es res1 0 = Some env"
  proof -
    obtain t es tot where t: "table h = Some t" "hexport_scan (unat (hsize h)) 1 sep flag argv t = Some (es, tot)"
      using assms(1) by (auto simp: hexport_r_def bind_eq_Some_conv)
    have "\<not> (sz \<noteq> 0 \<and> sz < tot + 1)" using assms(1,2) t by (auto simp: hexport_r_def)
    then have "\<exists>res1. arr_blit res 0 (replicate (if sz \<noteq> 0 then sz else tot + 1) 0) = Some res1 \<and>
        hexport_write sep (qsort cmpkey es) res1 0 = Some env"
      using assms(1) t unfolding hexport_r_def by (auto simp: bind_eq_Some_conv Let_def simp del: arr_blit.simps replicate_Suc)
    then show ?thesis by blast
  qed
  then obtain m es res1 where "arr_blit res 0 (replicate m 0) = Some res1" "hexport_write sep es res1 0 = Some env" by blast
  then show ?thesis using assms(3) arr_blit_length hexport_write_length by metis
qed

lemma isprime_521: "prime_nat 521"
proof -
  have "isprime 521 = Some True" by (simp add: isprime_def isprime_loop.simps)
  then show ?thesis using isprime_correct [of 521] by simp
qed

text \<open>The import of an exported text into a new table.\<close>

lemma himport_text:
  assumes sep: "sep_ok sep" and E: "plain_hooks E" and acc: "accepting E h flag" "flag AND 1 = 0"
    and es: "\<forall>(k, v) \<in> set es. key_ok sep k \<and> value_ok v" "distinct (map fst es)"
    and buf: "buf = concat (map (export_entry sep) es) @ 0 # replicate m 0"
    and room: "length es \<le> min 512 (64 + length buf div 8)"
  shows "\<exists>h'. himport_r E h buf (length buf) sep flag [] = Some (1, h') \<and> hinv h' \<and> hmap h' = map_of es"
proof -
  define h0 where "h0 = (let h = h\<lparr>allocs := allocs h + 1\<rparr> in if table h \<noteq> None then hdestroy_r h else h)"
  define nent :: nat where "nent = min 512 (64 + length buf div 8)"
  have h0: "table h0 = None" "change_ok h0 = change_ok h" by (auto simp: h0_def hdestroy_r_def Let_def)
  have un: "unat (of_nat nent :: u32) = nent" by (simp add: nent_def unsigned_of_nat take_bit_nat_eq_self)
  have nb: "64 \<le> nent" "nent \<le> 521" by (auto simp: nent_def)
  have al: "alloc E x" for x using E by (simp add: plain_hooks_def)
  obtain h1 where h1: "hcreate_r E (of_nat nent) h0 = Some (1, h1)" "hinv h1" "hmap h1 = Map.empty" "no_tomb h1"
      "nent \<le> unat (hsize h1)" "change_ok h1 = change_ok h0" "table h1 = Some (replicate (unat (hsize h1) + 1) empty_slot)"
    using hcreate_creates [OF h0(1), of "of_nat nent" 521 E] un nb isprime_521 al by auto
  have a1: "accepting E h1 flag"
    using acc(1) h0(2) h1(6) h1(7) by (auto simp: accepting_def change_rejected_def empty_slot_def simp del: replicate_Suc)
  have "\<exists>h'. himport_loop E buf sep 0 flag [] h1 = Some (True, [], h') \<and> hinv h' \<and> hmap h' = map_of es"
  proof (cases "es = []")
    case True
    have b: "buf = 0 # replicate m 0" using buf True by simp
    have g: "arr_get buf 0 = Some 0" by (simp add: b)
    have "isblank 0 = False" by (simp add: isblank_def)
    then have "parse_item buf sep 0 = Some (Delete [], 1)"
      using g by (simp add: parse_item_def) (subst skip_blank.simps, simp, subst parse_name.simps, simp)
    moreover have "hdelete_r E [] h1 flag = Some (0, h1\<lparr>errno := 3\<rparr>)"
      using hsearch_FIND [OF h1(2) _ h1(7), of "key_item []" "[]" E 0] h1(3) by (simp add: hdelete_r_def key_item_def)
    ultimately have "himport_loop E buf sep 0 flag [] h1 = Some (True, [], h1\<lparr>errno := 3\<rparr>)"
      by (subst himport_loop.simps) (auto simp: import_item_def drop_var_from_set_def b nth_Cons')
    moreover have "hinv (h1\<lparr>errno := 3\<rparr>)" "hmap (h1\<lparr>errno := 3\<rparr>) = Map.empty" using h1(2,3) by (auto simp: hinv_def hmap_def)
    ultimately show ?thesis using True by simp
  next
    case False
    have "card (dom (hmap h1)) + length es \<le> unat (hsize h1)" using h1(3,5) room [folded nent_def] by simp
    with himport_loop_entries [OF sep E False es h1(2) a1 h1(4), of "[]" "replicate m 0"] obtain h' where
      "himport_loop E buf sep 0 flag [] h1 = Some (True, [], h')" "hinv h'" "hmap h' = map_of (rev es)"
      using h1(3) buf by auto
    moreover have "map_of (rev es) = map_of es" using es(2) by (intro iffD2 [OF map_of_inject_set]) (auto simp: rev_map [symmetric])
    ultimately show ?thesis by simp
  qed
  then obtain h' where h': "himport_loop E buf sep 0 flag [] h1 = Some (True, [], h')" "hinv h'" "hmap h' = map_of es" by blast
  have start: "(let h = h\<lparr>allocs := allocs h + 1\<rparr> in if flag AND 1 = 0 \<and> table h \<noteq> None then hdestroy_r h else h) = h0"
    using acc(2) by (simp add: h0_def)
  have "himport_r E h buf (length buf) sep flag [] = Some (1, h')"
    using start al h1(1) h'(1) h0(1) unfolding himport_r_def nent_def [symmetric] by (simp add: Let_def)
  then show ?thesis using h' by blast
qed

subsection \<open>The first pass counts enough\<close>

lemma export_value_room: "length (export_value sep v) = value_room sep v"
  by (induction v) auto

lemma hexport_scan_room:
  "hexport_scan n i sep flag argv t = Some (es, tot) \<Longrightarrow> sep \<noteq> 0 \<Longrightarrow> length (concat (map (export_entry sep) es)) \<le> tot"
proof (induction n arbitrary: i es tot)
  case (Suc n)
  show ?case using Suc.prems Suc.IH [of "Suc i"]
    by (auto simp: bind_eq_Some_conv Let_def export_entry_def export_value_room split: if_splits)
qed simp

lemma hexport_scan_total:
  assumes "\<forall>j. i \<le> j \<and> j < i + n \<longrightarrow> j < length t \<and> (live (t ! j) \<longrightarrow> (\<exists>k d. key (entry (t ! j)) = Some k \<and> data (entry (t ! j)) = Some d))"
  shows "\<exists>es tot. hexport_scan n i sep flag argv t = Some (es, tot)"
  using assms
proof (induction n arbitrary: i)
  case (Suc n)
  have i: "i < length t" using Suc.prems by auto
  obtain es tot where tot: "hexport_scan n (Suc i) sep flag argv t = Some (es, tot)"
    using Suc.IH [of "Suc i"] Suc.prems by auto
  show ?case
  proof (cases "live (t ! i)")
    case True
    then obtain k d where "key (entry (t ! i)) = Some k" "data (entry (t ! i)) = Some d" using Suc.prems by auto
    then show ?thesis using tot i True by (auto simp: live_def)
  next
    case False
    then show ?thesis using tot i by (auto simp: live_def)
  qed
qed simp

lemma length_text_mset: "mset es = mset ps \<Longrightarrow> length (concat (map (export_entry sep) es)) = length (concat (map (export_entry sep) ps))"
  by (simp add: length_concat comp_def flip: sum_mset_sum_list)

lemma hexport_write_ok:
  "p + length (concat (map (export_entry sep) es)) < length res \<Longrightarrow> \<exists>res'. hexport_write sep es res p = Some res'"
proof (induction es arbitrary: res p)
  case (Cons e es)
  have le: "p + length (export_entry sep e) \<le> length res" using Cons.prems by simp
  note b = arr_blit_eq [OF le]
  show ?case using b Cons.IH [of "p + length (export_entry sep e)"] arr_blit_length [OF b] Cons.prems by simp
qed simp

lemma card_dom_map_of: "distinct (map fst es) \<Longrightarrow> card (dom (map_of es)) = length es"
  by (metis distinct_card dom_map_of_conv_image_fst length_map list.set_map)

subsection \<open>The correctness of the text form\<close>


lemma ex_export:
  "\<exists>h1. hexport_r ex_hooks ex_table 10 0 None 0 [] = Some (7, Some [97, 61, 98, 10, 0, 0, 0], h1)"
proof -
  have "(case hexport_r ex_hooks ex_table 10 0 None 0 [] of
      Some (r, Some env, h1) \<Rightarrow> r = 7 \<and> env = [97, 61, 98, 10, 0, 0, 0] | _ \<Rightarrow> False)" by code_simp
  then show ?thesis by (auto split: option.splits)
qed


text \<open>
  C35. With a separator other than NUL an export never writes outside its buffer, whatever it filters: a buffer of
  the requested size, or the allocated one, is large enough for the escaped text or is refused.
\<close>

theorem hexport_in_bounds:
  assumes "hinv h" "sep \<noteq> 0" "resp = None \<or> (\<exists>res. resp = Some res \<and> sz \<noteq> 0 \<and> sz \<le> length res)"
  shows "\<exists>r env h1. hexport_r E h sep flag resp sz argv = Some (r, env, h1)"
proof -
  let ?n = "unat (hsize h)"
  obtain t where t: "table h = Some t" "table_inv ?n t" using assms(1) by (auto elim: hinvE)
  have "\<forall>j. 1 \<le> j \<and> j < 1 + ?n \<longrightarrow> j < length t \<and> (live (t ! j) \<longrightarrow> (\<exists>k d. key (entry (t ! j)) = Some k \<and> data (entry (t ! j)) = Some d))"
    using t(2) unfolding table_inv_def holds_def by (metis add.commute less_Suc_eq_le plus_1_eq_Suc)
  from hexport_scan_total [OF this] obtain ps tot where scan: "hexport_scan ?n 1 sep flag argv t = Some (ps, tot)" by blast
  define es where "es = qsort cmpkey ps"
  have le: "length (concat (map (export_entry sep) es)) \<le> tot"
    using hexport_scan_room [OF scan assms(2)] length_text_mset [OF qsort_mset] by (simp add: es_def)
  have w: "\<exists>res'. hexport_write sep es res 0 = Some res'" if "tot < length res" for res
    using that le by (intro hexport_write_ok) simp
  show ?thesis
  proof (cases resp)
    case None
    then show ?thesis using t(1) scan w [of "replicate (if sz \<noteq> 0 then sz else tot + 1) 0"]
      by (auto simp: hexport_r_def Let_def es_def [symmetric] not_less simp del: replicate_Suc)
  next
    case (Some res)
    then have sz: "sz \<noteq> 0" "sz \<le> length res" using assms(3) by auto
    define res0 where "res0 = replicate sz 0 @ drop sz res"
    have b: "arr_blit res 0 (replicate sz 0) = Some res0" using arr_blit_eq [of 0 "replicate sz 0" res] sz by (simp add: res0_def)
    then show ?thesis using t(1) scan w [of res0] Some sz
      by (auto simp: hexport_r_def Let_def es_def [symmetric] not_less res0_def)
  qed
qed

theorem hexport_in_bounds_witness:
  "\<exists>r env h1. hexport_r ex_hooks ex_table 10 0x10 None 0 [[97]] = Some (r, env, h1)"
  by (rule hexport_in_bounds [OF ex_table_inv(1)]) simp_all

text \<open>
  With NUL as the separator the first pass does not count the backslashes that the second pass adds: three of them in one value
  are enough to write behind the allocated buffer.
\<close>

definition ex_slashes :: hsearch_data where
  "ex_slashes = ex_empty\<lparr>table := Some [empty_slot, empty_slot, empty_slot, \<lparr>used = 3, entry = ex_item [97] [92, 92, 92]\<rparr>, empty_slot, empty_slot], filled := 1\<rparr>"

lemma hexport_overruns: "Option.is_none (hexport_r ex_hooks ex_slashes 0 0 None 0 [])"
  by code_simp

end
