(* ===== verification/Crc32.thy ===== *)
theory Crc32
  imports Xor_Table Crc_Code
begin

unbundle bit_operations_syntax

text \<open>
  The CRC-32 of the environment and of images, \<^verbatim>\<open>lib/crc32.c\<close>, on this little-endian board without
  watchdog. The table, the code that makes it, the computation with its byte-wise start, word-wise middle
  and byte-wise rest, and the interface functions. A buffer is the list of its bytes with its address; a read outside it has no
  result. The lemmas relate the table to the bit-serial division and the word-wise loop to the byte-wise one.
\<close>

definition crc_table :: "u32 list" where
  "crc_table = [
    0x00000000, 0x77073096, 0xee0e612c, 0x990951ba, 0x076dc419, 0x706af48f, 0xe963a535, 0x9e6495a3,
    0x0edb8832, 0x79dcb8a4, 0xe0d5e91e, 0x97d2d988, 0x09b64c2b, 0x7eb17cbd, 0xe7b82d07, 0x90bf1d91,
    0x1db71064, 0x6ab020f2, 0xf3b97148, 0x84be41de, 0x1adad47d, 0x6ddde4eb, 0xf4d4b551, 0x83d385c7,
    0x136c9856, 0x646ba8c0, 0xfd62f97a, 0x8a65c9ec, 0x14015c4f, 0x63066cd9, 0xfa0f3d63, 0x8d080df5,
    0x3b6e20c8, 0x4c69105e, 0xd56041e4, 0xa2677172, 0x3c03e4d1, 0x4b04d447, 0xd20d85fd, 0xa50ab56b,
    0x35b5a8fa, 0x42b2986c, 0xdbbbc9d6, 0xacbcf940, 0x32d86ce3, 0x45df5c75, 0xdcd60dcf, 0xabd13d59,
    0x26d930ac, 0x51de003a, 0xc8d75180, 0xbfd06116, 0x21b4f4b5, 0x56b3c423, 0xcfba9599, 0xb8bda50f,
    0x2802b89e, 0x5f058808, 0xc60cd9b2, 0xb10be924, 0x2f6f7c87, 0x58684c11, 0xc1611dab, 0xb6662d3d,
    0x76dc4190, 0x01db7106, 0x98d220bc, 0xefd5102a, 0x71b18589, 0x06b6b51f, 0x9fbfe4a5, 0xe8b8d433,
    0x7807c9a2, 0x0f00f934, 0x9609a88e, 0xe10e9818, 0x7f6a0dbb, 0x086d3d2d, 0x91646c97, 0xe6635c01,
    0x6b6b51f4, 0x1c6c6162, 0x856530d8, 0xf262004e, 0x6c0695ed, 0x1b01a57b, 0x8208f4c1, 0xf50fc457,
    0x65b0d9c6, 0x12b7e950, 0x8bbeb8ea, 0xfcb9887c, 0x62dd1ddf, 0x15da2d49, 0x8cd37cf3, 0xfbd44c65,
    0x4db26158, 0x3ab551ce, 0xa3bc0074, 0xd4bb30e2, 0x4adfa541, 0x3dd895d7, 0xa4d1c46d, 0xd3d6f4fb,
    0x4369e96a, 0x346ed9fc, 0xad678846, 0xda60b8d0, 0x44042d73, 0x33031de5, 0xaa0a4c5f, 0xdd0d7cc9,
    0x5005713c, 0x270241aa, 0xbe0b1010, 0xc90c2086, 0x5768b525, 0x206f85b3, 0xb966d409, 0xce61e49f,
    0x5edef90e, 0x29d9c998, 0xb0d09822, 0xc7d7a8b4, 0x59b33d17, 0x2eb40d81, 0xb7bd5c3b, 0xc0ba6cad,
    0xedb88320, 0x9abfb3b6, 0x03b6e20c, 0x74b1d29a, 0xead54739, 0x9dd277af, 0x04db2615, 0x73dc1683,
    0xe3630b12, 0x94643b84, 0x0d6d6a3e, 0x7a6a5aa8, 0xe40ecf0b, 0x9309ff9d, 0x0a00ae27, 0x7d079eb1,
    0xf00f9344, 0x8708a3d2, 0x1e01f268, 0x6906c2fe, 0xf762575d, 0x806567cb, 0x196c3671, 0x6e6b06e7,
    0xfed41b76, 0x89d32be0, 0x10da7a5a, 0x67dd4acc, 0xf9b9df6f, 0x8ebeeff9, 0x17b7be43, 0x60b08ed5,
    0xd6d6a3e8, 0xa1d1937e, 0x38d8c2c4, 0x4fdff252, 0xd1bb67f1, 0xa6bc5767, 0x3fb506dd, 0x48b2364b,
    0xd80d2bda, 0xaf0a1b4c, 0x36034af6, 0x41047a60, 0xdf60efc3, 0xa867df55, 0x316e8eef, 0x4669be79,
    0xcb61b38c, 0xbc66831a, 0x256fd2a0, 0x5268e236, 0xcc0c7795, 0xbb0b4703, 0x220216b9, 0x5505262f,
    0xc5ba3bbe, 0xb2bd0b28, 0x2bb45a92, 0x5cb36a04, 0xc2d7ffa7, 0xb5d0cf31, 0x2cd99e8b, 0x5bdeae1d,
    0x9b64c2b0, 0xec63f226, 0x756aa39c, 0x026d930a, 0x9c0906a9, 0xeb0e363f, 0x72076785, 0x05005713,
    0x95bf4a82, 0xe2b87a14, 0x7bb12bae, 0x0cb61b38, 0x92d28e9b, 0xe5d5be0d, 0x7cdcefb7, 0x0bdbdf21,
    0x86d3d2d4, 0xf1d4e242, 0x68ddb3f8, 0x1fda836e, 0x81be16cd, 0xf6b9265b, 0x6fb077e1, 0x18b74777,
    0x88085ae6, 0xff0f6a70, 0x66063bca, 0x11010b5c, 0x8f659eff, 0xf862ae69, 0x616bffd3, 0x166ccf45,
    0xa00ae278, 0xd70dd2ee, 0x4e048354, 0x3903b3c2, 0xa7672661, 0xd06016f7, 0x4969474d, 0x3e6e77db,
    0xaed16a4a, 0xd9d65adc, 0x40df0b66, 0x37d83bf0, 0xa9bcae53, 0xdebb9ec5, 0x47b2cf7f, 0x30b5ffe9,
    0xbdbdf21c, 0xcabac28a, 0x53b39330, 0x24b4a3a6, 0xbad03605, 0xcdd70693, 0x54de5729, 0x23d967bf,
    0xb3667a2e, 0xc4614ab8, 0x5d681b02, 0x2a6f2b94, 0xb40bbe37, 0xc30c8ea1, 0x5a05df1b, 0x2d02ef8d
  ]"

text \<open>The optional code that computes the table.\<close>

definition crc_poly :: u32 where
  "crc_poly = foldl (\<lambda>poly p. poly OR push_bit (31 - p) 1) 0 [0,1,2,4,5,7,8,10,11,12,16,22,23,26]"

fun crc_entry :: "nat \<Rightarrow> u32 \<Rightarrow> u32" where
  "crc_entry 0 c = c"
| "crc_entry (Suc k) c = crc_entry k (if c AND 1 \<noteq> 0 then crc_poly XOR drop_bit 1 c else drop_bit 1 c)"

definition make_crc_table :: "u32 list" where
  "make_crc_table = map (\<lambda>n. crc_entry 8 (of_nat n)) [0..<256]"

definition DO_CRC :: "u32 \<Rightarrow> u32 \<Rightarrow> u32 option" where
  "DO_CRC x crc = do {
     t \<leftarrow> arr_get crc_table (unat ((crc XOR x) AND 255));
     Some (t XOR drop_bit 8 crc)
   }"

text \<open>The bytes up to an aligned address: the register, the remaining length and the position.\<close>

fun crc_align :: "nat \<Rightarrow> u32 \<Rightarrow> u8 list \<Rightarrow> nat \<Rightarrow> u32 \<Rightarrow> (u32 \<times> nat \<times> nat) option" where
  "crc_align 0 addr buf i crc = Some (crc, 0, i)"
| "crc_align (Suc len) addr buf i crc = do {
     b \<leftarrow> arr_get buf i;
     crc \<leftarrow> DO_CRC (ucast b) crc;
     if len \<noteq> 0 \<and> (addr + of_nat (i + 1)) AND 3 \<noteq> 0 then crc_align len addr buf (i + 1) crc
     else Some (crc, len, i + 1)
   }"

definition load32 :: "u8 list \<Rightarrow> nat \<Rightarrow> u32 option" where
  "load32 buf i = do {
     b0 \<leftarrow> arr_get buf i;
     b1 \<leftarrow> arr_get buf (i + 1);
     b2 \<leftarrow> arr_get buf (i + 2);
     b3 \<leftarrow> arr_get buf (i + 3);
     Some (ucast b0 OR push_bit 8 (ucast b1) OR push_bit 16 (ucast b2) OR push_bit 24 (ucast b3))
   }"

fun crc_words :: "nat \<Rightarrow> u8 list \<Rightarrow> nat \<Rightarrow> u32 \<Rightarrow> (u32 \<times> nat) option" where
  "crc_words 0 buf i crc = Some (crc, i)"
| "crc_words (Suc len) buf i crc = do {
     w \<leftarrow> load32 buf i;
     crc \<leftarrow> DO_CRC 0 (crc XOR w);
     crc \<leftarrow> DO_CRC 0 crc;
     crc \<leftarrow> DO_CRC 0 crc;
     crc \<leftarrow> DO_CRC 0 crc;
     crc_words len buf (i + 4) crc
   }"

fun crc_rest :: "nat \<Rightarrow> u8 list \<Rightarrow> nat \<Rightarrow> u32 \<Rightarrow> u32 option" where
  "crc_rest 0 buf i crc = Some crc"
| "crc_rest (Suc len) buf i crc = do {
     b \<leftarrow> arr_get buf i;
     crc \<leftarrow> DO_CRC (ucast b) crc;
     crc_rest len buf (i + 1) crc
   }"

definition crc32_no_comp :: "u32 \<Rightarrow> u32 \<Rightarrow> u8 list \<Rightarrow> u32 \<Rightarrow> u32 option" where
  "crc32_no_comp crc addr buf len = do {
     (crc, len, i) \<leftarrow> (if addr AND 3 \<noteq> 0 \<and> len \<noteq> 0 then crc_align (unat len) addr buf 0 crc
                       else Some (crc, unat len, 0));
     let rem_len = len mod 4;
     (crc, i) \<leftarrow> crc_words (len div 4) buf i crc;
     crc_rest rem_len buf i crc
   }"

definition crc32 :: "u32 \<Rightarrow> u32 \<Rightarrow> u8 list \<Rightarrow> u32 \<Rightarrow> u32 option" where
  "crc32 crc addr p len = do {
     r \<leftarrow> crc32_no_comp (crc XOR 0xffffffff) addr p len;
     Some (r XOR 0xffffffff)
   }"

definition crc32_wd :: "u32 \<Rightarrow> u32 \<Rightarrow> u8 list \<Rightarrow> u32 \<Rightarrow> u32 \<Rightarrow> u32 option" where
  "crc32_wd crc addr buf len chunk_sz = crc32 crc addr buf len"

text \<open>The four bytes written to the output: \<open>htonl\<close> puts the highest one first.\<close>

definition crc32_wd_buf :: "u32 \<Rightarrow> u8 list \<Rightarrow> u32 \<Rightarrow> u32 \<Rightarrow> u8 list option" where
  "crc32_wd_buf addr input ilen chunk_sz = do {
     crc \<leftarrow> crc32_wd 0 addr input ilen chunk_sz;
     Some [ucast (drop_bit 24 crc), ucast (drop_bit 16 crc), ucast (drop_bit 8 crc), ucast crc]
   }"

subsection \<open>The bit-serial code\<close>

text \<open>Division by the polynomial one bit at a time, lowest bit first, and a byte of it.\<close>

definition crc32_bit :: "u32 \<Rightarrow> u32" where
  "crc32_bit c = (if bit c 0 then 0xedb88320 XOR drop_bit 1 c else drop_bit 1 c)"

definition crc32_ref :: "u32 \<Rightarrow> u8 \<Rightarrow> u32" where
  "crc32_ref c b = (crc32_bit ^^ 8) (c XOR ucast b)"

lemma crc_poly_eq: "crc_poly = 0xedb88320"
  by (simp add: crc_poly_def)

lemma crc_entry_bits: "crc_entry k c = (crc32_bit ^^ k) c"
proof (induction k arbitrary: c)
  case (Suc k)
  have "c AND 1 \<noteq> 0 \<longleftrightarrow> bit c 0" by (simp add: and_one_eq bit_0 mod_2_eq_odd)
  then have "crc_entry (Suc k) c = crc_entry k (crc32_bit c)" by (simp add: crc32_bit_def crc_poly_eq)
  then show ?case using Suc by (simp only: funpow_Suc_right o_apply)
qed simp

lemma crc32_bit_xor: "crc32_bit (a XOR b) = crc32_bit a XOR crc32_bit b"
  by (rule bit_word_eqI) (auto simp: crc32_bit_def bit_simps)

lemma crc32_bits_xor: "(crc32_bit ^^ k) (a XOR b) = (crc32_bit ^^ k) a XOR (crc32_bit ^^ k) b"
  by (induction k) (simp_all add: crc32_bit_xor)

lemma crc32_bits_0: "(crc32_bit ^^ k) 0 = 0"
  by (induction k) (simp_all add: crc32_bit_def)

definition crc_basis :: "u32 list" where
  "crc_basis = [0xedb88320, 0x76dc4190, 0x3b6e20c8, 0x1db71064, 0x0edb8832, 0x076dc419, 0xee0e612c, 0x77073096]"

lemma crc_table_span: "crc_table = span crc_basis"
  by (simp add: crc_table_def crc_basis_def)

lemma crc_basis_bits: "crc_basis = map (\<lambda>k. (crc32_bit ^^ 8) (2 ^ k)) (rev [0..<8])"
  by code_simp

lemma crc_table_length [simp]: "length crc_table = 256"
  by (simp add: crc_table_span crc_basis_def del: span.simps)

lemma crc_table_nth: "n < 256 \<Longrightarrow> crc_table ! n = (crc32_bit ^^ 8) (of_nat n)"
  using linear_comb [of "crc32_bit ^^ 8" n 8] span_nth [of n crc_basis]
  by (simp add: crc_table_span crc_basis_bits crc32_bits_xor crc32_bits_0 del: span.simps comb.simps)

lemma crc_table_made: "crc_table = make_crc_table"
  by (rule nth_equalityI) (simp_all add: make_crc_table_def crc_entry_bits crc_table_nth)

text \<open>A value below the feedback is only shifted.\<close>

lemma crc32_bits_push:
  "(\<And>n. bit y n \<Longrightarrow> n + k < 32) \<Longrightarrow> (crc32_bit ^^ k) (push_bit k y) = y"
proof (induction k)
  case (Suc k)
  have "\<not> bit (push_bit (Suc k) y) 0" unfolding bit_push_bit_iff by simp
  then have "crc32_bit (push_bit (Suc k) y) = drop_bit 1 (push_bit (Suc k) y)" by (simp only: crc32_bit_def if_False)
  also have "\<dots> = push_bit k y"
  proof (rule bit_word_eqI)
    fix n
    show "bit (drop_bit 1 (push_bit (Suc k) y)) n = bit (push_bit k y) n"
      unfolding bit_drop_bit_eq o_apply bit_push_bit_iff using Suc.prems [of "n - k"] by auto
  qed
  finally have "crc32_bit (push_bit (Suc k) y) = push_bit k y" .
  moreover have "(crc32_bit ^^ k) (push_bit k y) = y" using Suc by fastforce
  ultimately show ?case by (simp only: funpow_Suc_right o_apply)
qed simp

lemma crc_step: "(crc32_bit ^^ 8) c = crc_table ! unat (c AND 255) XOR drop_bit 8 c"
proof -
  have "c = (c AND 255) XOR push_bit 8 (drop_bit 8 c)"
  proof (rule bit_word_eqI)
    fix n
    have m: "(255 :: u32) = mask 8" by (simp add: mask_eq_exp_minus_1)
    show "bit c n = bit ((c AND 255) XOR push_bit 8 (drop_bit 8 c)) n"
      unfolding m bit_xor_iff bit_and_iff bit_mask_iff bit_push_bit_iff bit_drop_bit_eq o_apply
      using bit_imp_le_length [of c n] by auto
  qed
  then have "(crc32_bit ^^ 8) c = (crc32_bit ^^ 8) (c AND 255) XOR (crc32_bit ^^ 8) (push_bit 8 (drop_bit 8 c))"
    by (metis crc32_bits_xor)
  moreover have "(crc32_bit ^^ 8) (push_bit 8 (drop_bit 8 c)) = drop_bit 8 c"
    by (rule crc32_bits_push) (auto simp: bit_drop_bit_eq dest: bit_imp_le_length)
  moreover have "unat (c AND 255) < 256" using unat_and_mask_mod [of c 8] by (simp add: mask_eq_exp_minus_1)
  ultimately show ?thesis by (simp add: crc_table_nth)
qed

lemma DO_CRC_bits: "DO_CRC x crc = Some ((crc32_bit ^^ 8) (crc XOR x))" if "drop_bit 8 x = 0"
proof -
  have "unat ((crc XOR x) AND 255) < 256"
    using unat_and_mask_mod [of "crc XOR x" 8] by (simp add: mask_eq_exp_minus_1)
  moreover have "drop_bit 8 (crc XOR x) = drop_bit 8 crc" using that by (simp add: drop_bit_xor)
  ultimately show ?thesis by (simp add: DO_CRC_def crc_step [of "crc XOR x"])
qed

lemma DO_CRC_byte: "DO_CRC (ucast b) crc = Some (crc32_ref crc b)"
proof -
  have "drop_bit 8 (ucast b :: u32) = 0" by (rule bit_word_eqI) (auto simp: bit_simps)
  then show ?thesis by (simp add: DO_CRC_bits crc32_ref_def)
qed

text \<open>The word-wise loop: the later bytes wait in the higher bits of the register.\<close>

lemma crc32_bits_waiting:
  assumes "\<And>n. bit y n \<Longrightarrow> n < 24"
  shows "(crc32_bit ^^ 8) (c XOR push_bit 8 y) = (crc32_bit ^^ 8) c XOR y"
  using crc32_bits_push [of y 8] assms by (fastforce simp: crc32_bits_xor)

lemma crc_word_bytes:
  fixes b0 b1 b2 b3 :: u8
  defines "w \<equiv> ucast b0 OR push_bit 8 (ucast b1) OR push_bit 16 (ucast b2) OR push_bit 24 (ucast b3) :: u32"
  shows "do { crc \<leftarrow> DO_CRC 0 (crc XOR w); crc \<leftarrow> DO_CRC 0 crc; crc \<leftarrow> DO_CRC 0 crc; DO_CRC 0 crc } =
    Some (foldl crc32_ref crc [b0, b1, b2, b3])"
proof -
  let ?f = "crc32_bit ^^ 8"
  let ?y1 = "ucast b1 OR push_bit 8 (ucast b2) OR push_bit 16 (ucast b3) :: u32"
  let ?y2 = "ucast b2 OR push_bit 8 (ucast b3) :: u32"
  have w: "w = ucast b0 XOR push_bit 8 ?y1" "?y1 = ucast b1 XOR push_bit 8 ?y2" "?y2 = ucast b2 XOR push_bit 8 (ucast b3)"
    unfolding w_def by (rule bit_word_eqI, auto simp: bit_simps)+
  have lt: "n < 24" if "bit ?y1 n" for n using that by (auto simp: bit_simps dest: bit_imp_le_length)
  have lt2: "n < 24" if "bit ?y2 n" for n using that by (auto simp: bit_simps dest: bit_imp_le_length)
  have lt3: "n < 24" if "bit (ucast b3 :: u32) n" for n using that by (auto simp: bit_simps dest: bit_imp_le_length)
  have "crc XOR w = (crc XOR ucast b0) XOR push_bit 8 ?y1" by (simp only: w(1) xor.assoc)
  then have "?f (crc XOR w) = crc32_ref crc b0 XOR ?y1"
    by (simp only: crc32_bits_waiting [of ?y1, OF lt] crc32_ref_def)
  moreover have "c XOR ?y1 = (c XOR ucast b1) XOR push_bit 8 ?y2" for c by (subst w(2)) (simp only: xor.assoc)
  then have "?f (c XOR ?y1) = crc32_ref c b1 XOR ?y2" for c
    by (simp only: crc32_bits_waiting [of ?y2, OF lt2] crc32_ref_def)
  moreover have "c XOR ?y2 = (c XOR ucast b2) XOR push_bit 8 (ucast b3)" for c by (subst w(3)) (simp only: xor.assoc)
  then have "?f (c XOR ?y2) = crc32_ref c b2 XOR ucast b3" for c
    by (simp only: crc32_bits_waiting [of "ucast b3", OF lt3] crc32_ref_def)
  moreover have "?f (c XOR ucast b3) = crc32_ref c b3" for c by (simp only: crc32_ref_def)
  ultimately show ?thesis
    by (simp only: DO_CRC_bits [of 0, simplified] Option.bind.bind_lunit foldl.simps)
qed

lemma crc_align_spec:
  "i + len \<le> length buf \<Longrightarrow> \<exists>n \<le> len. crc_align len addr buf i crc =
     Some (foldl crc32_ref crc (take n (drop i buf)), len - n, i + n)"
proof (induction len arbitrary: i crc)
  case 0
  then show ?case by simp
next
  case (Suc len)
  have i: "i < length buf" using Suc.prems by simp
  let ?crc = "crc32_ref crc (buf ! i)"
  show ?case
  proof (cases "len \<noteq> 0 \<and> (addr + of_nat (i + 1)) AND 3 \<noteq> 0")
    case True
    from Suc.IH [of "i + 1" ?crc] Suc.prems obtain n where
      n: "n \<le> len" "crc_align len addr buf (i + 1) ?crc =
        Some (foldl crc32_ref ?crc (take n (drop (i + 1) buf)), len - n, i + 1 + n)" by auto
    have "take (Suc n) (drop i buf) = buf ! i # take n (drop (i + 1) buf)" using i by (simp add: Cons_nth_drop_Suc [symmetric])
    then show ?thesis using True n i by (intro exI [of _ "Suc n"]) (simp add: DO_CRC_byte)
  next
    case False
    have "take 1 (drop i buf) = [buf ! i]" using i by (simp add: Cons_nth_drop_Suc [symmetric])
    moreover have "crc_align (Suc len) addr buf i crc = Some (?crc, len, i + 1)"
      using i by (simp only: crc_align.simps arr_get_in DO_CRC_byte Option.bind.bind_lunit False if_False)
    ultimately show ?thesis by (intro exI [of _ 1]) simp
  qed
qed

lemma load32_bytes: "i + 4 \<le> length buf \<Longrightarrow> load32 buf i = Some (ucast (buf ! i) OR push_bit 8 (ucast (buf ! (i + 1))) OR
    push_bit 16 (ucast (buf ! (i + 2))) OR push_bit 24 (ucast (buf ! (i + 3))))"
  by (simp add: load32_def)

lemma take_4: "i + 4 \<le> length buf \<Longrightarrow> take 4 (drop i buf) = [buf ! i, buf ! (i + 1), buf ! (i + 2), buf ! (i + 3)]"
  by (rule nth_equalityI) (auto simp: nth_Cons numeral_eq_Suc less_Suc_eq split: nat.splits)

lemma crc_words_spec:
  "i + 4 * n \<le> length buf \<Longrightarrow>
   crc_words n buf i crc = Some (foldl crc32_ref crc (take (4 * n) (drop i buf)), i + 4 * n)"
proof (induction n arbitrary: i crc)
  case (Suc n)
  have len: "i + 4 \<le> length buf" using Suc.prems by simp
  let ?crc = "foldl crc32_ref crc [buf ! i, buf ! (i + 1), buf ! (i + 2), buf ! (i + 3)]"
  have "crc_words (Suc n) buf i crc = crc_words n buf (i + 4) ?crc"
    using crc_word_bytes [of crc "buf ! i" "buf ! (i + 1)" "buf ! (i + 2)" "buf ! (i + 3)"]
    by (simp only: crc_words.simps load32_bytes [OF len] Option.bind.bind_lunit DO_CRC_bits [of 0, simplified] option.inject)
  moreover have "take (4 * Suc n) (drop i buf) = take 4 (drop i buf) @ take (4 * n) (drop (i + 4) buf)"
    by (metis add.commute drop_drop mult_Suc_right take_add)
  ultimately show ?case using Suc take_4 [OF len] by (simp add: algebra_simps)
qed simp

lemma crc_rest_spec:
  "i + n \<le> length buf \<Longrightarrow> crc_rest n buf i crc = Some (foldl crc32_ref crc (take n (drop i buf)))"
proof (induction n arbitrary: i crc)
  case (Suc n)
  then have "take (Suc n) (drop i buf) = buf ! i # take n (drop (i + 1) buf)"
    by (simp add: Cons_nth_drop_Suc [symmetric])
  then show ?case using Suc by (simp add: DO_CRC_byte)
qed simp

lemma crc32_no_comp_spec:
  assumes "unat len \<le> length buf"
  shows "crc32_no_comp crc addr buf len = Some (foldl crc32_ref crc (take (unat len) buf))"
proof -
  let ?len = "unat len"
  obtain n where n: "n \<le> ?len" "(if addr AND 3 \<noteq> 0 \<and> len \<noteq> 0 then crc_align ?len addr buf 0 crc
      else Some (crc, ?len, 0)) = Some (foldl crc32_ref crc (take n buf), ?len - n, n)"
  proof (cases "addr AND 3 \<noteq> 0 \<and> len \<noteq> 0")
    case True
    then show ?thesis using crc_align_spec [of 0 ?len buf addr crc] assms that by auto
  next
    case False
    show ?thesis by (rule that [of 0]) (simp_all only: False if_False, simp_all)
  qed
  define r where "r = ?len - n"
  have "take (n + (a + b)) buf = take n buf @ take a (drop n buf) @ take b (drop (n + a) buf)" for a b
    by (simp only: take_add drop_drop append_assoc add.commute)
  moreover have len: "?len = n + (4 * (r div 4) + r mod 4)" using n(1) by (simp add: r_def)
  ultimately have split: "take ?len buf = take n buf @ take (4 * (r div 4)) (drop n buf) @
      take (r mod 4) (drop (n + 4 * (r div 4)) buf)" by metis
  have "n + 4 * (r div 4) + r mod 4 \<le> length buf" using len assms by linarith
  then show ?thesis
    using crc_words_spec [of n "r div 4" buf] crc_rest_spec [of "n + 4 * (r div 4)" "r mod 4" buf]
    unfolding crc32_no_comp_def n(2) split r_def [symmetric] by simp
qed

subsection \<open>What the checksum detects\<close>

lemma xor_cancel_u32: "c XOR a = c XOR b \<Longrightarrow> a = b" for a b c :: u32
  by (metis xor.assoc xor_self_eq xor.left_neutral)

lemma crc32_bit_inj:
  assumes eq: "crc32_bit a = crc32_bit b" shows "a = b"
proof -
  have top: "bit (crc32_bit c) 31 = bit c 0" for c
  proof -
    have "\<not> bit c 32" by (auto dest: bit_imp_le_length)
    then show ?thesis by (simp add: crc32_bit_def bit_simps)
  qed
  have low: "bit a 0 = bit b 0" using top [of a] top [of b] eq by simp
  have "drop_bit 1 a = drop_bit 1 b"
  proof (cases "bit a 0")
    case True
    then show ?thesis
      using eq low xor_cancel_u32 [of "0xedb88320" "drop_bit 1 a" "drop_bit 1 b"] by (simp only: crc32_bit_def if_True)
  next
    case False
    then show ?thesis using eq low by (simp only: crc32_bit_def if_False)
  qed
  then have "bit (drop_bit 1 a) n = bit (drop_bit 1 b) n" for n by simp
  then have "bit a (1 + n) = bit b (1 + n)" for n by (simp only: bit_drop_bit_eq o_apply)
  with low have "bit a n = bit b n" for n by (cases n) simp_all
  then show ?thesis by (simp add: bit_eq_iff)
qed

lemma crc32_bits_inj: "(crc32_bit ^^ k) a = (crc32_bit ^^ k) b \<Longrightarrow> a = b"
  by (induction k) (auto dest: crc32_bit_inj)

lemma ucast_u8_inj: "(ucast a :: u32) = ucast b \<Longrightarrow> a = b" for a b :: u8
  by (metis ucast_u8_u32_u8)

lemma crc32_pair: "crc32_ref (crc32_ref c a) b = (crc32_bit ^^ 8) ((crc32_bit ^^ 8) (c XOR (ucast a XOR push_bit 8 (ucast b))))"
proof -
  have lt: "n < 24" if "bit (ucast b :: u32) n" for n using that by (auto simp: bit_simps dest: bit_imp_le_length)
  show ?thesis using crc32_bits_waiting [of "ucast b" "c XOR ucast a", OF lt] by (simp only: crc32_ref_def xor.assoc)
qed

interpretation c32: burst_code crc32_ref
proof unfold_locales
  fix c c' :: u32 and a b a' b' :: u8
  show "c = c'" if "crc32_ref c b = crc32_ref c' b"
    using crc32_bits_inj [OF that [unfolded crc32_ref_def]] by (metis xor.commute xor_cancel_u32)
  show "b = b'" if "crc32_ref c b = crc32_ref c b'"
    using crc32_bits_inj [OF that [unfolded crc32_ref_def]] by (auto dest: xor_cancel_u32 ucast_u8_inj)
  show "a = a' \<and> b = b'" if eq: "crc32_ref (crc32_ref c a) b = crc32_ref (crc32_ref c a') b'"
  proof -
    have e: "(ucast a XOR push_bit 8 (ucast b) :: u32) = ucast a' XOR push_bit 8 (ucast b')"
      using xor_cancel_u32 [OF crc32_bits_inj [OF crc32_bits_inj [OF eq [unfolded crc32_pair]]]] .
    have low: "ucast (ucast a XOR push_bit 8 (ucast b) :: u32) = a" for a b :: u8
      by (rule bit_word_eqI) (auto simp: bit_simps)
    have high: "ucast (drop_bit 8 (ucast a XOR push_bit 8 (ucast b) :: u32)) = b" for a b :: u8
      by (rule bit_word_eqI) (auto simp: bit_simps)
    show ?thesis using e low high by metis
  qed
qed

text \<open>
  C12. The CRC-32 with its table, its alignment prologue, its four-bytes-at-a-time loop and its tail is the bit-serial
  division by the polynomial, lowest bit first, with the register complemented before and after, at
  every address and for every length within the buffer. It always has a result.
\<close>

theorem crc32_is_division:
  assumes "unat len \<le> length buf"
  shows "crc32 crc addr buf len = Some (NOT (foldl crc32_ref (NOT crc) (take (unat len) buf)))"
proof -
  have "(0xffffffff :: u32) = NOT 0" by simp
  then have "w XOR 0xffffffff = NOT w" for w :: u32
    by (simp only:) (rule bit_word_eqI, auto simp: bit_simps)
  then show ?thesis using assms by (simp add: crc32_def crc32_no_comp_spec)
qed

text \<open>
  C29. Whatever the addresses and the starting value, two buffers that differ in two adjacent bytes, or in
  one, never have the same CRC-32.
\<close>

theorem crc32_detects_pair:
  assumes "(a, b) \<noteq> (a', b')" "length (xs @ a # b # ys) < 2 ^ 32"
  shows "crc32 crc addr (xs @ a # b # ys) (of_nat (length (xs @ a # b # ys))) \<noteq>
    crc32 crc addr' (xs @ a' # b' # ys) (of_nat (length (xs @ a' # b' # ys)))"
proof -
  have "unat (of_nat n :: u32) = n" if "n < 2 ^ 32" for n
    using that by (simp add: unsigned_of_nat take_bit_nat_eq_self)
  from this [OF assms(2)] show ?thesis
    using c32.detects_pair [OF assms(1), of "crc XOR 0xffffffff" xs ys]
    by (auto simp: crc32_def crc32_no_comp_spec xor.commute [of _ "0xffffffff"] dest: xor_cancel_u32)
qed

theorem crc32_is_division_witness:
  "crc32 0 0x20000001 [0x31, 0x32, 0x33, 0x34, 0x35, 0x36, 0x37, 0x38, 0x39] 9 =
    Some (NOT (foldl crc32_ref (NOT 0) [0x31, 0x32, 0x33, 0x34, 0x35, 0x36, 0x37, 0x38, 0x39]))"
  using crc32_is_division [of 9 "[0x31, 0x32, 0x33, 0x34, 0x35, 0x36, 0x37, 0x38, 0x39]" 0 "0x20000001"] by simp

theorem crc32_detects_pair_witness:
  "crc32 0 0x20000000 [1, 2, 3, 4, 5, 6] 6 \<noteq> crc32 0 0x20000000 [1, 2, 0xFF, 4, 5, 6] 6"
  using crc32_detects_pair [of 3 4 "0xFF" 4 "[1, 2]" "[5, 6]" 0 "0x20000000" "0x20000000"] by simp

end
