(* ===== verification/Nand_Util.thy ===== *)
theory Nand_Util
  imports Prelude
begin

unbundle bit_operations_syntax

text \<open>
  Transfers to the NAND flash that skip bad blocks, \<^verbatim>\<open>drivers/mtd/nand/nand_util.c\<close>, over the checks of the MTD layer
  (\<^verbatim>\<open>drivers/mtd/mtdcore.c\<close>, with the inline calls of \<^verbatim>\<open>include/nand.h\<close>), for the configuration of the board: no
  YAFFS, no trimming of trailing 0xFF pages. The operations of the chip driver, function pointers of
  \<open>struct mtd_info\<close> in the code, are fields of a record over the state \<open>'n\<close> of the flash. Offsets and lengths are
  natural numbers; the lengths, of the 32-bit type \<open>size_t\<close> in the code, are meant below 4 GiB. The start of the block of a 64-bit offset is taken
  with a 64-bit mask in \<open>check_skip_len\<close> and with a 32-bit mask in the loops that write and read, and so it is here. Messages and the
  watchdog are not modelled.
\<close>

record 'n mtd_info =
  mtd_size :: nat
  erasesize :: nat
  writesize :: nat
  mtd_writeable :: bool
  ecc_strength :: int
  bitflip_threshold :: int
  oobavail :: nat
  op_erase :: "nat \<Rightarrow> nat \<Rightarrow> bool \<Rightarrow> 'n \<Rightarrow> int \<times> 'n"
  op_read :: "nat \<Rightarrow> nat \<Rightarrow> 'n \<Rightarrow> int \<times> nat \<times> u8 list \<times> 'n"
  op_write :: "(nat \<Rightarrow> nat \<Rightarrow> u8 list \<Rightarrow> 'n \<Rightarrow> int \<times> nat \<times> 'n) option"
  op_write_oob :: "(nat \<Rightarrow> u8 list \<Rightarrow> 'n \<Rightarrow> int \<times> 'n) option"
  op_block_isbad :: "('n \<Rightarrow> nat \<Rightarrow> int) option"
  forget_bbt :: "'n \<Rightarrow> 'n"
  scan_bbt :: "'n \<Rightarrow> 'n"

abbreviation (input) E_INVAL :: int where "E_INVAL \<equiv> 22"
abbreviation (input) E_FBIG :: int where "E_FBIG \<equiv> 27"
abbreviation (input) E_ROFS :: int where "E_ROFS \<equiv> 30"
abbreviation (input) E_OPNOTSUPP :: int where "E_OPNOTSUPP \<equiv> 95"
abbreviation (input) E_UCLEAN :: int where "E_UCLEAN \<equiv> 117"

subsection \<open>The MTD layer\<close>

definition mtd_erase :: "'n mtd_info \<Rightarrow> nat \<Rightarrow> nat \<Rightarrow> bool \<Rightarrow> 'n \<Rightarrow> int \<times> 'n" where
  "mtd_erase M addr len scrub n =
     (if addr > mtd_size M \<or> len > mtd_size M - addr then (- E_INVAL, n)
      else if \<not> mtd_writeable M then (- E_ROFS, n)
      else if len = 0 then (0, n)
      else op_erase M addr len scrub n)"

text \<open>The code, the returned length (\<open>retlen\<close> before the call), the bytes stored in the buffer.\<close>

definition mtd_read :: "'n mtd_info \<Rightarrow> nat \<Rightarrow> nat \<Rightarrow> nat \<Rightarrow> 'n \<Rightarrow> int \<times> nat \<times> u8 list \<times> 'n" where
  "mtd_read M from len retlen n =
     (if from > mtd_size M \<or> len > mtd_size M - from then (- E_INVAL, retlen, [], n)
      else if len = 0 then (0, retlen, [], n)
      else case op_read M from len n of (ret_code, retlen, bytes, n) \<Rightarrow>
        if ret_code < 0 then (ret_code, retlen, bytes, n)
        else if ecc_strength M = 0 then (0, retlen, bytes, n)
        else (if ret_code \<ge> bitflip_threshold M then - E_UCLEAN else 0, retlen, bytes, n))"

definition mtd_write :: "'n mtd_info \<Rightarrow> nat \<Rightarrow> nat \<Rightarrow> u8 list \<Rightarrow> 'n \<Rightarrow> int \<times> nat \<times> 'n" where
  "mtd_write M ofs len buf n =
     (if ofs > mtd_size M \<or> len > mtd_size M - ofs then (- E_INVAL, 0, n)
      else if op_write M = None \<or> \<not> mtd_writeable M then (- E_ROFS, 0, n)
      else if len = 0 then (0, 0, n)
      else the (op_write M) ofs len buf n)"

definition mtd_write_oob :: "'n mtd_info \<Rightarrow> nat \<Rightarrow> u8 list \<Rightarrow> 'n \<Rightarrow> int \<times> 'n" where
  "mtd_write_oob M ofs oobbuf n =
     (case op_write_oob M of
        None \<Rightarrow> (- E_OPNOTSUPP, n)
      | Some f \<Rightarrow> if \<not> mtd_writeable M then (- E_ROFS, n) else f ofs oobbuf n)"

definition mtd_block_isbad :: "'n mtd_info \<Rightarrow> 'n \<Rightarrow> nat \<Rightarrow> int" where
  "mtd_block_isbad M n ofs =
     (case op_block_isbad M of
        None \<Rightarrow> 0
      | Some f \<Rightarrow> if ofs > mtd_size M then - E_INVAL else f n ofs)"

definition nand_read :: "'n mtd_info \<Rightarrow> nat \<Rightarrow> nat \<Rightarrow> 'n \<Rightarrow> int \<times> nat \<times> u8 list \<times> 'n" where
  "nand_read M ofs len n = mtd_read M ofs len len n"

definition nand_write :: "'n mtd_info \<Rightarrow> nat \<Rightarrow> nat \<Rightarrow> u8 list \<Rightarrow> 'n \<Rightarrow> int \<times> nat \<times> 'n" where
  "nand_write M ofs len buf n = mtd_write M ofs len buf n"

definition nand_block_isbad :: "'n mtd_info \<Rightarrow> 'n \<Rightarrow> nat \<Rightarrow> int" where
  "nand_block_isbad M n ofs = mtd_block_isbad M n ofs"

subsection \<open>Erasing\<close>

record nand_erase_options =
  opt_length :: nat
  opt_offset :: nat
  opt_jffs2 :: bool
  opt_scrub :: bool
  opt_spread :: bool
  opt_lim :: nat

text \<open>Options that are zero except for the range.\<close>

definition plain_erase :: "nat \<Rightarrow> nat \<Rightarrow> nand_erase_options" where
  "plain_erase offset len = \<lparr>opt_length = len, opt_offset = offset, opt_jffs2 = False, opt_scrub = False, opt_spread = False, opt_lim = 0\<rparr>"

text \<open>The first eight bytes of the clean marker.\<close>

definition cleanmarker :: "u8 list" where
  "cleanmarker = [0x85, 0x19, 0x03, 0x20, 8, 0, 0, 0]"

partial_function (option) erase_loop ::
  "'n mtd_info \<Rightarrow> nand_erase_options \<Rightarrow> nat \<Rightarrow> nat \<Rightarrow> nat \<Rightarrow> 'n \<Rightarrow> (int \<times> 'n) option" where
  [code]: "erase_loop M opts addr erased_length erase_length n =
     (if erased_length < erase_length then
        if opt_lim opts \<noteq> 0 \<and> addr \<ge> opt_offset opts + opt_lim opts then Some (- E_FBIG, n)
        else
          let ret = (if opt_scrub opts then 0 else mtd_block_isbad M n addr) in
          if ret > 0 then
            erase_loop M opts (addr + erasesize M) (if opt_spread opts then erased_length else erased_length + 1)
              erase_length n
          else if ret < 0 then Some (- 1, n)
          else
            (case mtd_erase M addr (erasesize M) (opt_scrub opts) n of
               (result, n) \<Rightarrow>
                 if result \<noteq> 0 then erase_loop M opts (addr + erasesize M) (erased_length + 1) erase_length n
                 else
                   let n = (if opt_jffs2 opts \<and> oobavail M \<ge> 8 then snd (mtd_write_oob M addr cleanmarker n) else n)
                   in erase_loop M opts (addr + erasesize M) (erased_length + 1) erase_length n)
      else Some (0, n))"

definition nand_erase_opts :: "'n mtd_info \<Rightarrow> nand_erase_options \<Rightarrow> 'n \<Rightarrow> (int \<times> 'n) option" where
  "nand_erase_opts M opts n =
     (if opt_offset opts AND (erasesize M - 1) \<noteq> 0 then Some (- 1, n)
      else do {
        let erase_length = (opt_length opts + erasesize M - 1) div erasesize M;
        let n = (if opt_scrub opts then forget_bbt M n else n);
        (ret, n) \<leftarrow> erase_loop M opts (opt_offset opts) 0 erase_length n;
        Some (ret, if ret = 0 \<and> opt_scrub opts then scan_bbt M n else n)
      })"

subsection \<open>Writing and reading around bad blocks\<close>

text \<open>The verdict and the length of flash that is used, bad blocks included.\<close>

partial_function (option) check_skip_loop ::
  "'n mtd_info \<Rightarrow> 'n \<Rightarrow> nat \<Rightarrow> nat \<Rightarrow> nat \<Rightarrow> nat \<Rightarrow> int \<Rightarrow> (int \<times> nat) option" where
  [code]: "check_skip_loop M n offset len len_excl_bad used ret =
     (if len_excl_bad < len then
        if offset \<ge> mtd_size M then Some (- 1, used)
        else
          let block_off = offset AND (erasesize M - 1);
              block_start = offset - block_off;
              block_len = erasesize M - block_off;
              good = (nand_block_isbad M n block_start = 0)
          in check_skip_loop M n (offset + block_len) len
               (if good then len_excl_bad + block_len else len_excl_bad) (used + block_len) (if good then ret else 1)
      else Some (ret, if len_excl_bad > len then used - (len_excl_bad - len) else used))"

definition check_skip_len :: "'n mtd_info \<Rightarrow> 'n \<Rightarrow> nat \<Rightarrow> nat \<Rightarrow> (int \<times> nat) option" where
  "check_skip_len M n offset len = check_skip_loop M n offset len 0 0 0"

abbreviation (input) WITH_DROP_FFS :: u32 where "WITH_DROP_FFS \<equiv> 2"

text \<open>
  \<open>offset & ~(erasesize - 1)\<close> as the loops compute it: \<open>erasesize\<close> is a 32-bit number, so that its complement has 32 bits and clears the
  upper half of a 64-bit offset.
\<close>

definition masked_start :: "'n mtd_info \<Rightarrow> nat \<Rightarrow> nat" where
  "masked_start M offset = unat ((of_nat offset :: u32) AND NOT (of_nat (erasesize M - 1)))"

text \<open>The code, the bytes left when the loop ended, the flash.\<close>

partial_function (option) write_skip_loop ::
  "'n mtd_info \<Rightarrow> nat \<Rightarrow> nat \<Rightarrow> u8 list \<Rightarrow> 'n \<Rightarrow> (int \<times> nat \<times> 'n) option" where
  [code]: "write_skip_loop M offset left_to_write p_buffer n =
     (if left_to_write > 0 then
        let block_offset = offset AND (erasesize M - 1) in
        if nand_block_isbad M n (masked_start M offset) \<noteq> 0 then
          write_skip_loop M (offset + (erasesize M - block_offset)) left_to_write p_buffer n
        else
          let write_size = (if left_to_write < erasesize M - block_offset then left_to_write
                            else erasesize M - block_offset)
          in (case nand_write M offset write_size p_buffer n of
                (rval, _, n) \<Rightarrow>
                  if rval \<noteq> 0 then Some (rval, left_to_write, n)
                  else write_skip_loop M (offset + write_size) (left_to_write - write_size) (drop write_size p_buffer) n)
      else Some (0, 0, n))"

text \<open>The code, \<open>*length\<close> and \<open>*actual\<close> after the call, the flash.\<close>

definition nand_write_skip_bad ::
  "'n mtd_info \<Rightarrow> nat \<Rightarrow> nat \<Rightarrow> nat \<Rightarrow> u8 list \<Rightarrow> u32 \<Rightarrow> 'n \<Rightarrow> (int \<times> nat \<times> nat \<times> 'n) option" where
  "nand_write_skip_bad M offset len lim buffer flags n =
     (if offset AND (writesize M - 1) \<noteq> 0 then Some (- E_INVAL, 0, 0, n)
      else do {
        (need_skip, used_for_write) \<leftarrow> check_skip_len M n offset len;
        if need_skip < 0 then Some (- E_INVAL, 0, used_for_write, n)
        else if used_for_write > lim then Some (- E_FBIG, 0, used_for_write, n)
        else if need_skip = 0 \<and> flags AND WITH_DROP_FFS = 0 then
          (case nand_write M offset len buffer n of
             (rval, len, n) \<Rightarrow> if rval = 0 then Some (0, len, used_for_write, n) else Some (rval, 0, used_for_write, n))
        else do {
          (rval, left_to_write, n) \<leftarrow> write_skip_loop M offset len buffer n;
          Some (rval, len - left_to_write, used_for_write, n)
        }
      })"

text \<open>The buffer is filled from position \<open>p\<close> on.\<close>

partial_function (option) read_skip_loop ::
  "'n mtd_info \<Rightarrow> nat \<Rightarrow> nat \<Rightarrow> nat \<Rightarrow> u8 list \<Rightarrow> 'n \<Rightarrow> (int \<times> nat \<times> u8 list \<times> 'n) option" where
  [code]: "read_skip_loop M offset left_to_read p buf n =
     (if left_to_read > 0 then
        let block_offset = offset AND (erasesize M - 1) in
        if nand_block_isbad M n (masked_start M offset) \<noteq> 0 then
          read_skip_loop M (offset + (erasesize M - block_offset)) left_to_read p buf n
        else
          let read_length = (if left_to_read < erasesize M - block_offset then left_to_read
                             else erasesize M - block_offset)
          in (case nand_read M offset read_length n of
                (rval, read_length, bytes, n) \<Rightarrow> do {
                  buf \<leftarrow> arr_blit buf p bytes;
                  if rval \<noteq> 0 \<and> rval \<noteq> - E_UCLEAN then Some (rval, left_to_read, buf, n)
                  else read_skip_loop M (offset + read_length) (left_to_read - read_length) (p + read_length) buf n
                })
      else Some (0, 0, buf, n))"

definition nand_read_skip_bad ::
  "'n mtd_info \<Rightarrow> nat \<Rightarrow> nat \<Rightarrow> nat \<Rightarrow> u8 list \<Rightarrow> 'n \<Rightarrow> (int \<times> nat \<times> nat \<times> u8 list \<times> 'n) option" where
  "nand_read_skip_bad M offset len lim buffer n =
     (if offset AND (writesize M - 1) \<noteq> 0 then Some (- E_INVAL, 0, 0, buffer, n)
      else do {
        (need_skip, used_for_read) \<leftarrow> check_skip_len M n offset len;
        if need_skip < 0 then Some (- E_INVAL, 0, used_for_read, buffer, n)
        else if used_for_read > lim then Some (- E_FBIG, 0, used_for_read, buffer, n)
        else if need_skip = 0 then
          (case nand_read M offset len n of
             (rval, len, bytes, n) \<Rightarrow> do {
               buffer \<leftarrow> arr_blit buffer 0 bytes;
               if rval = 0 \<or> rval = - E_UCLEAN then Some (0, len, used_for_read, buffer, n)
               else Some (rval, 0, used_for_read, buffer, n)
             })
        else do {
          (rval, left_to_read, buffer, n) \<leftarrow> read_skip_loop M offset len 0 buffer n;
          Some (rval, len - left_to_read, used_for_read, buffer, n)
        }
      })"

end
