(* ===== verification/Skip_Bad.thy ===== *)
theory Skip_Bad
  imports Nand_Util
begin

unbundle bit_operations_syntax

text \<open>
  The correctness of the transfers around bad blocks: the addresses a transfer uses, that the loops of the code use exactly these, and what the code
  relies on in the chip driver, as predicates over the contents of the flash.
\<close>

subsection \<open>Addresses around bad blocks\<close>

definition geometry :: "'n mtd_info \<Rightarrow> bool" where
  "geometry M \<longleftrightarrow> (\<exists>k. erasesize M = 2 ^ k) \<and> (\<exists>k. writesize M = 2 ^ k) \<and> writesize M dvd erasesize M
     \<and> erasesize M dvd mtd_size M \<and> mtd_size M \<le> 2 ^ 32"

definition good :: "'n mtd_info \<Rightarrow> 'n \<Rightarrow> nat \<Rightarrow> bool" where
  "good M n a \<longleftrightarrow> nand_block_isbad M n (a - a mod erasesize M) = 0"

lemma and_exp_minus_1: "x AND (2 ^ k - Suc 0) = x mod 2 ^ k" for x :: nat
  by (simp add: take_bit_eq_mod [symmetric] take_bit_eq_mask mask_nat_def)

lemma geometryD:
  assumes "geometry M"
  shows "x AND (erasesize M - 1) = x mod erasesize M" "x AND (writesize M - 1) = x mod writesize M"
    "0 < erasesize M" "0 < writesize M" "erasesize M dvd mtd_size M"
  using assms by (auto simp: geometry_def and_exp_minus_1)

lemma masked_start_eq:
  assumes "geometry M" "off < mtd_size M"
  shows "masked_start M off = off - off mod erasesize M"
proof -
  obtain k where k: "erasesize M = 2 ^ k" using assms(1) unfolding geometry_def by blast
  have sz: "mtd_size M \<le> 2 ^ 32" using assms(1) unfolding geometry_def by blast
  have off: "take_bit 32 off = off" using assms(2) sz by (simp add: take_bit_nat_eq_self)
  have b: "bit off i \<Longrightarrow> i < 32" for i by (metis off bit_take_bit_iff)
  have "(of_nat (2 ^ k - 1) :: u32) = mask k" by (simp add: mask_eq_exp_minus_1)
  then have "masked_start M off = unat ((of_nat off :: u32) AND NOT (mask k))" by (simp add: masked_start_def k)
  also have "\<dots> = push_bit k (drop_bit k off)"
    by (rule bit_eqI) (use b in \<open>auto simp: bit_simps\<close>)
  also have "\<dots> = off - off mod 2 ^ k"
    by (simp add: push_bit_eq_mult drop_bit_eq_div minus_mod_eq_div_mult)
  finally show ?thesis by (simp add: k)
qed

text \<open>The addresses of \<open>len\<close> bytes from an offset on, without the bad blocks, or none when the device is too small.\<close>

function skip_addrs :: "'n mtd_info \<Rightarrow> 'n \<Rightarrow> nat \<Rightarrow> nat \<Rightarrow> nat list option" where
  "skip_addrs M n off len =
     (if len = 0 then Some []
      else if mtd_size M \<le> off \<or> erasesize M = 0 then None
      else let rest = erasesize M - off mod erasesize M; w = min len rest in
        if good M n off then map_option (\<lambda>as. [off..<off + w] @ as) (skip_addrs M n (off + w) (len - w))
        else skip_addrs M n (off + rest) len)"
  by pat_completeness auto
termination
proof (relation "measure (\<lambda>(M, n, off, len). mtd_size M - off)", goal_cases)
  case (2 M n off len rest w)
  then have "0 < rest" by simp
  then have "0 < w" using 2 by simp
  with 2(2) show ?case by auto
next
  case (3 M n off len rest w)
  then have "0 < rest" by simp
  with 3(2) show ?case by auto
qed simp

declare skip_addrs.simps [simp del]

lemma block_fits:
  assumes "geometry M" "off < mtd_size M"
  shows "off + (erasesize M - off mod erasesize M) \<le> mtd_size M"
proof -
  let ?e = "erasesize M"
  obtain q where q: "mtd_size M = ?e * q" using geometryD(5) [OF assms(1)] by blast
  have "off div ?e < q" using assms(2) q geometryD(3) [OF assms(1)] by (simp add: div_less_iff_less_mult mult.commute)
  then have "?e * Suc (off div ?e) \<le> ?e * q" by (intro mult_le_mono2) simp
  moreover have "off mod ?e < ?e" using geometryD(3) [OF assms(1)] by simp
  then have "off + (?e - off mod ?e) = ?e * Suc (off div ?e)"
    using mult_div_mod_eq [of ?e off] unfolding mult_Suc_right by linarith
  ultimately show ?thesis using q by simp
qed

lemma same_block:
  assumes "off \<le> a" "a < off + (erasesize M - off mod erasesize M)"
  shows "good M n a = good M n off"
proof -
  let ?e = "erasesize M"
  obtain j where j: "a = off + j" using assms(1) le_Suc_ex by blast
  have "off mod ?e + j < ?e" using assms(2) j by (cases "?e = 0") auto
  then have "(off mod ?e + j) mod ?e = off mod ?e + j" by simp
  then have "a mod ?e = off mod ?e + j" by (simp add: j mod_add_left_eq)
  then have "a - a mod ?e = off - off mod ?e" by (simp add: j)
  then show ?thesis by (simp add: good_def)
qed

lemma skip_induct [consumes 1, case_names zero outside good bad]:
  assumes geo: "geometry M"
    and zero: "\<And>off. P off 0"
    and outside: "\<And>off len. 0 < len \<Longrightarrow> mtd_size M \<le> off \<Longrightarrow> P off len"
    and good: "\<And>off len rest w. 0 < len \<Longrightarrow> off < mtd_size M \<Longrightarrow> good M n off \<Longrightarrow>
      rest = erasesize M - off mod erasesize M \<Longrightarrow> 0 < rest \<Longrightarrow> off + rest \<le> mtd_size M \<Longrightarrow> w = min len rest \<Longrightarrow>
      P (off + w) (len - w) \<Longrightarrow> P off len"
    and bad: "\<And>off len rest. 0 < len \<Longrightarrow> off < mtd_size M \<Longrightarrow> \<not> good M n off \<Longrightarrow>
      rest = erasesize M - off mod erasesize M \<Longrightarrow> 0 < rest \<Longrightarrow> off + rest \<le> mtd_size M \<Longrightarrow>
      P (off + rest) len \<Longrightarrow> P off len"
  shows "P off len"
proof (induction "mtd_size M - off" arbitrary: off len rule: less_induct)
  case (less off len)
  define rest where rest: "rest = erasesize M - off mod erasesize M"
  have r: "0 < rest" using geometryD(3) [OF geo] by (simp add: rest)
  consider "len = 0" | "0 < len" "mtd_size M \<le> off" | "0 < len" "off < mtd_size M" by linarith
  then show ?case
  proof cases
    case 3
    have f: "off + rest \<le> mtd_size M" using block_fits [OF geo 3(2)] by (simp add: rest)
    show ?thesis
    proof (cases "good M n off")
      case True
      have "P (off + min len rest) (len - min len rest)" using 3 r by (intro less) auto
      then show ?thesis using good [OF 3 True rest r f refl] by blast
    next
      case False
      have "P (off + rest) len" using 3 r by (intro less) auto
      then show ?thesis using bad [OF 3 False rest r f] by blast
    qed
  qed (use zero outside in auto)
qed

lemma skip_addrs_0: "skip_addrs M n off 0 = Some []"
  by (subst skip_addrs.simps) simp

lemma skip_addrs_outside: "0 < len \<Longrightarrow> mtd_size M \<le> off \<Longrightarrow> skip_addrs M n off len = None"
  by (subst skip_addrs.simps) simp

lemma skip_addrs_good:
  assumes "0 < len" "off < mtd_size M" "good M n off" "rest = erasesize M - off mod erasesize M" "0 < rest" "w = min len rest"
  shows "skip_addrs M n off len = map_option (\<lambda>as. [off..<off + w] @ as) (skip_addrs M n (off + w) (len - w))"
proof -
  have "erasesize M \<noteq> 0" using assms(4,5) by auto
  then show ?thesis using assms(1-3) unfolding assms(6) assms(4) by (subst skip_addrs.simps) (simp add: Let_def)
qed

lemma skip_addrs_bad:
  assumes "0 < len" "off < mtd_size M" "\<not> good M n off" "rest = erasesize M - off mod erasesize M" "0 < rest"
  shows "skip_addrs M n off len = skip_addrs M n (off + rest) len"
proof -
  have "erasesize M \<noteq> 0" using assms(4,5) by auto
  then show ?thesis using assms(1-3) unfolding assms(4) by (subst skip_addrs.simps) (simp add: Let_def)
qed

lemma skip_addrs_in:
  assumes "geometry M" "skip_addrs M n off len = Some as"
  shows "length as = len" "\<And>a. a \<in> set as \<Longrightarrow> off \<le> a \<and> a < mtd_size M \<and> good M n a" "distinct as"
proof -
  have "length as = len \<and> (\<forall>a \<in> set as. off \<le> a \<and> a < mtd_size M \<and> good M n a) \<and> distinct as"
    using assms
  proof (induction off len arbitrary: as rule: skip_induct [where n = n])
    case (good off len rest w)
    then obtain bs where bs: "skip_addrs M n (off + w) (len - w) = Some bs" "as = [off..<off + w] @ bs"
      by (auto simp: skip_addrs_good [OF good(1-5,7)])
    have "\<forall>a \<in> set [off..<off + w]. off \<le> a \<and> a < mtd_size M \<and> good M n a"
    proof
      fix a assume "a \<in> set [off..<off + w]"
      then have a: "off \<le> a" "a < off + w" "w \<le> rest" using good(7) by auto
      then have "good M n a = good M n off" using good(4) by (intro same_block) auto
      then show "off \<le> a \<and> a < mtd_size M \<and> good M n a" using a good(3,6) by simp
    qed
    moreover have "length bs = len - w" "\<forall>a \<in> set bs. off + w \<le> a \<and> a < mtd_size M \<and> good M n a" "distinct bs"
      using good.IH [OF bs(1)] by auto
    ultimately show ?case using good(7) unfolding bs(2) by auto
  next
    case (bad off len rest)
    then have "skip_addrs M n (off + rest) len = Some as" by (simp add: skip_addrs_bad [OF bad(1-5)])
    from bad.IH [OF this] show ?case by auto
  qed (auto simp: skip_addrs_0 skip_addrs_outside)
  then show "length as = len" "\<And>a. a \<in> set as \<Longrightarrow> off \<le> a \<and> a < mtd_size M \<and> good M n a" "distinct as" by auto
qed

lemma upt_join: "m \<le> k \<Longrightarrow> [a..<a + m] @ [a + m..<a + k] = [a..<a + k]"
  using upt_add_eq_append [of a "a + m" "k - m"] by simp

lemma check_skip_step:
  assumes "geometry M" "le < len" "off < mtd_size M" "rest = erasesize M - off mod erasesize M"
  shows "check_skip_loop M n off len le used ret =
    (if good M n off then check_skip_loop M n (off + rest) len (le + rest) (used + rest) ret
     else check_skip_loop M n (off + rest) len le (used + rest) 1)"
  using assms(2,3)
  by (subst check_skip_loop.simps, simp only: Let_def geometryD(1) [OF assms(1)]) (simp add: good_def assms(4))

lemma check_skip_done:
  "len \<le> le \<Longrightarrow> check_skip_loop M n off len le used ret = Some (ret, used - (le - len))"
  by (subst check_skip_loop.simps) auto

text \<open>
  The check of the length finds the addresses: it fails exactly when the device is too small, it reports the
  extent of the addresses, and it reports no bad block only when they are contiguous.
\<close>

lemma check_skip_spec:
  assumes "geometry M" "le < len"
  shows "case skip_addrs M n off (len - le) of
      None \<Rightarrow> \<exists>u. check_skip_loop M n off len le used ret = Some (- 1, u)
    | Some as \<Rightarrow> \<exists>r. check_skip_loop M n off len le used ret = Some (r, used + (last as + 1 - off))
        \<and> off \<le> last as \<and> (r = ret \<or> r = 1) \<and> (r = 0 \<longrightarrow> as = [off..<off + (len - le)])"
proof -
  have "0 < rem \<Longrightarrow> len - le = rem \<Longrightarrow> case skip_addrs M n off rem of
      None \<Rightarrow> \<exists>u. check_skip_loop M n off len le used ret = Some (- 1, u)
    | Some as \<Rightarrow> \<exists>r. check_skip_loop M n off len le used ret = Some (r, used + (last as + 1 - off))
        \<and> off \<le> last as \<and> (r = ret \<or> r = 1) \<and> (r = 0 \<longrightarrow> as = [off..<off + rem])" for rem
    using assms(1)
  proof (induction off rem arbitrary: le used ret rule: skip_induct [where n = n])
    case (outside off rem)
    then show ?case by (subst check_skip_loop.simps) (auto simp: skip_addrs_outside)
  next
    case (good off rem rest w)
    have le: "le < len" using good.prems by simp
    note c = check_skip_step [OF assms(1) le good(2,4), of n used ret] skip_addrs_good [OF good(1-5,7)]
    show ?case
    proof (cases "rem \<le> rest")
      case True
      then show ?thesis using good le by (simp add: c check_skip_done skip_addrs_0) linarith
    next
      case False
      then have "case skip_addrs M n (off + w) (rem - w) of
          None \<Rightarrow> \<exists>u. check_skip_loop M n (off + w) len (le + w) (used + w) ret = Some (- 1, u)
        | Some as \<Rightarrow> \<exists>r. check_skip_loop M n (off + w) len (le + w) (used + w) ret = Some (r, used + w + (last as + 1 - (off + w)))
            \<and> off + w \<le> last as \<and> (r = ret \<or> r = 1) \<and> (r = 0 \<longrightarrow> as = [off + w..<off + w + (rem - w)])"
        using good.prems good(7) by (intro good.IH) auto
      moreover have "w = rest" using False good(7) by simp
      moreover have "as \<noteq> []" if "skip_addrs M n (off + w) (rem - w) = Some as" for as
        using skip_addrs_in(1) [OF assms(1) that] False good(7) by auto
      ultimately show ?thesis using good(3) False
        by (auto simp: c upt_join split: option.splits)
    qed
  next
    case (bad off rem rest)
    have le: "le < len" using bad.prems by simp
    have "case skip_addrs M n (off + rest) rem of
          None \<Rightarrow> \<exists>u. check_skip_loop M n (off + rest) len le (used + rest) 1 = Some (- 1, u)
        | Some as \<Rightarrow> \<exists>r. check_skip_loop M n (off + rest) len le (used + rest) 1 = Some (r, used + rest + (last as + 1 - (off + rest)))
            \<and> off + rest \<le> last as \<and> (r = 1 \<or> r = 1) \<and> (r = 0 \<longrightarrow> as = [off + rest..<off + rest + rem])"
      using bad.prems by (intro bad.IH) auto
    then show ?case using bad(3)
      by (auto simp: check_skip_step [OF assms(1) le bad(2,4), of n used ret] skip_addrs_bad [OF bad(1-5)] split: option.splits)
  qed simp
  from this [of "len - le"] show ?thesis using assms(2) by simp
qed

lemma check_skip_len_spec:
  assumes "geometry M" "0 < len"
  shows "case skip_addrs M n off len of
      None \<Rightarrow> \<exists>u. check_skip_len M n off len = Some (- 1, u)
    | Some as \<Rightarrow> \<exists>r. check_skip_len M n off len = Some (r, last as + 1 - off)
        \<and> off \<le> last as \<and> (r = 0 \<or> r = 1) \<and> (r = 0 \<longrightarrow> as = [off..<off + len])"
  using check_skip_spec [OF assms(1), of 0 len n off 0 0] assms(2) by (auto simp: check_skip_len_def split: option.splits)

subsection \<open>Transfers\<close>

text \<open>
  What the code relies on in the chip driver, over the contents of the flash: a write without an error of erased bytes
  in good blocks stores them and changes nothing else, a read of good blocks returns the contents, possibly after
  corrections, and neither changes which blocks are bad.
\<close>

definition mtd_keeps :: "'n mtd_info \<Rightarrow> ('n \<Rightarrow> nat \<Rightarrow> u8) \<Rightarrow> bool" where
  "mtd_keeps M content \<longleftrightarrow> geometry M \<and> mtd_writeable M \<and>
     (\<exists>wr. op_write M = Some wr \<and>
       (\<forall>ofs len buf n l n'. wr ofs len buf n = (0, l, n') \<longrightarrow> 0 < len \<longrightarrow> ofs + len \<le> mtd_size M \<longrightarrow> len \<le> length buf \<longrightarrow>
          (\<forall>a. ofs \<le> a \<and> a < ofs + len \<longrightarrow> good M n a \<and> content n a = 0xFF) \<longrightarrow>
          l = len \<and> nand_block_isbad M n' = nand_block_isbad M n \<and>
          content n' = (\<lambda>a. if ofs \<le> a \<and> a < ofs + len then buf ! (a - ofs) else content n a))) \<and>
     (\<forall>ofs len n. 0 < len \<longrightarrow> ofs + len \<le> mtd_size M \<longrightarrow> (\<forall>a. ofs \<le> a \<and> a < ofs + len \<longrightarrow> good M n a) \<longrightarrow>
        (\<exists>bitflips n'. op_read M ofs len n = (bitflips, len, map (content n) [ofs..<ofs + len], n') \<and> 0 \<le> bitflips \<and>
           nand_block_isbad M n' = nand_block_isbad M n \<and> content n' = content n))"

lemma keeps_geometry: "mtd_keeps M content \<Longrightarrow> geometry M"
  by (simp add: mtd_keeps_def)

lemma keeps_write:
  assumes "mtd_keeps M content" "nand_write M ofs len buf n = (0, l, n')" "0 < len" "ofs + len \<le> mtd_size M" "len \<le> length buf"
    "\<And>a. ofs \<le> a \<Longrightarrow> a < ofs + len \<Longrightarrow> good M n a \<and> content n a = 0xFF"
  shows "l = len" "nand_block_isbad M n' = nand_block_isbad M n"
    "content n' = (\<lambda>a. if ofs \<le> a \<and> a < ofs + len then buf ! (a - ofs) else content n a)"
proof -
  obtain wr where wr: "op_write M = Some wr" "\<And>ofs len buf n l n'. wr ofs len buf n = (0, l, n') \<Longrightarrow> 0 < len \<Longrightarrow>
      ofs + len \<le> mtd_size M \<Longrightarrow> len \<le> length buf \<Longrightarrow> (\<forall>a. ofs \<le> a \<and> a < ofs + len \<longrightarrow> good M n a \<and> content n a = 0xFF) \<Longrightarrow>
      l = len \<and> nand_block_isbad M n' = nand_block_isbad M n \<and>
      content n' = (\<lambda>a. if ofs \<le> a \<and> a < ofs + len then buf ! (a - ofs) else content n a)"
    using assms(1) unfolding mtd_keeps_def by blast
  have "mtd_writeable M" using assms(1) unfolding mtd_keeps_def by blast
  then have "wr ofs len buf n = (0, l, n')"
    using assms(2-4) wr(1) by (simp add: nand_write_def mtd_write_def split: if_splits)
  from wr(2) [OF this assms(3-5)] show "l = len" "nand_block_isbad M n' = nand_block_isbad M n"
    "content n' = (\<lambda>a. if ofs \<le> a \<and> a < ofs + len then buf ! (a - ofs) else content n a)"
    using assms(6) by blast+
qed

lemma keeps_read:
  assumes "mtd_keeps M content" "0 < len" "ofs + len \<le> mtd_size M" "\<And>a. ofs \<le> a \<Longrightarrow> a < ofs + len \<Longrightarrow> good M n a"
  obtains rval n' where "nand_read M ofs len n = (rval, len, map (content n) [ofs..<ofs + len], n')"
    "rval = 0 \<or> rval = - E_UCLEAN" "nand_block_isbad M n' = nand_block_isbad M n" "content n' = content n"
proof -
  obtain b n' where "op_read M ofs len n = (b, len, map (content n) [ofs..<ofs + len], n')" "0 \<le> b"
      "nand_block_isbad M n' = nand_block_isbad M n" "content n' = content n"
    using assms unfolding mtd_keeps_def by blast
  then have "nand_read M ofs len n = (if ecc_strength M \<noteq> 0 \<and> bitflip_threshold M \<le> b then - E_UCLEAN else 0, len,
      map (content n) [ofs..<ofs + len], n')"
    using assms(2,3) by (simp add: nand_read_def mtd_read_def)
  then show ?thesis by (rule that) (use \<open>nand_block_isbad M n' = _\<close> \<open>content n' = _\<close> in auto)
qed

lemma write_skip_step:
  assumes "geometry M" "0 < len" "off < mtd_size M" "rest = erasesize M - off mod erasesize M" "w = min len rest"
  shows "write_skip_loop M off len p n =
    (if \<not> good M n off then write_skip_loop M (off + rest) len p n
     else case nand_write M off w p n of (rval, _, n') \<Rightarrow>
       if rval \<noteq> 0 then Some (rval, len, n') else write_skip_loop M (off + w) (len - w) (drop w p) n')"
proof -
  have w: "(if len < rest then len else rest) = w" using assms(5) by auto
  show ?thesis
    by (subst write_skip_loop.simps, simp only: Let_def geometryD(1) [OF assms(1)] masked_start_eq [OF assms(1,3)] assms(4) [symmetric] w good_def assms(2)
        if_True)
qed

lemma write_skip_spec:
  assumes "mtd_keeps M content" "skip_addrs M n off len = Some as" "len \<le> length p" "\<forall>a \<in> set as. content m a = 0xFF"
    "nand_block_isbad M m = nand_block_isbad M n"
  shows "\<exists>rval left m'. write_skip_loop M off len p m = Some (rval, left, m') \<and>
    (rval = 0 \<longrightarrow> left = 0 \<and> nand_block_isbad M m' = nand_block_isbad M n \<and> (\<forall>i < len. content m' (as ! i) = p ! i) \<and>
       (\<forall>a. a \<notin> set as \<longrightarrow> content m' a = content m a))"
proof -
  have "geometry M" using assms(1) by (rule keeps_geometry)
  then show ?thesis using assms(2-5)
  proof (induction off len arbitrary: as p m rule: skip_induct [where n = n])
    case (zero off)
    then show ?case by (subst write_skip_loop.simps) (simp add: skip_addrs_0)
  next
    case (outside off len)
    then show ?case by (simp add: skip_addrs_outside)
  next
    case (good off len rest w)
    then obtain bs where bs: "skip_addrs M n (off + w) (len - w) = Some bs" "as = [off..<off + w] @ bs"
      by (auto simp: skip_addrs_good [OF good(1-5,7)])
    have w: "0 < w" "w \<le> len" "w \<le> rest" using good(1,5,7) by auto
    note sb = skip_addrs_in [OF \<open>geometry M\<close> bs(1)]
    have g: "good M m = good M n" using good.prems(4) by (simp add: good_def fun_eq_iff)
    have gr: "good M m a" if "off \<le> a" "a < off + w" for a
      unfolding g using skip_addrs_in(2) [OF \<open>geometry M\<close> good.prems(1), of a] that by (simp add: bs(2))
    note step = write_skip_step [OF \<open>geometry M\<close> good(1,2,4,7), of p m]
    obtain rv l m1 where nw: "nand_write M off w p m = (rv, l, m1)" by (metis prod_cases3)
    show ?case
    proof (cases "rv = 0")
      case False
      then show ?thesis using step nw good(3) by (simp add: g)
    next
      case True
      have k: "nand_block_isbad M m1 = nand_block_isbad M m"
        "content m1 = (\<lambda>a. if off \<le> a \<and> a < off + w then p ! (a - off) else content m a)"
        using keeps_write [OF assms(1) nw [unfolded True] w(1)] good.prems(2,3) good(6) w gr by (auto simp: bs(2))
      have "\<exists>rval left m'. write_skip_loop M (off + w) (len - w) (drop w p) m1 = Some (rval, left, m') \<and>
          (rval = 0 \<longrightarrow> left = 0 \<and> nand_block_isbad M m' = nand_block_isbad M n \<and>
           (\<forall>i < len - w. content m' (bs ! i) = drop w p ! i) \<and> (\<forall>a. a \<notin> set bs \<longrightarrow> content m' a = content m1 a))"
      proof (rule good.IH [OF bs(1)])
        show "len - w \<le> length (drop w p)" using good.prems(2) by simp
        show "\<forall>a \<in> set bs. content m1 a = 0xFF" using sb(2) good.prems(3) by (fastforce simp: k bs(2))
        show "nand_block_isbad M m1 = nand_block_isbad M n" using k good.prems(4) by simp
      qed
      then obtain rval left m' where r: "write_skip_loop M (off + w) (len - w) (drop w p) m1 = Some (rval, left, m')"
        "rval = 0 \<longrightarrow> left = 0 \<and> nand_block_isbad M m' = nand_block_isbad M n \<and>
           (\<forall>i < len - w. content m' (bs ! i) = drop w p ! i) \<and> (\<forall>a. a \<notin> set bs \<longrightarrow> content m' a = content m1 a)" by blast
      have "content m' (as ! i) = p ! i" if "rval = 0" "i < len" for i
      proof (cases "i < w")
        case True
        then have "off + i \<notin> set bs" using sb(2) [of "off + i"] by auto
        then show ?thesis using r(2) that True by (simp add: bs(2) nth_append k)
      next
        case False
        then show ?thesis using r(2) that good.prems(2) by (simp add: bs(2) nth_append)
      qed
      moreover have "content m' a = content m a" if "rval = 0" "a \<notin> set as" for a
        using r(2) that by (auto simp: bs(2) k)
      ultimately show ?thesis using step nw True good(3) r by (auto simp: g)
    qed
  next
    case (bad off len rest)
    have g: "good M m = good M n" using bad.prems(4) by (simp add: good_def fun_eq_iff)
    from bad show ?case
      by (simp add: write_skip_step [OF \<open>geometry M\<close> bad(1,2,4) refl] g skip_addrs_bad [OF bad(1-5)])
  qed
qed

lemma read_skip_step:
  assumes "geometry M" "0 < len" "off < mtd_size M" "rest = erasesize M - off mod erasesize M" "w = min len rest"
  shows "read_skip_loop M off len p buf n =
    (if \<not> good M n off then read_skip_loop M (off + rest) len p buf n
     else case nand_read M off w n of (rval, l, bytes, n') \<Rightarrow> do {
       buf \<leftarrow> arr_blit buf p bytes;
       if rval \<noteq> 0 \<and> rval \<noteq> - E_UCLEAN then Some (rval, len, buf, n')
       else read_skip_loop M (off + l) (len - l) (p + l) buf n'
     })"
proof -
  have w: "(if len < rest then len else rest) = w" using assms(5) by auto
  show ?thesis
    by (subst read_skip_loop.simps, simp only: Let_def geometryD(1) [OF assms(1)] masked_start_eq [OF assms(1,3)] assms(4) [symmetric] w good_def assms(2)
        if_True)
qed

lemma read_skip_spec:
  assumes "mtd_keeps M content" "skip_addrs M n off len = Some as" "p + len \<le> length buf"
    "nand_block_isbad M m = nand_block_isbad M n"
  shows "\<exists>m'. read_skip_loop M off len p buf m = Some (0, 0, take p buf @ map (content m) as @ drop (p + len) buf, m')"
proof -
  have "geometry M" using assms(1) by (rule keeps_geometry)
  then show ?thesis using assms(2-4)
  proof (induction off len arbitrary: as p buf m rule: skip_induct [where n = n])
    case (zero off)
    then show ?case by (subst read_skip_loop.simps) (simp add: skip_addrs_0)
  next
    case (outside off len)
    then show ?case by (simp add: skip_addrs_outside)
  next
    case (good off len rest w)
    then obtain bs where bs: "skip_addrs M n (off + w) (len - w) = Some bs" "as = [off..<off + w] @ bs"
      by (auto simp: skip_addrs_good [OF good(1-5,7)])
    have w: "0 < w" "w \<le> len" "off + w \<le> mtd_size M" using good(1,5-7) by auto
    have g: "good M m = good M n" using good.prems(3) by (simp add: good_def fun_eq_iff)
    have gr: "good M m a" if "off \<le> a" "a < off + w" for a
      unfolding g using skip_addrs_in(2) [OF \<open>geometry M\<close> good.prems(1), of a] that by (simp add: bs(2))
    obtain rv m1 where r: "nand_read M off w m = (rv, w, map (content m) [off..<off + w], m1)" "rv = 0 \<or> rv = - E_UCLEAN"
      "nand_block_isbad M m1 = nand_block_isbad M m" "content m1 = content m"
      using keeps_read [OF assms(1) w(1,3) gr] by metis
    define buf1 where "buf1 = take p buf @ map (content m) [off..<off + w] @ drop (p + w) buf"
    have b: "arr_blit buf p (map (content m) [off..<off + w]) = Some buf1"
      using arr_blit_eq [of p "map (content m) [off..<off + w]" buf] good.prems(2) w(2) by (simp add: buf1_def)
    have "\<exists>m'. read_skip_loop M (off + w) (len - w) (p + w) buf1 m1 =
        Some (0, 0, take (p + w) buf1 @ map (content m1) bs @ drop (p + w + (len - w)) buf1, m')"
      using good.prems(2,3) w(2) r(3) by (intro good.IH bs(1)) (simp_all add: buf1_def)
    moreover have "take (p + w) buf1 @ map (content m1) bs @ drop (p + w + (len - w)) buf1 =
        take p buf @ map (content m) as @ drop (p + len) buf"
      using good.prems(2) w(2) by (simp add: buf1_def bs(2) r(4) add.commute)
    ultimately show ?case
      using read_skip_step [OF \<open>geometry M\<close> good(1,2,4,7), of p buf m] good(3) r(1,2) b by (auto simp: g)
  next
    case (bad off len rest)
    have g: "good M m = good M n" using bad.prems(3) by (simp add: good_def fun_eq_iff)
    from bad show ?case
      by (simp add: read_skip_step [OF \<open>geometry M\<close> bad(1,2,4) refl] g skip_addrs_bad [OF bad(1-5)])
  qed
qed

lemma skip_addrs_le_last:
  assumes "geometry M" "skip_addrs M n off len = Some as" "a \<in> set as"
  shows "a \<le> last as"
proof -
  have "sorted as" using assms(1,2)
  proof (induction off len arbitrary: as rule: skip_induct [where n = n])
    case (good off len rest w)
    then obtain bs where bs: "skip_addrs M n (off + w) (len - w) = Some bs" "as = [off..<off + w] @ bs"
      by (auto simp: skip_addrs_good [OF good(1-5,7)])
    then show ?case using good.IH [OF bs(1)] skip_addrs_in(2) [OF assms(1) bs(1)] by (fastforce simp: sorted_append)
  next
    case (bad off len rest)
    then show ?case by (simp add: skip_addrs_bad [OF bad(1-5)])
  qed (auto simp: skip_addrs_0 skip_addrs_outside)
  moreover obtain i where "i < length as" "a = as ! i" using assms(3) by (auto simp: in_set_conv_nth)
  ultimately show ?thesis by (cases as rule: rev_cases) (auto simp: sorted_append nth_append)
qed

lemma contiguous_fits:
  assumes "geometry M" "skip_addrs M n off len = Some [off..<off + len]" "0 < len"
  shows "off + len \<le> mtd_size M"
proof -
  have "off + (len - 1) \<in> set [off..<off + len]" using assms(3) by auto
  from skip_addrs_in(2) [OF assms(1,2) this] show ?thesis using assms(3) by linarith
qed

lemma write_skip_bad_spec:
  assumes "mtd_keeps M content" "nand_write_skip_bad M offset len lim buffer flags n = Some (0, len', actual, n')"
    "0 < len" "len \<le> length buffer" "\<And>a. offset \<le> a \<Longrightarrow> a < offset + lim \<Longrightarrow> content n a = 0xFF"
  obtains as where "skip_addrs M n offset len = Some as" "len' = len" "actual = last as + 1 - offset" "actual \<le> lim"
    "offset mod writesize M = 0" "nand_block_isbad M n' = nand_block_isbad M n"
    "\<And>i. i < len \<Longrightarrow> content n' (as ! i) = buffer ! i" "\<And>a. a \<notin> set as \<Longrightarrow> content n' a = content n a"
proof -
  note geo = keeps_geometry [OF assms(1)]
  note c = check_skip_len_spec [OF geo assms(3), of n offset]
  have al: "offset mod writesize M = 0"
    using assms(2) by (auto simp: nand_write_skip_bad_def geometryD(2) [OF geo, unfolded One_nat_def] split: if_splits)
  obtain as r where as: "skip_addrs M n offset len = Some as"
    and r: "check_skip_len M n offset len = Some (r, last as + 1 - offset)" "offset \<le> last as" "r = 0 \<or> r = 1"
      "r = 0 \<longrightarrow> as = [offset..<offset + len]"
    using c assms(2) by (auto simp: nand_write_skip_bad_def split: option.splits if_splits)
  have lim: "last as + 1 - offset \<le> lim" using assms(2) r(1,3) by (auto simp: nand_write_skip_bad_def split: if_splits)
  have er: "content n a = 0xFF" if "a \<in> set as" for a
    using skip_addrs_le_last [OF geo as that] skip_addrs_in(2) [OF geo as that] lim r(2) by (intro assms(5)) auto
  show ?thesis
  proof (cases "r = 0 \<and> flags AND WITH_DROP_FFS = 0")
    case True
    obtain rv l m where w: "nand_write M offset len buffer n = (rv, l, m)" by (metis prod_cases3)
    have e: "rv = 0" "len' = l" "n' = m" "actual = last as + 1 - offset"
      using assms(2) r(1) w True lim by (auto simp: nand_write_skip_bad_def split: if_splits)
    have u: "as = [offset..<offset + len]" using True r(4) by simp
    then have "offset + len \<le> mtd_size M" using contiguous_fits [OF geo _ assms(3)] as by simp
    then have k: "l = len" "nand_block_isbad M m = nand_block_isbad M n"
      "content m = (\<lambda>a. if offset \<le> a \<and> a < offset + len then buffer ! (a - offset) else content n a)"
      using keeps_write [OF assms(1) w [unfolded e(1)] assms(3) _ assms(4)] skip_addrs_in(2) [OF geo as] er by (auto simp: u)
    show ?thesis by (rule that [OF as]) (use e k lim al in \<open>auto simp: u\<close>)
  next
    case False
    obtain rv left m where w: "write_skip_loop M offset len buffer n = Some (rv, left, m)"
      "rv = 0 \<longrightarrow> left = 0 \<and> nand_block_isbad M m = nand_block_isbad M n \<and> (\<forall>i < len. content m (as ! i) = buffer ! i) \<and>
         (\<forall>a. a \<notin> set as \<longrightarrow> content m a = content n a)"
      using write_skip_spec [OF assms(1) as assms(4) _ refl] er by blast
    have "rv = 0" "n' = m" "len' = len - left" "actual = last as + 1 - offset"
      using assms(2) r(1,3) w(1) False lim by (auto simp: nand_write_skip_bad_def split: if_splits)
    then show ?thesis using that [OF as] w(2) lim al by simp
  qed
qed

lemma read_skip_bad_spec:
  assumes "mtd_keeps M content" "skip_addrs M n offset len = Some as" "0 < len" "last as + 1 - offset \<le> lim"
    "offset mod writesize M = 0" "length buf = len"
  shows "\<exists>n'. nand_read_skip_bad M offset len lim buf n = Some (0, len, last as + 1 - offset, map (content n) as, n')"
proof -
  note geo = keeps_geometry [OF assms(1)]
  obtain r where r: "check_skip_len M n offset len = Some (r, last as + 1 - offset)" "r = 0 \<or> r = 1"
      "r = 0 \<longrightarrow> as = [offset..<offset + len]"
    using check_skip_len_spec [OF geo assms(3), of n offset] assms(2) by auto
  have a: "offset AND (writesize M - Suc 0) = 0" using assms(5) geometryD(2) [OF geo, unfolded One_nat_def] by simp
  show ?thesis
  proof (cases "r = 0")
    case True
    then have u: "as = [offset..<offset + len]" using r(3) by simp
    have i: "offset + len \<le> mtd_size M" using contiguous_fits [OF geo assms(2) [unfolded u] assms(3)] .
    have gr: "good M n a" if "offset \<le> a" "a < offset + len" for a
      using skip_addrs_in(2) [OF geo assms(2), of a] that by (simp add: u)
    obtain rv m where m: "nand_read M offset len n = (rv, len, map (content n) [offset..<offset + len], m)"
      "rv = 0 \<or> rv = - E_UCLEAN"
      using keeps_read [OF assms(1,3) i gr] by metis
    have "arr_blit buf 0 (map (content n) [offset..<offset + len]) = Some (map (content n) [offset..<offset + len])"
      using arr_blit_eq [of 0 "map (content n) [offset..<offset + len]" buf] assms(6) by simp
    then show ?thesis using m r(1) True assms(4) a by (auto simp: nand_read_skip_bad_def u)
  next
    case False
    obtain m where m: "read_skip_loop M offset len 0 buf n = Some (0, 0, map (content n) as, m)"
      using read_skip_spec [OF assms(1,2) _ refl, of 0 buf] assms(6) by auto
    then show ?thesis using r(1,2) False assms(4) a by (auto simp: nand_read_skip_bad_def)
  qed
qed

lemma skip_addrs_cong:
  assumes "geometry M" "nand_block_isbad M n' = nand_block_isbad M n"
  shows "skip_addrs M n' off len = skip_addrs M n off len"
proof -
  have g: "good M n' = good M n" using assms(2) by (simp add: good_def fun_eq_iff)
  show ?thesis using assms(1)
  proof (induction off len rule: skip_induct [where n = n])
    case (good off len rest w)
    then show ?case using skip_addrs_good [OF good(1-5,7)] skip_addrs_good [of len off M n' rest w] by (simp add: g)
  next
    case (bad off len rest)
    then show ?case using skip_addrs_bad [OF bad(1-5)] skip_addrs_bad [of len off M n' rest] by (simp add: g)
  qed (auto simp: skip_addrs_0 skip_addrs_outside)
qed

text \<open>
  C7. An image written around bad blocks reads back: when \<open>nand_write_skip_bad\<close> reported success on an erased area, the
  read with the same offset, length and limit returns the image, the length and the same extent, whichever blocks are
  bad. Bad blocks, and everything outside the limit, keep their contents. The device has at most 4 GiB (part of \<open>geometry\<close>): above that
  the property fails, see \<open>write_above_4_GiB\<close> below. The operations of the chip driver obey \<open>mtd_keeps\<close>.
\<close>

theorem skip_bad_roundtrip:
  assumes "mtd_keeps M content" "nand_write_skip_bad M offset len lim img flags n = Some (0, len', actual, n1)"
    "0 < len" "len \<le> length img" "\<And>a. offset \<le> a \<Longrightarrow> a < offset + lim \<Longrightarrow> content n a = 0xFF" "length buf = len"
  shows "len' = len \<and> actual \<le> lim
    \<and> (\<exists>n2. nand_read_skip_bad M offset len lim buf n1 = Some (0, len, actual, take len img, n2))
    \<and> (\<forall>a. \<not> (good M n a \<and> offset \<le> a \<and> a < offset + lim) \<longrightarrow> content n1 a = content n a)"
proof -
  note geo = keeps_geometry [OF assms(1)]
  obtain as where as: "skip_addrs M n offset len = Some as" "len' = len" "actual = last as + 1 - offset" "actual \<le> lim"
    "offset mod writesize M = 0" "nand_block_isbad M n1 = nand_block_isbad M n"
    "\<And>i. i < len \<Longrightarrow> content n1 (as ! i) = img ! i" "\<And>a. a \<notin> set as \<Longrightarrow> content n1 a = content n a"
    by (rule write_skip_bad_spec [OF assms(1-5)]) auto
  have "skip_addrs M n1 offset len = Some as" using skip_addrs_cong [OF geo as(6)] as(1) by simp
  moreover have "map (content n1) as = take len img"
    using skip_addrs_in(1) [OF geo as(1)] as(7) assms(4) by (intro nth_equalityI) auto
  ultimately have "\<exists>n2. nand_read_skip_bad M offset len lim buf n1 = Some (0, len, actual, take len img, n2)"
    using read_skip_bad_spec [OF assms(1) _ assms(3) _ as(5) assms(6), of n1 as lim] as(3,4) by simp
  moreover have "content n1 a = content n a" if "\<not> (good M n a \<and> offset \<le> a \<and> a < offset + lim)" for a
    using that as(3,4,8) skip_addrs_in(2) [OF geo as(1), of a] skip_addrs_le_last [OF geo as(1), of a] by fastforce
  ultimately show ?thesis using as(2,4) by blast
qed

text \<open>An example flash of eight blocks of four bytes, of which the second one is bad.\<close>

definition ex_write :: "nat \<Rightarrow> nat \<Rightarrow> u8 list \<Rightarrow> u8 list \<Rightarrow> int \<times> nat \<times> u8 list" where
  "ex_write ofs len buf n =
     (if length n = 32 then (0, len, take ofs n @ take len buf @ drop (ofs + len) n) else (- 5, 0, n))"

definition ex_mtd :: "u8 list mtd_info" where
  "ex_mtd = \<lparr>mtd_size = 32, erasesize = 4, writesize = 2, mtd_writeable = True, ecc_strength = 1, bitflip_threshold = 1,
     oobavail = 0, op_erase = (\<lambda>addr len scrub n. (0, take addr n @ replicate len 0xFF @ drop (addr + len) n)),
     op_read = (\<lambda>ofs len n. (0, len, map (\<lambda>a. if a < length n then n ! a else 0xFF) [ofs..<ofs + len], n)),
     op_write = Some ex_write,
     op_write_oob = None, op_block_isbad = Some (\<lambda>n ofs. if ofs = 4 then 1 else 0),
     forget_bbt = (\<lambda>n. n), scan_bbt = (\<lambda>n. n)\<rparr>"

definition ex_content :: "u8 list \<Rightarrow> nat \<Rightarrow> u8" where
  "ex_content n a = (if a < length n then n ! a else 0xFF)"

lemma ex_mtd_geometry: "geometry ex_mtd"
  unfolding geometry_def
  by (auto simp: ex_mtd_def intro: exI [of _ 2] exI [of _ 1])

lemma ex_mtd_fields:
  "mtd_size ex_mtd = 32" "op_write ex_mtd = Some ex_write" "mtd_writeable ex_mtd" "erasesize ex_mtd = 4"
  "op_read ex_mtd ofs len n = (0, len, map (ex_content n) [ofs..<ofs + len], n)"
  "nand_block_isbad ex_mtd n = nand_block_isbad ex_mtd n'"
  by (auto simp: ex_mtd_def ex_content_def nand_block_isbad_def mtd_block_isbad_def fun_eq_iff)

lemma ex_write_content:
  "ex_write ofs len buf n = (0, l, n') \<Longrightarrow> ofs + len \<le> 32 \<Longrightarrow> len \<le> length buf \<Longrightarrow>
   l = len \<and> ex_content n' = (\<lambda>a. if ofs \<le> a \<and> a < ofs + len then buf ! (a - ofs) else ex_content n a)"
  by (auto simp: ex_write_def ex_content_def fun_eq_iff nth_append split: if_splits)

lemma ex_mtd_keeps: "mtd_keeps ex_mtd ex_content"
  unfolding mtd_keeps_def ex_mtd_fields(1,2,5) option.inject
  using ex_mtd_geometry ex_mtd_fields(3) ex_mtd_fields(6) ex_write_content by auto

theorem skip_bad_roundtrip_witness:
  "\<exists>n1 n2. nand_write_skip_bad ex_mtd 2 5 12 [1, 2, 3, 4, 5] 0 (replicate 32 0xFF) = Some (0, 5, 9, n1)
    \<and> nand_read_skip_bad ex_mtd 2 5 12 [0, 0, 0, 0, 0] n1 = Some (0, 5, 9, [1, 2, 3, 4, 5], n2)"
proof -
  define n1 :: "u8 list" where
    "n1 = [0xFF, 0xFF, 1, 2, 0xFF, 0xFF, 0xFF, 0xFF, 3, 4, 5] @ replicate 21 0xFF"
  have w: "nand_write_skip_bad ex_mtd 2 5 12 [1, 2, 3, 4, 5] 0 (replicate 32 0xFF) = Some (0, 5, 9, n1)"
    unfolding n1_def by code_simp
  have "ex_content (replicate 32 0xFF) a = 0xFF" for a by (simp add: ex_content_def)
  with skip_bad_roundtrip [OF ex_mtd_keeps w, of "[0, 0, 0, 0, 0]"] w show ?thesis by auto
qed

text \<open>
  A write that does not fit the device: the comment of the function promises that both lengths are set to 0, the code
  returns the extent up to the end of the device in \<open>actual\<close>.
\<close>

lemma write_outside_actual:
  "map_option (\<lambda>(rval, len, actual, n). (rval, len, actual)) (nand_write_skip_bad ex_mtd 30 4 100 [1, 2, 3, 4] 0 (replicate 32 0xFF)) =
     Some (- 22, 0, 2)"
  by code_simp

subsection \<open>Erasing\<close>

text \<open>
  What the code relies on: the bad-block table answers inside the device, and an erase of a good block succeeds, clears it and changes nothing else.
\<close>

definition mtd_erases :: "'n mtd_info \<Rightarrow> ('n \<Rightarrow> nat \<Rightarrow> u8) \<Rightarrow> bool" where
  "mtd_erases M content \<longleftrightarrow>
     (\<forall>n ofs. ofs < mtd_size M \<longrightarrow> 0 \<le> nand_block_isbad M n ofs) \<and>
     (\<forall>n addr. addr mod erasesize M = 0 \<longrightarrow> addr + erasesize M \<le> mtd_size M \<longrightarrow> good M n addr \<longrightarrow>
        (\<exists>n'. op_erase M addr (erasesize M) False n = (0, n') \<and> nand_block_isbad M n' = nand_block_isbad M n \<and>
           content n' = (\<lambda>a. if addr \<le> a \<and> a < addr + erasesize M then 0xFF else content n a)))"

lemma erase_loop_erases:
  assumes "mtd_keeps M content" "mtd_erases M content"
  shows "addr mod erasesize M = 0 \<Longrightarrow> addr + k * erasesize M \<le> mtd_size M \<Longrightarrow> e + k = t \<Longrightarrow>
    \<exists>n'. erase_loop M (plain_erase offset len) addr e t n = Some (0, n') \<and> nand_block_isbad M n' = nand_block_isbad M n \<and>
      content n' = (\<lambda>a. if addr \<le> a \<and> a < addr + k * erasesize M \<and> good M n a then 0xFF else content n a)"
proof (induction k arbitrary: addr e n)
  case 0
  then show ?case by (subst erase_loop.simps) (auto simp: fun_eq_iff)
next
  case (Suc k)
  let ?es = "erasesize M"
  note geo = keeps_geometry [OF assms(1)]
  have es: "0 < ?es" using geometryD(3) [OF geo] .
  have in_dev: "addr + ?es \<le> mtd_size M" "addr < mtd_size M" "\<not> mtd_size M - addr < ?es" using Suc.prems(2) es by auto
  have wr: "mtd_writeable M" using assms(1) unfolding mtd_keeps_def by blast
  have nxt: "(addr + ?es) mod ?es = 0" "addr + ?es + k * ?es \<le> mtd_size M" "Suc e + k = t" using Suc.prems by simp_all
  have same: "good M n a = good M n addr" if "addr \<le> a" "a < addr + ?es" for a
    using that Suc.prems(1) by (intro same_block) simp_all
  have g: "good M n addr \<longleftrightarrow> mtd_block_isbad M n addr = 0"
    using Suc.prems(1) by (simp add: good_def nand_block_isbad_def)
  have nn: "0 \<le> mtd_block_isbad M n addr" using assms(2) in_dev(2) unfolding mtd_erases_def nand_block_isbad_def by blast
  show ?case
  proof (cases "good M n addr")
    case True
    then have "\<exists>n1. op_erase M addr ?es False n = (0, n1) \<and> nand_block_isbad M n1 = nand_block_isbad M n \<and>
      content n1 = (\<lambda>a. if addr \<le> a \<and> a < addr + ?es then 0xFF else content n a)"
      using assms(2) Suc.prems(1) in_dev(1) unfolding mtd_erases_def by simp
    then obtain n1 where n1: "op_erase M addr ?es False n = (0, n1)" "nand_block_isbad M n1 = nand_block_isbad M n"
      "content n1 = (\<lambda>a. if addr \<le> a \<and> a < addr + ?es then 0xFF else content n a)" by (elim exE conjE)
    have g1: "good M n1 = good M n" using n1(2) by (simp add: good_def fun_eq_iff)
    have "erase_loop M (plain_erase offset len) addr e t n = erase_loop M (plain_erase offset len) (addr + ?es) (Suc e) t n1"
      using Suc.prems(3) True g n1(1) in_dev wr es by (subst erase_loop.simps) (simp add: plain_erase_def mtd_erase_def)
    then show ?thesis using Suc.IH [OF nxt, of n1] n1(2,3) True same
      by (auto simp: g1 fun_eq_iff)
  next
    case False
    then have "mtd_block_isbad M n addr > 0" using g nn by simp
    then have "erase_loop M (plain_erase offset len) addr e t n = erase_loop M (plain_erase offset len) (addr + ?es) (Suc e) t n"
      using Suc.prems(3) by (subst erase_loop.simps) (simp add: plain_erase_def)
    then show ?thesis using Suc.IH [OF nxt, of n] False same by (auto simp: fun_eq_iff)
  qed
qed

lemma erase_opts_erases:
  assumes "mtd_keeps M content" "mtd_erases M content" "offset mod erasesize M = 0"
    "k = (len + erasesize M - 1) div erasesize M" "offset + k * erasesize M \<le> mtd_size M"
  shows "\<exists>n'. nand_erase_opts M (plain_erase offset len) n = Some (0, n') \<and> nand_block_isbad M n' = nand_block_isbad M n \<and>
    content n' = (\<lambda>a. if offset \<le> a \<and> a < offset + k * erasesize M \<and> good M n a then 0xFF else content n a)"
proof -
  have "offset AND (erasesize M - Suc 0) = 0"
    using assms(3) geometryD(1) [OF keeps_geometry [OF assms(1)], unfolded One_nat_def] by simp
  then have "nand_erase_opts M (plain_erase offset len) n = erase_loop M (plain_erase offset len) offset 0 k n"
    by (cases "erase_loop M (plain_erase offset len) offset 0 k n")
      (auto simp: nand_erase_opts_def plain_erase_def Let_def assms(4))
  then show ?thesis using erase_loop_erases [OF assms(1-3,5), of 0 k] by simp
qed

text \<open>One block that was erased and written without an error reads back.\<close>

lemma block_roundtrip:
  assumes "mtd_keeps M content" "mtd_erases M content" "off mod erasesize M = 0" "off + erasesize M \<le> mtd_size M"
    "length bytes = erasesize M" "length buf = erasesize M"
    "nand_erase_opts M (plain_erase off (erasesize M)) n = Some (0, n1)" "nand_block_isbad M n1 off = 0"
    "nand_write M off (erasesize M) bytes n1 = (0, len, n2)"
  shows "nand_block_isbad M n2 off = 0"
    "\<exists>n3 act. nand_read_skip_bad M off (erasesize M) (mtd_size M) buf n2 = Some (0, erasesize M, act, bytes, n3)"
proof -
  define es where es: "es = erasesize M"
  note geo = keeps_geometry [OF assms(1)]
  have p: "0 < es" using geometryD(3) [OF geo] by (simp add: es)
  have k: "1 = (es + es - 1) div es" using p by (intro div_nat_eqI [symmetric]) auto
  have n1: "nand_block_isbad M n1 = nand_block_isbad M n"
      "content n1 = (\<lambda>a. if off \<le> a \<and> a < off + es \<and> good M n a then 0xFF else content n a)"
    using erase_opts_erases [OF assms(1-3) k [unfolded es], of n] assms(4,7) by (simp_all add: es)
  have g: "good M n1 = good M n" using n1(1) by (simp add: good_def fun_eq_iff)
  have gb: "good M n1 off" using assms(3,8) by (simp add: good_def)
  have gr: "good M n1 a" if "off \<le> a" "a < off + es" for a
    using same_block [of off a M n1] that gb assms(3) by (simp add: es)
  have er: "good M n1 a \<and> content n1 a = 0xFF" if "off \<le> a" "a < off + erasesize M" for a
    using gr [of a] that by (simp add: n1(2) g es)
  have n2: "nand_block_isbad M n2 = nand_block_isbad M n1"
      "content n2 = (\<lambda>a. if off \<le> a \<and> a < off + es then bytes ! (a - off) else content n1 a)"
    using keeps_write [OF assms(1,9) _ assms(4) _ er] assms(5) p by (simp_all add: es)
  show "nand_block_isbad M n2 off = 0" using assms(8) n2(1) by simp
  have "good M n2 off" using gb n2(1) by (simp add: good_def)
  then have as: "skip_addrs M n2 off es = Some [off..<off + es]"
    using skip_addrs_good [of es off M n2 es es] assms(3,4) p by (simp add: skip_addrs_0 es)
  have "map (content n2) [off..<off + es] = bytes"
    using assms(5) by (intro nth_equalityI) (simp_all add: n2(2) es)
  moreover have "off mod writesize M = 0"
    using geo assms(3) unfolding geometry_def by (metis dvd_imp_mod_0 dvd_trans mod_0_imp_dvd)
  moreover have "last [off..<off + es] + 1 - off \<le> mtd_size M" using p assms(4) by (simp add: es)
  ultimately show "\<exists>n3 act. nand_read_skip_bad M off (erasesize M) (mtd_size M) buf n2 = Some (0, erasesize M, act, bytes, n3)"
    using read_skip_bad_spec [OF assms(1) as p, of "mtd_size M" buf] assms(6) by (auto simp: es)
qed

text \<open>A flash whose state is its contents, without errors.\<close>

definition ideal_flash :: "nat \<Rightarrow> nat \<Rightarrow> nat \<Rightarrow> (nat \<Rightarrow> bool) \<Rightarrow> (nat \<Rightarrow> u8) mtd_info" where
  "ideal_flash sz es ws bad = \<lparr>mtd_size = sz, erasesize = es, writesize = ws, mtd_writeable = True, ecc_strength = 1,
     bitflip_threshold = 1, oobavail = 0,
     op_erase = (\<lambda>addr len scrub n. (0, \<lambda>a. if addr \<le> a \<and> a < addr + len then 0xFF else n a)),
     op_read = (\<lambda>ofs len n. (0, len, map n [ofs..<ofs + len], n)),
     op_write = Some (\<lambda>ofs len buf n. (0, len, \<lambda>a. if ofs \<le> a \<and> a < ofs + len then buf ! (a - ofs) else n a)),
     op_write_oob = None, op_block_isbad = Some (\<lambda>n ofs. if bad ofs then 1 else 0),
     forget_bbt = (\<lambda>n. n), scan_bbt = (\<lambda>n. n)\<rparr>"

lemma ideal_flash_ok:
  assumes "geometry (ideal_flash sz es ws bad)"
  shows "mtd_keeps (ideal_flash sz es ws bad) (\<lambda>n. n)" "mtd_erases (ideal_flash sz es ws bad) (\<lambda>n. n)"
proof -
  have i: "nand_block_isbad (ideal_flash sz es ws bad) n = nand_block_isbad (ideal_flash sz es ws bad) n'" for n n'
    by (simp add: ideal_flash_def nand_block_isbad_def mtd_block_isbad_def fun_eq_iff)
  show "mtd_keeps (ideal_flash sz es ws bad) (\<lambda>n. n)"
    unfolding mtd_keeps_def using assms i by (simp add: ideal_flash_def)
  have "0 \<le> nand_block_isbad (ideal_flash sz es ws bad) n ofs" if "ofs < sz" for n ofs
    using that by (simp add: ideal_flash_def nand_block_isbad_def mtd_block_isbad_def)
  then show "mtd_erases (ideal_flash sz es ws bad) (\<lambda>n. n)"
    unfolding mtd_erases_def using i by (simp add: ideal_flash_def)
qed

text \<open>
  A device of 8 GiB whose block at 4 GiB is bad. The check of the length sees the bad block, the loop masks the upper half of
  the offset away, asks for the block at 0 instead, and writes into the bad block.
\<close>

lemma write_above_4_GiB:
  "\<exists>n'. nand_write_skip_bad (ideal_flash (2 ^ 33) (2 ^ 30) 2048 (\<lambda>ofs. ofs = 2 ^ 32)) (2 ^ 32) 1 (2 ^ 33) [5] 0 (\<lambda>a. 0xFF) =
       Some (0, 1, 2 ^ 30 + 1, n') \<and> n' (2 ^ 32) = 5"
proof -
  let ?M = "ideal_flash (2 ^ 33) (2 ^ 30) 2048 (\<lambda>ofs. ofs = 2 ^ 32)"
  have m: "(4294967296::nat) AND 1073741823 = 0" "(5368709120::nat) AND 1073741823 = 0" "(4294967296::nat) AND 2047 = 0" by simp_all
  have c: "check_skip_len ?M (\<lambda>a. 0xFF) (2 ^ 32) 1 = Some (1, 2 ^ 30 + 1)"
    unfolding check_skip_len_def
    by (subst check_skip_loop.simps, simp add: ideal_flash_def m nand_block_isbad_def mtd_block_isbad_def,
        subst check_skip_loop.simps, simp add: m nand_block_isbad_def mtd_block_isbad_def,
        subst check_skip_loop.simps, simp)
  have w: "write_skip_loop ?M (2 ^ 32) 1 [5] (\<lambda>a. 0xFF) =
      Some (0, 0, \<lambda>a. if 4294967296 \<le> a \<and> a < 4294967297 then [5] ! (a - 4294967296) else 0xFF)"
    by (subst write_skip_loop.simps, simp add: ideal_flash_def masked_start_def m nand_block_isbad_def mtd_block_isbad_def
        nand_write_def mtd_write_def, subst write_skip_loop.simps, simp)
  show ?thesis unfolding nand_write_skip_bad_def c w by (simp add: ideal_flash_def m)
qed

text \<open>A failing erase is reported on the console only: the call still returns success.\<close>

lemma erase_failure_ignored:
  "nand_erase_opts (ex_mtd\<lparr>op_erase := \<lambda>addr len scrub n. (- 5, n)\<rparr>) (plain_erase 8 8) (replicate 32 0) =
     Some (0, replicate 32 0)"
  by code_simp
end
