(* ===== verification/Environment.thy ===== *)
theory Environment
  imports Env_Text Crc32 Skip_Bad
begin

unbundle bit_operations_syntax

text \<open>
  The environment of U-Boot: its variables (\<open>getenv\<close>, \<open>setenv\<close> of \<^verbatim>\<open>common/cmd_nvedit.c\<close>), its import with
  the check of the checksum (\<^verbatim>\<open>common/env_common.c\<close>) and its place in the NAND flash (\<^verbatim>\<open>common/env_nand.c\<close>), for the
  configuration of the board (\<^verbatim>\<open>include/configs/smdkv210.h\<close>): one copy of 128 KiB at offset 256 KiB. The
  global data that the code uses is a record; \<open>env_addr\<close> is the text it points at. The default environment
  is generated from the configuration and is the argument \<open>D\<close>. The flash is reached through the transfers around bad blocks
  and the MTD layer, over the operations \<open>M\<close> of the chip driver. Messages are not modelled.
\<close>

abbreviation (input) CONFIG_ENV_SIZE :: nat where "CONFIG_ENV_SIZE \<equiv> 0x20000"
abbreviation (input) CONFIG_ENV_RANGE :: nat where "CONFIG_ENV_RANGE \<equiv> 0x20000"
abbreviation (input) CONFIG_ENV_OFFSET :: nat where "CONFIG_ENV_OFFSET \<equiv> 0x40000"
abbreviation (input) ENV_HEADER_SIZE :: nat where "ENV_HEADER_SIZE \<equiv> 4"
abbreviation (input) ENV_SIZE :: nat where "ENV_SIZE \<equiv> 0x1FFFC"

record gdata =
  env_htab :: hsearch_data
  env_ready :: bool
  relocated :: bool
  env_addr :: "u8 list"
  env_valid :: u32
  env_buf :: "u8 list"
  env_id :: int

subsection \<open>Before the import\<close>

definition env_get_char_spec :: "gdata \<Rightarrow> nat \<Rightarrow> u8 option" where
  "env_get_char_spec g index = arr_get (env_addr g) index"

definition env_get_char_init :: "u8 list \<Rightarrow> gdata \<Rightarrow> nat \<Rightarrow> u8 option" where
  "env_get_char_init D g index =
     (if env_valid g \<noteq> 0 then env_get_char_spec g index else arr_get D index)"

definition env_get_addr :: "u8 list \<Rightarrow> gdata \<Rightarrow> nat \<Rightarrow> u8 list" where
  "env_get_addr D g index = (if env_valid g \<noteq> 0 then drop index (env_addr g) else drop index D)"

definition env_get_char_memory :: "u8 list \<Rightarrow> gdata \<Rightarrow> nat \<Rightarrow> u8 option" where
  "env_get_char_memory D g index = arr_get (env_get_addr D g index) 0"

definition env_get_char :: "u8 list \<Rightarrow> gdata \<Rightarrow> nat \<Rightarrow> u8 option" where
  "env_get_char D g index =
     (if relocated g then env_get_char_memory D g index else env_get_char_init D g index)"

text \<open>
  The comparison of a name with the text at an index: the loop over both, from position \<open>p\<close> of the name with its
  terminator; the function \<open>get\<close> reads a character of the text.
\<close>

function envmatch_loop :: "(nat \<Rightarrow> u8 option) \<Rightarrow> u8 list \<Rightarrow> nat \<Rightarrow> nat \<Rightarrow> int option" where
  "envmatch_loop get s1 p i2 = do {
     x \<leftarrow> arr_get s1 p;
     c \<leftarrow> get i2;
     if x = c then if x = 61 then Some (int (i2 + 1)) else envmatch_loop get s1 (p + 1) (i2 + 1)
     else if x = 0 \<and> c = 61 then Some (int (i2 + 1))
     else Some (-1)
   }"
  by pat_completeness auto
termination
  by (relation "measure (\<lambda>(get, s1, p, i2). length s1 - p)") (auto simp: arr_get_Some_iff)

definition envmatch :: "(nat \<Rightarrow> u8 option) \<Rightarrow> str option \<Rightarrow> nat \<Rightarrow> int option" where
  "envmatch get s1 i2 = (case s1 of
     None \<Rightarrow> Some (-1)
   | Some s1 \<Rightarrow> envmatch_loop get (s1 @ [0]) 0 i2)"

text \<open>The end of the entry, or none when the text is too long.\<close>

function getenv_next :: "(nat \<Rightarrow> u8 option) \<Rightarrow> nat \<Rightarrow> nat option option" where
  "getenv_next get nxt = do {
     c \<leftarrow> get nxt;
     if c \<noteq> 0 then if nxt \<ge> CONFIG_ENV_SIZE then Some None else getenv_next get (nxt + 1)
     else Some (Some nxt)
   }"
  by pat_completeness auto
termination
  by (relation "measure (\<lambda>(get, nxt). CONFIG_ENV_SIZE - nxt)") auto

declare envmatch_loop.simps [simp del] getenv_next.simps [simp del]

lemma getenv_next_ge: "getenv_next get i = Some (Some n) \<Longrightarrow> i \<le> n \<and> (i = n \<or> i < CONFIG_ENV_SIZE)"
proof (induction get i rule: getenv_next.induct)
  case (1 get i)
  show ?case using "1.prems" "1.IH"
    by (subst (asm) (1) getenv_next.simps) (fastforce simp: bind_eq_Some_conv split: if_splits)
qed

text \<open>Copying the value: the number of characters before the terminator, or the full length.\<close>

fun getenv_copy :: "nat \<Rightarrow> (nat \<Rightarrow> u8 option) \<Rightarrow> nat \<Rightarrow> nat \<Rightarrow> u8 list \<Rightarrow> (nat \<times> u8 list) option" where
  "getenv_copy 0 get val n buf =
     (if n \<noteq> 0 then do { buf \<leftarrow> arr_set buf (n - 1) 0; Some (n, buf) } else Some (n, buf))"
| "getenv_copy (Suc k) get val n buf = do {
     c \<leftarrow> get val;
     buf \<leftarrow> arr_set buf n c;
     if c = 0 then Some (n, buf) else getenv_copy k get (val + 1) (n + 1) buf
   }"

function getenv_f_loop :: "(nat \<Rightarrow> u8 option) \<Rightarrow> str \<Rightarrow> nat \<Rightarrow> u8 list \<Rightarrow> nat \<Rightarrow> (int \<times> u8 list) option" where
  "getenv_f_loop get name i buf len = do {
     c \<leftarrow> get i;
     if c = 0 then Some (-1, buf)
     else (case getenv_next get i of
         None \<Rightarrow> None
       | Some None \<Rightarrow> Some (-1, buf)
       | Some (Some nxt) \<Rightarrow> do {
           val \<leftarrow> envmatch get (Some name) i;
           if val < 0 then getenv_f_loop get name (nxt + 1) buf len
           else do { (n, buf) \<leftarrow> getenv_copy len get (nat val) 0 buf; Some (int n, buf) }
         })
   }"
  by pat_completeness auto
termination
proof (relation "measure (\<lambda>(get, name, i, buf, len). CONFIG_ENV_SIZE + 1 - i)", goal_cases)
  case (2 get name i buf len c o n val)
  from 2(3-4) have n: "getenv_next get i = Some (Some n)" by simp
  have "i \<noteq> n"
  proof
    assume "i = n"
    with n 2(1,2) show False by (subst (asm) getenv_next.simps) (auto split: if_splits dest: getenv_next_ge)
  qed
  then show ?case using getenv_next_ge [OF n] by auto
qed simp

declare getenv_f_loop.simps [simp del]

definition getenv_f :: "u8 list \<Rightarrow> gdata \<Rightarrow> str \<Rightarrow> u8 list \<Rightarrow> nat \<Rightarrow> (int \<times> u8 list) option" where
  "getenv_f D g name buf len = getenv_f_loop (env_get_char D g) name 0 buf len"

subsection \<open>Variables\<close>

text \<open>The string at the beginning of a buffer.\<close>

definition buf_str :: "u8 list \<Rightarrow> str" where
  "buf_str buf = takeWhile (\<lambda>c. c \<noteq> 0) buf"

definition getenv :: "env_hooks \<Rightarrow> u8 list \<Rightarrow> str \<Rightarrow> gdata \<Rightarrow> (str option \<times> gdata) option" where
  "getenv E D name g =
     (if env_ready g then do {
        (_, ep, h) \<leftarrow> hsearch_r E (key_item name) FIND (env_htab g) 0;
        let g = g\<lparr>env_htab := h\<rparr>;
        case ep of
          None \<Rightarrow> Some (None, g)
        | Some i \<Rightarrow> do { t \<leftarrow> table h; s \<leftarrow> arr_get t i; Some (data (entry s), g) }
      }
      else do {
        (n, buf) \<leftarrow> getenv_f D g name (env_buf g) 32;
        let g = g\<lparr>env_buf := buf\<rparr>;
        if n > 0 then Some (Some (buf_str buf), g) else Some (None, g)
      })"

text \<open>The options in front of the name: the flags with the remaining words, or none for a usage error.\<close>

fun set_options :: "str list \<Rightarrow> u32 \<Rightarrow> (str list \<times> u32) option" where
  "set_options [] f = Some ([], f)"
| "set_options (arg # args) f =
     (if arg \<noteq> [] \<and> hd arg = 45 then
        if list_all (\<lambda>c. c = 102) (tl arg) then set_options args (if tl arg = [] then f else f OR H_FORCE)
        else None
      else Some (arg # args, f))"

text \<open>The words of the value, joined by blanks.\<close>

fun join_args :: "str list \<Rightarrow> str" where
  "join_args [] = []"
| "join_args [v] = v"
| "join_args (v # vs) = v @ [32] @ join_args vs"

text \<open>The words after the command name; without a name the code reads through a null pointer.\<close>

definition do_env_set :: "env_hooks \<Rightarrow> str list \<Rightarrow> gdata \<Rightarrow> (int \<times> gdata) option" where
  "do_env_set E args g = (case set_options args H_INTERACTIVE of
     None \<Rightarrow> Some (-1, g)
   | Some ([], env_flag) \<Rightarrow> None
   | Some (name # rest, env_flag) \<Rightarrow>
       if 61 \<in> set name then Some (1, g)
       else do {
         let g = g\<lparr>env_id := env_id g + 1\<rparr>;
         if rest = [] then do {
           (rc, h) \<leftarrow> hdelete_r E name (env_htab g) env_flag;
           Some (if rc = 0 then 1 else 0, g\<lparr>env_htab := h\<rparr>)
         }
         else do {
           let h = env_htab g;
           let ok = alloc E (allocs h);
           let h = h\<lparr>allocs := allocs h + 1\<rparr>;
           if \<not> ok then Some (1, g\<lparr>env_htab := h\<rparr>)
           else do {
             (_, ep, h) \<leftarrow> hsearch_r E \<lparr>key = Some name, data = Some (join_args rest), callback = None, flags = 0\<rparr> ENTER h env_flag;
             Some (if ep = None then 1 else 0, g\<lparr>env_htab := h\<rparr>)
           }
         }
       })"

definition setenv :: "env_hooks \<Rightarrow> str \<Rightarrow> str option \<Rightarrow> gdata \<Rightarrow> (int \<times> gdata) option" where
  "setenv E varname varvalue g =
     (if \<not> env_ready g then Some (1, g)
      else case varvalue of
        None \<Rightarrow> do_env_set E [varname] g
      | Some v \<Rightarrow> if v = [] then do_env_set E [varname] g else do_env_set E [varname, v] g)"

definition getenv_yesno :: "env_hooks \<Rightarrow> u8 list \<Rightarrow> str \<Rightarrow> gdata \<Rightarrow> (int \<times> gdata) option" where
  "getenv_yesno E D var g = do {
     (s, g) \<leftarrow> getenv E D var g;
     case s of
       None \<Rightarrow> Some (-1, g)
     | Some s \<Rightarrow> Some (if s \<noteq> [] \<and> hd s \<in> {49, 121, 89, 116, 84} then 1 else 0, g)
   }"

definition getenv_default :: "env_hooks \<Rightarrow> u8 list \<Rightarrow> str \<Rightarrow> gdata \<Rightarrow> (str option \<times> gdata) option" where
  "getenv_default E D name g = do {
     let really_valid = env_valid g;
     let real_gd_flags = env_ready g;
     (ret_val, g) \<leftarrow> getenv E D name (g\<lparr>env_ready := False, env_valid := 0\<rparr>);
     Some (ret_val, g\<lparr>env_valid := really_valid, env_ready := real_gd_flags\<rparr>)
   }"

subsection \<open>Import\<close>

definition set_default_env :: "env_hooks \<Rightarrow> u8 list \<Rightarrow> str option \<Rightarrow> gdata \<Rightarrow> gdata option" where
  "set_default_env E D s g =
     (if length D > ENV_SIZE then Some g
      else do {
        let fl = (case s of Some (c # _) \<Rightarrow> if c = 33 then 0 else H_INTERACTIVE | Some [] \<Rightarrow> H_INTERACTIVE | None \<Rightarrow> 0);
        (_, h) \<leftarrow> himport_r E (env_htab g) D (length D) 0 fl [];
        Some (g\<lparr>env_htab := h, env_ready := True\<rparr>)
      })"

definition set_default_vars :: "env_hooks \<Rightarrow> u8 list \<Rightarrow> str list \<Rightarrow> gdata \<Rightarrow> (int \<times> gdata) option" where
  "set_default_vars E D vars g = do {
     (r, h) \<leftarrow> himport_r E (env_htab g) D (length D) 0 (H_NOCLEAR OR H_INTERACTIVE) vars;
     Some (r, g\<lparr>env_htab := h\<rparr>)
   }"

text \<open>An image is the checksum, lowest byte first, and the text; \<open>a\<close> is the address of the text.\<close>

definition env_import :: "env_hooks \<Rightarrow> u8 list \<Rightarrow> u32 \<Rightarrow> u8 list \<Rightarrow> bool \<Rightarrow> gdata \<Rightarrow> (int \<times> gdata) option" where
  "env_import E D a buf check g = do {
     bad \<leftarrow> (if check then do {
               crc \<leftarrow> load32 buf 0;
               c \<leftarrow> crc32 0 a (drop ENV_HEADER_SIZE buf) (of_nat ENV_SIZE);
               Some (c \<noteq> crc)
             } else Some False);
     if bad then do {
       g \<leftarrow> set_default_env E D (Some (bytes_of ''!bad CRC'')) g;
       Some (0, g)
     }
     else do {
       (r, h) \<leftarrow> himport_r E (env_htab g) (drop ENV_HEADER_SIZE buf) ENV_SIZE 0 0 [];
       let g = g\<lparr>env_htab := h\<rparr>;
       if r \<noteq> 0 then Some (1, g\<lparr>env_ready := True\<rparr>)
       else do {
         g \<leftarrow> set_default_env E D (Some (bytes_of ''!import failed'')) g;
         Some (0, g)
       }
     }
   }"

subsection \<open>The environment in the flash\<close>

definition env_init :: "u8 list \<Rightarrow> gdata \<Rightarrow> int \<times> gdata" where
  "env_init D g = (0, g\<lparr>env_addr := D, env_valid := 1\<rparr>)"

partial_function (option) writeenv_loop ::
  "'n mtd_info \<Rightarrow> nat \<Rightarrow> nat \<Rightarrow> nat \<Rightarrow> nat \<Rightarrow> u8 list \<Rightarrow> 'n \<Rightarrow> (bool \<times> nat \<times> 'n) option" where
  "writeenv_loop M offset fin amount_saved len buf n =
     (if amount_saved < CONFIG_ENV_SIZE \<and> offset < fin then
        if nand_block_isbad M n offset \<noteq> 0 then writeenv_loop M (offset + erasesize M) fin amount_saved len buf n
        else
          (case nand_write M offset len (drop amount_saved buf) n of
             (rval, len, n) \<Rightarrow>
               if rval \<noteq> 0 then Some (True, amount_saved, n)
               else writeenv_loop M (offset + erasesize M) fin (amount_saved + len) len buf n)
      else Some (False, amount_saved, n))"

definition writeenv :: "'n mtd_info \<Rightarrow> nat \<Rightarrow> u8 list \<Rightarrow> 'n \<Rightarrow> (int \<times> 'n) option" where
  "writeenv M offset buf n = do {
     let fin = offset + CONFIG_ENV_RANGE;
     let len = min (erasesize M) CONFIG_ENV_SIZE;
     (failed, amount_saved, n) \<leftarrow> writeenv_loop M offset fin 0 len buf n;
     if failed then Some (1, n)
     else if amount_saved \<noteq> CONFIG_ENV_SIZE then Some (1, n)
     else Some (0, n)
   }"

definition erase_and_write_env :: "'n mtd_info \<Rightarrow> nand_erase_options \<Rightarrow> u8 list \<Rightarrow> 'n \<Rightarrow> (int \<times> 'n) option" where
  "erase_and_write_env M erase_opts env_new n = do {
     (ret, n) \<leftarrow> nand_erase_opts M erase_opts n;
     if ret \<noteq> 0 then Some (1, n) else writeenv M (opt_offset erase_opts) env_new n
   }"

text \<open>
  The image is built in a buffer on the stack, whose old contents are the argument \<open>stk\<close>; \<open>a\<close> is the address of its text.
\<close>

definition saveenv ::
  "env_hooks \<Rightarrow> 'n mtd_info \<Rightarrow> u32 \<Rightarrow> u8 list \<Rightarrow> gdata \<Rightarrow> 'n \<Rightarrow> (int \<times> gdata \<times> 'n) option" where
  "saveenv E M a stk g n =
     (if CONFIG_ENV_RANGE < CONFIG_ENV_SIZE then Some (1, g, n)
      else do {
        (len, res, h) \<leftarrow> hexport_r E (env_htab g) 0 0 (Some (drop ENV_HEADER_SIZE stk)) ENV_SIZE [];
        let g = g\<lparr>env_htab := h\<rparr>;
        if len < 0 then Some (1, g, n)
        else do {
          dat \<leftarrow> res;
          crc \<leftarrow> crc32 0 a dat (of_nat ENV_SIZE);
          let env_new = [ucast crc, ucast (drop_bit 8 crc), ucast (drop_bit 16 crc), ucast (drop_bit 24 crc)] @ dat;
          (ret, n) \<leftarrow> erase_and_write_env M (plain_erase CONFIG_ENV_OFFSET CONFIG_ENV_RANGE) env_new n;
          Some (ret, g, n)
        }
      })"

partial_function (option) readenv_loop ::
  "'n mtd_info \<Rightarrow> nat \<Rightarrow> nat \<Rightarrow> nat \<Rightarrow> nat \<Rightarrow> u8 list \<Rightarrow> 'n \<Rightarrow> (bool \<times> nat \<times> u8 list \<times> 'n) option" where
  "readenv_loop M offset fin amount_loaded len buf n =
     (if amount_loaded < CONFIG_ENV_SIZE \<and> offset < fin then
        if nand_block_isbad M n offset \<noteq> 0 then readenv_loop M (offset + erasesize M) fin amount_loaded len buf n
        else do {
          (rval, len, _, rest, n) \<leftarrow> nand_read_skip_bad M offset len (mtd_size M) (drop amount_loaded buf) n;
          let buf = take amount_loaded buf @ rest;
          if rval \<noteq> 0 then Some (True, amount_loaded, buf, n)
          else readenv_loop M (offset + erasesize M) fin (amount_loaded + len) len buf n
        }
      else Some (False, amount_loaded, buf, n))"

definition readenv :: "'n mtd_info \<Rightarrow> nat \<Rightarrow> u8 list \<Rightarrow> 'n \<Rightarrow> (int \<times> u8 list \<times> 'n) option" where
  "readenv M offset buf n =
     (if erasesize M = 0 then Some (1, buf, n)
      else do {
        let fin = offset + CONFIG_ENV_RANGE;
        let len = min (erasesize M) CONFIG_ENV_SIZE;
        (failed, amount_loaded, buf, n) \<leftarrow> readenv_loop M offset fin 0 len buf n;
        if failed then Some (1, buf, n)
        else if amount_loaded \<noteq> CONFIG_ENV_SIZE then Some (1, buf, n)
        else Some (0, buf, n)
      })"

definition env_relocate_spec ::
  "env_hooks \<Rightarrow> 'n mtd_info \<Rightarrow> u8 list \<Rightarrow> u32 \<Rightarrow> u8 list \<Rightarrow> gdata \<Rightarrow> 'n \<Rightarrow> (gdata \<times> 'n) option" where
  "env_relocate_spec E M D a stk g n = do {
     (ret, buf, n) \<leftarrow> readenv M CONFIG_ENV_OFFSET stk n;
     if ret \<noteq> 0 then do {
       g \<leftarrow> set_default_env E D (Some (bytes_of ''!readenv() failed'')) g;
       Some (g, n)
     }
     else do {
       (_, g) \<leftarrow> env_import E D a buf True g;
       Some (g, n)
     }
   }"

definition env_relocate ::
  "env_hooks \<Rightarrow> 'n mtd_info \<Rightarrow> u8 list \<Rightarrow> u32 \<Rightarrow> u8 list \<Rightarrow> gdata \<Rightarrow> 'n \<Rightarrow> (gdata \<times> 'n) option" where
  "env_relocate E M D a stk g n =
     (if env_valid g = 0 then do {
        g \<leftarrow> set_default_env E D (Some (bytes_of ''!bad CRC'')) g;
        Some (g, n)
      }
      else env_relocate_spec E M D a stk g n)"

subsection \<open>Variables and the map\<close>

lemma getenv_lookup:
  assumes "env_ready g" "hinv (env_htab g)"
  shows "\<exists>g'. getenv E D k g = Some (hmap (env_htab g) k, g') \<and> env_ready g' \<and> hinv (env_htab g') \<and> hmap (env_htab g') = hmap (env_htab g)"
proof -
  obtain t where t: "table (env_htab g) = Some t" "table_inv (unat (hsize (env_htab g))) t" using assms(2) by (auto elim: hinvE)
  note find = hsearch_FIND [OF assms(2) _ t(1), of "key_item k" k E 0]
  show ?thesis
  proof (cases "hmap (env_htab g) k")
    case None
    have "hinv ((env_htab g)\<lparr>errno := 3\<rparr>)" "hmap ((env_htab g)\<lparr>errno := 3\<rparr>) = hmap (env_htab g)"
      using assms(2) by (auto simp: hinv_def hmap_def)
    then show ?thesis using find None assms(1) by (simp add: getenv_def key_item_def)
  next
    case (Some d)
    then obtain i where i: "hsearch_r E (key_item k) FIND (env_htab g) 0 = Some (int i, Some i, env_htab g)"
      "holds (unat (hsize (env_htab g))) t k i" "data (entry (t ! i)) = Some d" using find by (auto simp: key_item_def)
    then have "i < length t" using t(2) by (simp add: holds_def table_inv_def)
    then show ?thesis using i t(1) Some assms by (simp add: getenv_def)
  qed
qed

lemma hinv_more: "hinv (h\<lparr>allocs := x\<rparr>) = hinv h" "hmap (h\<lparr>allocs := x\<rparr>) = hmap h" "has_room (h\<lparr>allocs := x\<rparr>) = has_room h"
  "accepting E (h\<lparr>allocs := x\<rparr>) flag = accepting E h flag"
  by (simp_all add: hinv_def hmap_def has_room_def accepting_def change_rejected_def)

lemma setenv_updates:
  assumes "env_ready g" "hinv (env_htab g)" "has_room (env_htab g)" "plain_hooks E" "accepting E (env_htab g) 4"
    "61 \<notin> set name" "name = [] \<or> hd name \<noteq> 45" "v \<noteq> []"
  shows "\<exists>g'. setenv E name (Some v) g = Some (0, g') \<and> env_ready g' \<and> hinv (env_htab g') \<and>
     hmap (env_htab g') = (hmap (env_htab g))(name \<mapsto> v)"
proof -
  define h where "h = (env_htab g)\<lparr>allocs := Suc (allocs (env_htab g))\<rparr>"
  define item where "item = \<lparr>key = Some name, data = Some v, callback = None, flags = 0\<rparr>"
  have h: "hinv h" "has_room h" "accepting E h 4" "hmap h = hmap (env_htab g)" using assms by (simp_all add: h_def hinv_more)
  have i: "key item = Some name" "data item = Some v" by (simp_all add: item_def)
  obtain r rv h' where r: "hsearch_r E item ENTER h 4 = Some (r, rv, h')" "hinv h'" "hmap h' = (hmap h)(name \<mapsto> v)" "rv \<noteq> None"
    using hsearch_ENTER [OF h(1) assms(4) h(2) i, of 4] h(3) by auto
  have "alloc E (allocs (env_htab g))" using assms(4) by (simp add: plain_hooks_def)
  with r(4) have "setenv E name (Some v) g = Some (0, g\<lparr>env_id := env_id g + 1, env_htab := h'\<rparr>)"
    using assms(1,6-8) r(1) by (auto simp: setenv_def do_env_set_def item_def h_def Let_def)
  then show ?thesis using r h(4) assms(1) by simp
qed

subsection \<open>The image in the flash\<close>

text \<open>
  The block of the environment keeps its image: blocks of 128 KiB, and a block that was erased and written without an
  error is not bad and reads back as written.
\<close>

definition keeps_blocks :: "'n mtd_info \<Rightarrow> bool" where
  "keeps_blocks M \<longleftrightarrow> erasesize M = 0x20000 \<and>
     (\<forall>n n1 n2 bytes len buf. length bytes = 0x20000 \<longrightarrow> length buf = 0x20000 \<longrightarrow>
        nand_erase_opts M (plain_erase 0x40000 0x20000) n = Some (0, n1) \<longrightarrow> nand_block_isbad M n1 0x40000 = 0 \<longrightarrow>
        nand_write M 0x40000 0x20000 bytes n1 = (0, len, n2) \<longrightarrow> nand_block_isbad M n2 0x40000 = 0 \<and>
          (\<exists>n3 act. nand_read_skip_bad M 0x40000 0x20000 (mtd_size M) buf n2 = Some (0, 0x20000, act, bytes, n3)))"

lemma keeps_blocks_mtd:
  assumes "mtd_keeps M content" "mtd_erases M content" "erasesize M = 0x20000" "0x60000 \<le> mtd_size M"
  shows "keeps_blocks M"
proof -
  have "0x40000 mod erasesize M = 0" "0x40000 + erasesize M \<le> mtd_size M" using assms(3,4) by simp_all
  note r = block_roundtrip [OF assms(1,2) this, unfolded assms(3)]
  show ?thesis unfolding keeps_blocks_def by (intro conjI allI impI assms(3)) (fact r(1), fact r(2))
qed

lemma writeenv_block:
  assumes "erasesize M = 0x20000" "writeenv M offset buf n = Some (0, n')"
  shows "nand_block_isbad M n offset = 0 \<and> (\<exists>len. nand_write M offset 0x20000 buf n = (0, len, n'))"
proof -
  have stop: "writeenv_loop M (offset + 0x20000) (offset + 0x20000) amount len buf m = Some (False, amount, m)" for amount len m
    by (subst writeenv_loop.simps) simp
  obtain rval len m where w: "nand_write M offset 0x20000 buf n = (rval, len, m)" by (metis surj_pair)
  have run: "writeenv_loop M offset (offset + 0x20000) 0 0x20000 buf n =
      (if nand_block_isbad M n offset \<noteq> 0 then Some (False, 0, n) else if rval \<noteq> 0 then Some (True, 0, m) else Some (False, len, m))"
    using assms(1) w stop by (subst writeenv_loop.simps) simp
  show ?thesis using assms w run by (auto simp: writeenv_def split: if_splits)
qed

lemma readenv_block:
  assumes "erasesize M = 0x20000" "nand_block_isbad M n offset = 0"
    "nand_read_skip_bad M offset 0x20000 (mtd_size M) buf n = Some (0, 0x20000, act, bytes, n')"
  shows "readenv M offset buf n = Some (0, bytes, n')"
proof -
  have stop: "readenv_loop M (offset + 0x20000) (offset + 0x20000) 0x20000 0x20000 bytes n' = Some (False, 0x20000, bytes, n')"
    by (subst readenv_loop.simps) simp
  have "readenv_loop M offset (offset + 0x20000) 0 0x20000 buf n = Some (False, 0x20000, bytes, n')"
    using assms stop by (subst readenv_loop.simps) simp
  then show ?thesis using assms(1) by (simp add: readenv_def)
qed

lemma load32_bytes4:
  "load32 ([ucast c, ucast (drop_bit 8 c), ucast (drop_bit 16 c), ucast (drop_bit 24 c)] @ xs) 0 = Some (c :: u32)"
proof -
  have "ucast (ucast c :: u8) OR push_bit 8 (ucast (ucast (drop_bit 8 c) :: u8)) OR push_bit 16 (ucast (ucast (drop_bit 16 c) :: u8)) OR
      push_bit 24 (ucast (ucast (drop_bit 24 c) :: u8)) = c" (is "?l = c")
  proof (rule bit_word_eqI)
    fix n assume "n < LENGTH(32)"
    then have "n < 8 \<or> 8 \<le> n \<and> n < 16 \<or> 16 \<le> n \<and> n < 24 \<or> 24 \<le> n \<and> n < 32" by auto
    then show "bit ?l n = bit c n"
      by (elim disjE conjE) (simp_all add: bit_or_iff bit_push_bit_iff bit_unsigned_iff bit_drop_bit_eq, auto)
  qed
  then show ?thesis by (simp add: load32_def arr_get_def)
qed

lemma crc32_text:
  "length dat = 0x1FFFC \<Longrightarrow> crc32 0 a dat (of_nat 0x1FFFC) = Some (foldl crc32_ref (0 XOR 0xffffffff) dat XOR 0xffffffff)"
  by (simp add: crc32_def crc32_no_comp_spec)

text \<open>An image that a save made: the text and its checksum.\<close>

definition env_image :: "u8 list \<Rightarrow> u8 list" where
  "env_image dat = (let crc = foldl crc32_ref (0 XOR 0xffffffff) dat XOR 0xffffffff
     in [ucast crc, ucast (drop_bit 8 crc), ucast (drop_bit 16 crc), ucast (drop_bit 24 crc)] @ dat)"

lemma env_image_load:
  "load32 (env_image dat) 0 = Some (foldl crc32_ref (0 XOR 0xffffffff) dat XOR 0xffffffff)" "drop 4 (env_image dat) = dat"
  unfolding env_image_def Let_def load32_bytes4 by simp_all

lemma saveenv_image:
  assumes "saveenv E M a stk g n = Some (0, g1, n1)" "length stk = 0x20000" "keeps_blocks M"
  obtains dat r h1 where "hexport_r E (env_htab g) 0 0 (Some (drop 4 stk)) 0x1FFFC [] = Some (r, Some dat, h1)" "r \<noteq> -1"
    "g1 = g\<lparr>env_htab := h1\<rparr>" "length dat = 0x1FFFC" "nand_block_isbad M n1 0x40000 = 0"
    "\<And>buf. length buf = 0x20000 \<Longrightarrow>
      \<exists>n3 act. nand_read_skip_bad M 0x40000 0x20000 (mtd_size M) buf n1 = Some (0, 0x20000, act, env_image dat, n3)"
proof -
  have sb: "(0x20000 :: nat) < 0x20000 \<longleftrightarrow> False" by simp
  obtain r res h1 where ex: "hexport_r E (env_htab g) 0 0 (Some (drop 4 stk)) 0x1FFFC [] = Some (r, res, h1)"
    using assms(1) unfolding saveenv_def by (auto simp: bind_eq_Some_conv)
  have r0: "\<not> r < 0" using assms(1) ex unfolding saveenv_def by (auto split: if_splits)
  then obtain dat crc where dat: "res = Some dat" "crc32 0 a dat (of_nat 0x1FFFC) = Some crc"
    using assms(1) ex unfolding saveenv_def by (auto simp: bind_eq_Some_conv)
  have len: "length dat = 0x1FFFC" by (rule hexport_length [OF ex [unfolded dat(1)] r0]) (simp add: assms(2))
  have crc: "crc = foldl crc32_ref (0 XOR 0xffffffff) dat XOR 0xffffffff" using crc32_text [OF len, of a] dat(2) by simp
  have ew: "erase_and_write_env M (plain_erase 0x40000 0x20000) (env_image dat) n = Some (0, n1)" "g1 = g\<lparr>env_htab := h1\<rparr>"
    using assms(1) ex dat r0 unfolding saveenv_def env_image_def crc [symmetric] Let_def by (auto simp: bind_eq_Some_conv)
  then obtain m where m: "nand_erase_opts M (plain_erase 0x40000 0x20000) n = Some (0, m)"
    "writeenv M 0x40000 (env_image dat) m = Some (0, n1)"
    unfolding erase_and_write_env_def by (auto simp: bind_eq_Some_conv plain_erase_def split: if_splits)
  have "erasesize M = 0x20000" using assms(3) by (simp add: keeps_blocks_def)
  from writeenv_block [OF this m(2)] obtain l where
    w: "nand_block_isbad M m 0x40000 = 0" "nand_write M 0x40000 0x20000 (env_image dat) m = (0, l, n1)" by blast
  have "length (env_image dat) = 0x20000" using len by (simp add: env_image_def Let_def)
  then have rd: "nand_block_isbad M n1 0x40000 = 0 \<and>
      (\<exists>n3 act. nand_read_skip_bad M 0x40000 0x20000 (mtd_size M) buf n1 = Some (0, 0x20000, act, env_image dat, n3))"
    if "length buf = 0x20000" for buf
    using assms(3) m(1) w that unfolding keeps_blocks_def by blast
  have "length (replicate 0x20000 (0 :: u8)) = 0x20000" by (rule length_replicate)
  then have "nand_block_isbad M n1 0x40000 = 0" using rd by blast
  then show ?thesis using that [OF ex [unfolded dat(1)] _ ew(2) len] r0 rd by auto
qed

subsection \<open>The correctness of the environment\<close>


definition ex_g :: gdata where
  "ex_g = \<lparr>env_htab = ex_table, env_ready = True, relocated = True, env_addr = [], env_valid = 1, env_buf = [], env_id = 1\<rparr>"



text \<open>An example flash with the blocks of the board, which always works.\<close>

definition ex_flash :: "(nat \<Rightarrow> u8) mtd_info" where
  "ex_flash = ideal_flash 0x60000 0x20000 0x800 (\<lambda>a. False)"

lemma ex_flash_ok:
  "mtd_keeps ex_flash (\<lambda>n. n)" "mtd_erases ex_flash (\<lambda>n. n)" "erasesize ex_flash = 0x20000" "0x60000 \<le> mtd_size ex_flash"
proof -
  have "(0x20000 :: nat) = 2 ^ 17" "(0x800 :: nat) = 2 ^ 11" by simp_all
  then have "geometry (ideal_flash 0x60000 0x20000 0x800 (\<lambda>a. False))"
    unfolding geometry_def by (intro conjI exI [of _ 17] exI [of _ 11]) (simp_all add: ideal_flash_def)
  then show "mtd_keeps ex_flash (\<lambda>n. n)" "mtd_erases ex_flash (\<lambda>n. n)" unfolding ex_flash_def by (rule ideal_flash_ok)+
  show "erasesize ex_flash = 0x20000" "0x60000 \<le> mtd_size ex_flash" by (simp_all add: ex_flash_def ideal_flash_def)
qed

lemma ex_flash_ops:
  "nand_block_isbad ex_flash n a = (if a > 0x60000 then - 22 else 0)"
  "\<exists>n'. nand_write ex_flash 0x40000 0x20000 buf n = (0, 0x20000, n')"
  "\<exists>n'. nand_erase_opts ex_flash (plain_erase 0x40000 0x20000) n = Some (0, n')"
proof -
  show "nand_block_isbad ex_flash n a = (if a > 0x60000 then - 22 else 0)"
    by (simp add: ex_flash_def ideal_flash_def nand_block_isbad_def mtd_block_isbad_def)
  show "\<exists>n'. nand_write ex_flash 0x40000 0x20000 buf n = (0, 0x20000, n')"
    by (simp add: ex_flash_def ideal_flash_def nand_write_def mtd_write_def)
  have "1 = (0x20000 + erasesize ex_flash - 1) div erasesize ex_flash" "0x40000 mod erasesize ex_flash = 0"
    "0x40000 + 1 * erasesize ex_flash \<le> mtd_size ex_flash" using ex_flash_ok(3,4) by simp_all
  from erase_opts_erases [OF ex_flash_ok(1,2) this(2,1,3), of n]
  show "\<exists>n'. nand_erase_opts ex_flash (plain_erase 0x40000 0x20000) n = Some (0, n')" by (elim exE conjE) (rule exI)
qed

lemma ex_scan: "hexport_scan 5 1 0 0 [] (the (table ex_table)) = Some ([([97], [98])], 6)"
  by code_simp

lemma ex_saves:
  assumes "length stk = 0x20000"
  shows "\<exists>g1 n1. saveenv ex_hooks ex_flash 0 stk ex_g n0 = Some (0, g1, n1)"
proof -
  let ?t = "concat (map (export_entry 0) [([97], [98])])"
  obtain t where t: "table ex_table = Some t" "hsize ex_table = 5" "the (table ex_table) = t" by (simp add: ex_table_def ex_empty_def)
  have len: "length (drop 4 stk) = 0x1FFFC" using assms by simp
  have b: "arr_blit (drop 4 stk) 0 (replicate 0x1FFFC 0) = Some (replicate 0x1FFFC 0)"
    using arr_blit_eq [of 0 "replicate 0x1FFFC 0" "drop 4 stk"] len by simp
  obtain dat where dat: "hexport_write 0 [([97], [98])] (replicate 0x1FFFC 0) 0 = Some dat" "length dat = 0x1FFFC"
    using hexport_write_spec [of 0 "[([97], [98])]" "0x1FFFC" "[]"] by (auto simp: export_entry_def)
  have q: "qsort cmpkey [([97], [98])] = [([97], [98])]" by (simp add: qsort_def)
  have ex: "hexport_r ex_hooks (env_htab ex_g) 0 0 (Some (drop 4 stk)) 0x1FFFC [] = Some (int 0x1FFFC, Some dat, ex_table)"
    using t ex_scan b dat(1) q by (simp add: hexport_r_def ex_g_def)
  obtain crc where crc: "crc32 0 0 dat (of_nat 0x1FFFC) = Some crc" using crc32_text [OF dat(2)] by blast
  obtain n1 where n1: "nand_erase_opts ex_flash (plain_erase 0x40000 0x20000) n0 = Some (0, n1)" using ex_flash_ops(3) by blast
  have w: "\<exists>n2. writeenv ex_flash 0x40000 buf n1 = Some (0, n2)" for buf
  proof -
    obtain n2 where "nand_write ex_flash 0x40000 0x20000 buf n1 = (0, 0x20000, n2)" using ex_flash_ops(2) by blast
    then show ?thesis
      unfolding writeenv_def by (subst writeenv_loop.simps, subst writeenv_loop.simps) (simp add: ex_flash_ok(3) ex_flash_ops(1))
  qed
  have o: "opt_offset (plain_erase 0x40000 0x20000) = 0x40000" by (simp add: plain_erase_def)
  obtain n2 where "writeenv ex_flash 0x40000 ([ucast crc, ucast (drop_bit 8 crc), ucast (drop_bit 16 crc), ucast (drop_bit 24 crc)] @ dat) n1
      = Some (0, n2)" using w by blast
  then show ?thesis unfolding saveenv_def erase_and_write_env_def using ex crc n1 o by simp
qed


text \<open>
  C37. A damaged image is not imported: when one byte of the text, or two neighbouring ones, differ from what was saved, the checksum does
  not match and the default environment is loaded instead.
\<close>

theorem env_import_detects:
  assumes "length (xs @ x # y # ys) = 0x1FFFC" "(x, y) \<noteq> (x', y')"
  shows "env_import E D a (take 4 (env_image (xs @ x # y # ys)) @ xs @ x' # y' # ys) True g =
    do { g \<leftarrow> set_default_env E D (Some (bytes_of ''!bad CRC'')) g; Some (0, g) }"
proof -
  let ?dat = "xs @ x # y # ys" and ?dat' = "xs @ x' # y' # ys"
  let ?crc = "foldl crc32_ref (0 XOR 0xffffffff) ?dat XOR 0xffffffff"
  have buf: "take 4 (env_image ?dat) @ ?dat' = [ucast ?crc, ucast (drop_bit 8 ?crc), ucast (drop_bit 16 ?crc), ucast (drop_bit 24 ?crc)] @ ?dat'"
    by (simp add: env_image_def Let_def)
  have l: "load32 (take 4 (env_image ?dat) @ ?dat') 0 = Some ?crc" unfolding buf by (rule load32_bytes4)
  have d: "drop 4 (take 4 (env_image ?dat) @ ?dat') = ?dat'" unfolding buf by simp
  have "length ?dat' = 0x1FFFC" using assms(1) by simp
  note c = crc32_text [OF this, of a]
  have "foldl crc32_ref (0 XOR 0xffffffff) ?dat' XOR 0xffffffff \<noteq> ?crc"
    using c32.detects_pair [OF assms(2), of "0 XOR 0xffffffff" xs ys] by (metis xor_cancel_u32 xor.commute)
  then show ?thesis unfolding env_import_def l d c by simp
qed

theorem env_import_detects_witness:
  "\<exists>g. env_import ex_hooks [0, 0] 0 (take 4 (env_image ([] @ 0 # 0 # replicate 0x1FFFA 0)) @ [] @ 97 # 0 # replicate 0x1FFFA 0) True ex_g = Some (0, g) \<and>
     hmap (env_htab g) = Map.empty"
proof -
  have D: "[0, 0] = concat (map (export_entry 0) []) @ 0 # replicate 1 0" by simp
  have "accepting ex_hooks (env_htab ex_g) 0" by (simp add: ex_g_def ex_table_inv)
  note acc = this
  have so: "sep_ok 0" by (simp add: sep_ok_def)
  have len: "length [0, 0 :: u8] = 2" by simp
  have "\<exists>h. himport_r ex_hooks (env_htab ex_g) [0, 0] (length [0, 0 :: u8]) 0 0 [] = Some (1, h) \<and> hinv h \<and> hmap h = map_of []"
    by (rule himport_text [OF so ex_hooks_plain acc _ _ _ D]) simp_all
  then obtain h where h: "himport_r ex_hooks (env_htab ex_g) [0, 0] 2 0 0 [] = Some (1, h)" "hmap h = Map.empty" unfolding len by auto
  have "set_default_env ex_hooks [0, 0] (Some (bytes_of ''!bad CRC'')) ex_g = Some (ex_g\<lparr>env_htab := h, env_ready := True\<rparr>)"
    using h(1) unfolding set_default_env_def len by (simp add: bytes_of_def)
  then show ?thesis using env_import_detects [of "[]" 0 0 "replicate 0x1FFFA 0" 97 0 ex_hooks "[0, 0]" 0 ex_g] h(2) by simp
qed

end
