(* ===== verification/Vsprintf.thy ===== *)
theory Vsprintf
  imports Clib_Ctype
begin

unbundle bit_operations_syntax

text \<open>
  Numbers as text, \<^verbatim>\<open>lib/vsprintf.c\<close>: the \<open>strtoul\<close> family, the formatting of numbers and strings and the
  format interpreter behind \<open>sprintf\<close>, for the configuration of the board (network commands, no
  \<open>CONFIG_SYS_VSNPRINTF\<close>, so output is not bounded by the size of the buffer). A string is the list of its bytes
  without the terminating NUL and a pointer into it the rest of the string. A formatting function returns
  the characters that it appends at its output pointer. Field widths and precisions are integers; an
  operation on \<open>int\<close> that overflows while a format is read has no result, and neither has a conversion
  whose argument has another type.
\<close>

text \<open>The character at a string pointer.\<close>

definition chr0 :: "str \<Rightarrow> u8" where
  "chr0 s = (case s of [] \<Rightarrow> 0 | c # _ \<Rightarrow> c)"

subsection \<open>Reading numbers\<close>

definition digit_value :: "u8 \<Rightarrow> u32" where
  "digit_value c =
     (if isdigit c then ucast c - 0x30
      else ucast (if islower c then toupper c else c) - 0x41 + 10)"

text \<open>The prefix of a number: the rest of the text and the base.\<close>

definition strtoul_base :: "str \<Rightarrow> u32 \<Rightarrow> str \<times> u32" where
  "strtoul_base cp base =
     (let (cp, base) =
        (if chr0 cp = 0x30 then
           let cp = tl cp;
               (cp, base) = (if chr0 cp = 0x78 \<and> isxdigit (chr0 (tl cp)) then (tl cp, 16) else (cp, base))
           in (cp, if base = 0 then 8 else base)
         else (cp, base))
      in (cp, if base = 0 then 10 else base))"

fun strtoul_loop :: "u32 \<Rightarrow> str \<Rightarrow> 'w::len word \<Rightarrow> 'w word \<times> str" where
  "strtoul_loop base [] result = (result, [])"
| "strtoul_loop base (c # cp) result =
     (if isxdigit c \<and> digit_value c < base
      then strtoul_loop base cp (result * ucast base + ucast (digit_value c))
      else (result, c # cp))"

definition simple_strtoul :: "str \<Rightarrow> u32 \<Rightarrow> u32 \<times> str" where
  "simple_strtoul cp base = (let (cp, base) = strtoul_base cp base in strtoul_loop base cp 0)"

definition simple_strtoull :: "str \<Rightarrow> u32 \<Rightarrow> u64 \<times> str" where
  "simple_strtoull cp base = (let (cp, base) = strtoul_base cp base in strtoul_loop base cp 0)"

text \<open>The return code and the value of \<open>*res\<close>.\<close>

definition strict_strtoul :: "str \<Rightarrow> u32 \<Rightarrow> int \<times> u32" where
  "strict_strtoul cp base =
     (let len = length cp in
      if len = 0 then (- 22, 0)
      else let (val, tail) = simple_strtoul cp base in
        if length tail = length cp then (- 22, 0)
        else if chr0 tail = 0 \<or> len = (length cp - length tail) + 1 \<and> chr0 tail = 0x0A then (0, val)
        else (- 22, 0))"

definition simple_strtol :: "str \<Rightarrow> u32 \<Rightarrow> int \<times> str" where
  "simple_strtol cp base =
     (if chr0 cp = 0x2D then let (v, endp) = simple_strtoul (tl cp) base in (sint (- v), endp)
      else let (v, endp) = simple_strtoul cp base in (sint v, endp))"

text \<open>The multiplier suffixes.\<close>

definition size_suffix :: "'w::len word \<Rightarrow> str \<Rightarrow> 'w word \<times> str" where
  "size_suffix result endp =
     (let c = chr0 endp;
          result = (if c = 0x47 then result * 1024 else result);
          result = (if c = 0x47 \<or> c = 0x4D then result * 1024 else result)
      in if c = 0x47 \<or> c = 0x4D \<or> c = 0x4B \<or> c = 0x6B then
           (result * 1024,
            if chr0 (tl endp) = 0x69 then if chr0 (tl (tl endp)) = 0x42 then drop 3 endp else drop 2 endp
            else endp)
         else (result, endp))"

definition ustrtoul :: "str \<Rightarrow> u32 \<Rightarrow> u32 \<times> str" where
  "ustrtoul cp base = (let (result, endp) = simple_strtoul cp base in size_suffix result endp)"

definition ustrtoull :: "str \<Rightarrow> u32 \<Rightarrow> u64 \<times> str" where
  "ustrtoull cp base = (let (result, endp) = simple_strtoull cp base in size_suffix result endp)"

definition is_digit :: "u8 \<Rightarrow> bool" where
  "is_digit c \<longleftrightarrow> 0x30 \<le> c \<and> c \<le> 0x39"

abbreviation (input) INT_MAX :: int where "INT_MAX \<equiv> 2147483647"
abbreviation (input) INT_MIN :: int where "INT_MIN \<equiv> - 2147483648"

fun skip_atoi :: "str \<Rightarrow> int \<Rightarrow> (int \<times> str) option" where
  "skip_atoi [] i = Some (i, [])"
| "skip_atoi (c # s) i =
     (if is_digit c then
        let v = i * 10 + uint c in if v > INT_MAX then None else skip_atoi s (v - 0x30)
      else Some (i, c # s))"

subsection \<open>Decimal digits without division\<close>

text \<open>The characters come out with the least significant digit first.\<close>

definition put_dec_trunc :: "u32 \<Rightarrow> u8 list" where
  "put_dec_trunc q =
     (let d1 = drop_bit 4 q AND 0xF;
          d2 = drop_bit 8 q AND 0xF;
          d3 = drop_bit 12 q;
          d0 = 6 * (d3 + d2 + d1) + (q AND 0xF);
          q = drop_bit 11 (d0 * 0xCD);
          d0 = d0 - 10 * q;
          c0 = ucast (d0 + 0x30);
          d1 = q + 9 * d3 + 5 * d2 + d1
      in if d1 \<noteq> 0 then
           let q = drop_bit 11 (d1 * 0xCD);
               d1 = d1 - 10 * q;
               c1 = ucast (d1 + 0x30);
               d2 = q + 2 * d2
           in if d2 \<noteq> 0 \<or> d3 \<noteq> 0 then
                let q = drop_bit 7 (d2 * 0xD);
                    d2 = d2 - 10 * q;
                    c2 = ucast (d2 + 0x30);
                    d3 = q + 4 * d3
                in if d3 \<noteq> 0 then
                     let q = drop_bit 11 (d3 * 0xCD);
                         d3 = d3 - 10 * q;
                         c3 = ucast (d3 + 0x30)
                     in if q \<noteq> 0 then [c0, c1, c2, c3, ucast (q + 0x30)] else [c0, c1, c2, c3]
                   else [c0, c1, c2]
              else [c0, c1]
         else [c0])"

definition put_dec_full :: "u32 \<Rightarrow> u8 list" where
  "put_dec_full q =
     (let d1 = drop_bit 4 q AND 0xF;
          d2 = drop_bit 8 q AND 0xF;
          d3 = drop_bit 12 q;
          d0 = 6 * (d3 + d2 + d1) + (q AND 0xF);
          q = drop_bit 11 (d0 * 0xCD);
          d0 = d0 - 10 * q;
          c0 = ucast (d0 + 0x30);
          d1 = q + 9 * d3 + 5 * d2 + d1;
          q = drop_bit 11 (d1 * 0xCD);
          d1 = d1 - 10 * q;
          c1 = ucast (d1 + 0x30);
          d2 = q + 2 * d2;
          q = drop_bit 7 (d2 * 0xD);
          d2 = d2 - 10 * q;
          c2 = ucast (d2 + 0x30);
          d3 = q + 4 * d3;
          q = drop_bit 11 (d3 * 0xCD);
          d3 = d3 - 10 * q;
          c3 = ucast (d3 + 0x30)
      in [c0, c1, c2, c3, ucast (q + 0x30)])"

function put_dec :: "u64 \<Rightarrow> u8 list" where
  "put_dec num =
     (if num < 100000 then put_dec_trunc (ucast num)
      else put_dec_full (ucast (num mod 100000)) @ put_dec (num div 100000))"
  by pat_completeness auto
termination
proof (relation "measure unat", goal_cases)
  case (2 num)
  then have "100000 \<le> unat num" by (simp add: word_less_nat_alt)
  then show ?case by (simp add: unat_div)
qed simp

declare put_dec.simps [simp del]

subsection \<open>Fields\<close>

abbreviation (input) ZEROPAD :: u32 where "ZEROPAD \<equiv> 1"
abbreviation (input) SIGN :: u32 where "SIGN \<equiv> 2"
abbreviation (input) PLUS :: u32 where "PLUS \<equiv> 4"
abbreviation (input) SPACE :: u32 where "SPACE \<equiv> 8"
abbreviation (input) LEFT :: u32 where "LEFT \<equiv> 16"
abbreviation (input) SMALL :: u32 where "SMALL \<equiv> 32"
abbreviation (input) SPECIAL :: u32 where "SPECIAL \<equiv> 64"

text \<open>The loop \<^verbatim>\<open>while (lo <= --n) ADDCH(buf, c)\<close>: its output and the counter after it.\<close>

function pad_loop :: "int \<Rightarrow> int \<Rightarrow> u8 \<Rightarrow> u8 list \<times> int" where
  "pad_loop lo n c =
     (let n = n - 1 in
      if lo \<le> n then let (out, n) = pad_loop lo n c in (c # out, n) else ([], n))"
  by pat_completeness auto
termination
  by (relation "measure (\<lambda>(lo, n, c). nat (n - lo))") auto

definition digits :: "u8 list" where
  "digits = bytes_of ''0123456789ABCDEF''"

text \<open>The digits of a number that is not zero, in base 8 or 16, least significant first.\<close>

function digit_loop :: "u64 \<Rightarrow> nat \<Rightarrow> u8 \<Rightarrow> u8 list" where
  "digit_loop num base locase =
     (let mask = of_nat base - 1 :: u8;
          shift = (if base = 16 then 4 else 3);
          c = digits ! unat (ucast num AND mask) OR locase;
          num = drop_bit shift num
      in if num \<noteq> 0 then c # digit_loop num base locase else [c])"
  by pat_completeness auto
termination
proof (relation "measure (\<lambda>(num, base, locase). unat num)", goal_cases)
  case (2 num base locase m s c n)
  then have "unat num div 2 ^ s \<noteq> 0" and "s = 3 \<or> s = 4"
    by (auto simp: word_eq_0_unat unat_drop_bit_div split: if_splits)
  then show ?case using 2 by (auto simp: unat_drop_bit_div)
qed simp

declare pad_loop.simps [simp del] digit_loop.simps [simp del]

definition number_digits :: "u64 \<Rightarrow> nat \<Rightarrow> u8 \<Rightarrow> u8 list" where
  "number_digits num base locase =
     (if num = 0 then [0x30]
      else if base \<noteq> 10 then digit_loop num base locase
      else put_dec num)"

text \<open>The sign character, or zero, the magnitude and the remaining width.\<close>

definition number_sign :: "u64 \<Rightarrow> int \<Rightarrow> u32 \<Rightarrow> (u8 \<times> u64 \<times> int) option" where
  "number_sign num width type =
     (if type AND SIGN \<noteq> 0 then
        if sint num < 0 then if sint num = - (2 ^ 63) then None else Some (0x2D, - num, width - 1)
        else if type AND PLUS \<noteq> 0 then Some (0x2B, num, width - 1)
        else if type AND SPACE \<noteq> 0 then Some (0x20, num, width - 1)
        else Some (0, num, width)
      else Some (0, num, width))"

definition number :: "u64 \<Rightarrow> nat \<Rightarrow> int \<Rightarrow> int \<Rightarrow> u32 \<Rightarrow> u8 list option" where
  "number num base width precision type = do {
     let need_pfx = (type AND SPECIAL \<noteq> 0 \<and> base \<noteq> 10);
     let locase = ucast (type AND SMALL);
     let type = (if type AND LEFT \<noteq> 0 then type AND NOT ZEROPAD else type);
     (sign, num, width) \<leftarrow> number_sign num width type;
     let width = (if need_pfx then if base = 16 then width - 1 - 1 else width - 1 else width);
     let tmp = number_digits num base locase;
     let i = int (length tmp);
     let precision = (if i > precision then i else precision);
     let width = width - precision;
     let (lead, width) = (if type AND (ZEROPAD + LEFT) = 0 then pad_loop 0 width 0x20 else ([], width));
     let sgn = (if sign \<noteq> 0 then [sign] else []);
     let pfx = (if need_pfx then if base = 16 then [0x30, 0x58 OR locase] else [0x30] else []);
     let (mid, width) =
       (if type AND LEFT = 0 then pad_loop 0 width (if type AND ZEROPAD \<noteq> 0 then 0x30 else 0x20)
        else ([], width));
     let (zeros, _) = pad_loop i precision 0x30;
     let (trail, width) = pad_loop 0 width 0x20;
     Some (lead @ sgn @ pfx @ mid @ zeros @ rev tmp @ trail)
   }"

text \<open>The loop \<^verbatim>\<open>while (len < field_width--)\<close>.\<close>

function width_loop :: "int \<Rightarrow> int \<Rightarrow> u8 list \<times> int" where
  "width_loop len field_width =
     (if len < field_width then let (out, w) = width_loop len (field_width - 1) in (0x20 # out, w)
      else ([], field_width - 1))"
  by pat_completeness auto
termination
  by (relation "measure (\<lambda>(len, w). nat (w - len))") auto

declare width_loop.simps [simp del]

text \<open>The precision bounds the length as an unsigned number.\<close>

definition string_field :: "str option \<Rightarrow> int \<Rightarrow> int \<Rightarrow> u32 \<Rightarrow> u8 list" where
  "string_field s field_width precision flags =
     (let s = (case s of None \<Rightarrow> bytes_of ''<NULL>'' | Some s \<Rightarrow> s);
          len = min (length s) (unat (word_of_int precision :: u32));
          (lead, field_width) =
            (if flags AND LEFT = 0 then width_loop (int len) field_width else ([], field_width));
          (trail, _) = width_loop (int len) field_width
      in lead @ take len s @ trail)"

definition hex_asc :: "u8 list" where
  "hex_asc = bytes_of ''0123456789abcdef''"

definition pack_hex_byte :: "u8 \<Rightarrow> u8 list" where
  "pack_hex_byte byte = [hex_asc ! unat (drop_bit 4 (byte AND 0xF0)), hex_asc ! unat (byte AND 0x0F)]"

fun mac_loop :: "nat \<Rightarrow> nat \<Rightarrow> u8 list \<Rightarrow> u32 \<Rightarrow> u8 list option" where
  "mac_loop 0 i addr flags = Some []"
| "mac_loop (Suc k) i addr flags = do {
     b \<leftarrow> arr_get addr i;
     p \<leftarrow> mac_loop k (i + 1) addr flags;
     Some (pack_hex_byte b @ (if flags AND SPECIAL = 0 \<and> i \<noteq> 5 then [0x3A] else []) @ p)
   }"

definition mac_address_string :: "u8 list \<Rightarrow> int \<Rightarrow> int \<Rightarrow> u32 \<Rightarrow> u8 list option" where
  "mac_address_string addr field_width precision flags = do {
     mac_addr \<leftarrow> mac_loop 6 0 addr flags;
     Some (string_field (Some mac_addr) field_width precision (flags AND NOT SPECIAL))
   }"

fun ip6_loop :: "nat \<Rightarrow> nat \<Rightarrow> u8 list \<Rightarrow> u32 \<Rightarrow> u8 list option" where
  "ip6_loop 0 i addr flags = Some []"
| "ip6_loop (Suc k) i addr flags = do {
     a \<leftarrow> arr_get addr (2 * i);
     b \<leftarrow> arr_get addr (2 * i + 1);
     p \<leftarrow> ip6_loop k (i + 1) addr flags;
     Some (pack_hex_byte a @ pack_hex_byte b @ (if flags AND SPECIAL = 0 \<and> i \<noteq> 7 then [0x3A] else []) @ p)
   }"

definition ip6_addr_string :: "u8 list \<Rightarrow> int \<Rightarrow> int \<Rightarrow> u32 \<Rightarrow> u8 list option" where
  "ip6_addr_string addr field_width precision flags = do {
     ip6_addr \<leftarrow> ip6_loop 8 0 addr flags;
     Some (string_field (Some ip6_addr) field_width precision (flags AND NOT SPECIAL))
   }"

fun ip4_loop :: "nat \<Rightarrow> nat \<Rightarrow> u8 list \<Rightarrow> u8 list option" where
  "ip4_loop 0 i addr = Some []"
| "ip4_loop (Suc k) i addr = do {
     b \<leftarrow> arr_get addr i;
     p \<leftarrow> ip4_loop k (i + 1) addr;
     Some (rev (put_dec_trunc (ucast b)) @ (if i \<noteq> 3 then [0x2E] else []) @ p)
   }"

definition ip4_addr_string :: "u8 list \<Rightarrow> int \<Rightarrow> int \<Rightarrow> u32 \<Rightarrow> u8 list option" where
  "ip4_addr_string addr field_width precision flags = do {
     ip4_addr \<leftarrow> ip4_loop 4 0 addr;
     Some (string_field (Some ip4_addr) field_width precision (flags AND NOT SPECIAL))
   }"

text \<open>
  A pointer argument is the address with the bytes stored at it. The extended specifiers return early; the others reach the
  plain address, for \<open>i\<close> and \<open>I\<close> without the flag for the alternative form.
\<close>

definition pointer_plain :: "u32 \<Rightarrow> int \<Rightarrow> int \<Rightarrow> u32 \<Rightarrow> u8 list option" where
  "pointer_plain ptr field_width precision flags =
     (let flags = flags OR SMALL;
          (field_width, flags) =
            (if field_width = - 1 then (2 * 4, flags OR ZEROPAD) else (field_width, flags))
      in number (ucast ptr) 16 field_width precision flags)"

definition pointer :: "str \<Rightarrow> u32 \<times> u8 list \<Rightarrow> int \<Rightarrow> int \<Rightarrow> u32 \<Rightarrow> u8 list option" where
  "pointer fmt ptr field_width precision flags =
     (if chr0 fmt = 0x6D then mac_address_string (snd ptr) field_width precision (flags OR SPECIAL)
      else if chr0 fmt = 0x4D then mac_address_string (snd ptr) field_width precision flags
      else if chr0 fmt = 0x69 \<or> chr0 fmt = 0x49 then
        let flags = (if chr0 fmt = 0x69 then flags OR SPECIAL else flags) in
        if chr0 (tl fmt) = 0x36 then ip6_addr_string (snd ptr) field_width precision flags
        else if chr0 (tl fmt) = 0x34 then ip4_addr_string (snd ptr) field_width precision flags
        else pointer_plain (fst ptr) field_width precision (flags AND NOT SPECIAL)
      else pointer_plain (fst ptr) field_width precision flags)"

subsection \<open>Formats\<close>

text \<open>Arguments: a 32-bit integer, a 64-bit integer, a string that may be null, a pointer.\<close>

datatype va = Va_word u32 | Va_quad u64 | Va_str "str option" | Va_ptr u32 "u8 list"

fun va_word :: "va list \<Rightarrow> (u32 \<times> va list) option" where
  "va_word (Va_word w # args) = Some (w, args)"
| "va_word _ = None"

fun va_quad :: "va list \<Rightarrow> (u64 \<times> va list) option" where
  "va_quad (Va_quad w # args) = Some (w, args)"
| "va_quad _ = None"

fun va_str :: "va list \<Rightarrow> (str option \<times> va list) option" where
  "va_str (Va_str s # args) = Some (s, args)"
| "va_str _ = None"

fun va_ptr :: "va list \<Rightarrow> ((u32 \<times> u8 list) \<times> va list) option" where
  "va_ptr (Va_ptr a bs # args) = Some ((a, bs), args)"
| "va_ptr _ = None"

fun flag_loop :: "str \<Rightarrow> u32 \<Rightarrow> str \<times> u32" where
  "flag_loop [] flags = ([], flags)"
| "flag_loop (c # fmt) flags =
     (if c = 0x2D then flag_loop fmt (flags OR LEFT)
      else if c = 0x2B then flag_loop fmt (flags OR PLUS)
      else if c = 0x20 then flag_loop fmt (flags OR SPACE)
      else if c = 0x23 then flag_loop fmt (flags OR SPECIAL)
      else if c = 0x30 then flag_loop fmt (flags OR ZEROPAD)
      else (c # fmt, flags))"

definition get_field_width :: "str \<Rightarrow> va list \<Rightarrow> u32 \<Rightarrow> (int \<times> str \<times> va list \<times> u32) option" where
  "get_field_width fmt args flags =
     (if is_digit (chr0 fmt) then do { (w, fmt) \<leftarrow> skip_atoi fmt 0; Some (w, fmt, args, flags) }
      else if chr0 fmt = 0x2A then do {
        let fmt = tl fmt;
        (v, args) \<leftarrow> va_word args;
        let w = sint v;
        if w < 0 then if w = INT_MIN then None else Some (- w, fmt, args, flags OR LEFT)
        else Some (w, fmt, args, flags)
      }
      else Some (- 1, fmt, args, flags))"

definition get_precision :: "str \<Rightarrow> va list \<Rightarrow> (int \<times> str \<times> va list) option" where
  "get_precision fmt args =
     (if chr0 fmt = 0x2E then do {
        let fmt = tl fmt;
        (p, fmt, args) \<leftarrow>
          (if is_digit (chr0 fmt) then do { (p, fmt) \<leftarrow> skip_atoi fmt 0; Some (p, fmt, args) }
           else if chr0 fmt = 0x2A then do { (v, args) \<leftarrow> va_word args; Some (sint v, tl fmt, args) }
           else Some (- 1, fmt, args));
        Some (if p < 0 then 0 else p, fmt, args)
      }
      else Some (- 1, fmt, args))"

definition get_qualifier :: "str \<Rightarrow> u8 option \<times> str" where
  "get_qualifier fmt =
     (let c = chr0 fmt in
      if c \<in> {0x68, 0x6C, 0x4C, 0x5A, 0x7A, 0x74} then
        let fmt = tl fmt in
        if c = 0x6C \<and> chr0 fmt = 0x6C then (Some 0x4C, tl fmt) else (Some c, fmt)
      else (None, fmt))"

definition get_num :: "u8 option \<Rightarrow> u32 \<Rightarrow> va list \<Rightarrow> (u64 \<times> va list) option" where
  "get_num qualifier flags args =
     (if qualifier = Some 0x4C then va_quad args
      else do {
        (w, args) \<leftarrow> va_word args;
        Some
          (if qualifier = Some 0x6C then if flags AND SIGN \<noteq> 0 then scast w else ucast w
           else if qualifier = Some 0x5A \<or> qualifier = Some 0x7A then ucast w
           else if qualifier = Some 0x74 then scast w
           else if qualifier = Some 0x68 then
             let h = ucast w :: u16 in if flags AND SIGN \<noteq> 0 then scast h else ucast h
           else if flags AND SIGN \<noteq> 0 then scast w else ucast w,
           args)
      })"

text \<open>
  One conversion, with the format at its last character and \<open>n\<close> characters written before: the characters, the store that \<^verbatim>\<open>%n\<close>
  makes, and the rest of the format and of the arguments.
\<close>

definition conversion ::
  "str \<Rightarrow> va list \<Rightarrow> u32 \<Rightarrow> int \<Rightarrow> int \<Rightarrow> u8 option \<Rightarrow> nat \<Rightarrow> (u8 list \<times> (u32 \<times> u32) list \<times> str \<times> va list) option" where
  "conversion fmt args flags field_width precision qualifier n =
     (let c = chr0 fmt; rest = tl fmt in
      if c = 0x63 then do {
        let (lead, field_width) = (if flags AND LEFT = 0 then pad_loop 1 field_width 0x20 else ([], field_width));
        (v, args) \<leftarrow> va_word args;
        let (trail, _) = pad_loop 1 field_width 0x20;
        Some (lead @ [ucast v] @ trail, [], rest, args)
      }
      else if c = 0x73 then do {
        (s, args) \<leftarrow> va_str args;
        Some (string_field s field_width precision flags, [], rest, args)
      }
      else if c = 0x70 then do {
        (p, args) \<leftarrow> va_ptr args;
        out \<leftarrow> pointer rest p field_width precision flags;
        Some (out, [], dropWhile isalnum rest, args)
      }
      else if c = 0x6E then do {
        (p, args) \<leftarrow> va_ptr args;
        Some ([], [(fst p, of_nat n)], rest, args)
      }
      else if c = 0x25 then Some ([0x25], [], rest, args)
      else if c \<in> {0x6F, 0x78, 0x58, 0x64, 0x69, 0x75} then do {
        let base = (if c = 0x6F then 8 else if c = 0x78 \<or> c = 0x58 then 16 else 10);
        let flags = (if c = 0x78 then flags OR SMALL else if c = 0x64 \<or> c = 0x69 then flags OR SIGN else flags);
        (num, args) \<leftarrow> get_num qualifier flags args;
        out \<leftarrow> number num base field_width precision flags;
        Some (out, [], rest, args)
      }
      else if c \<noteq> 0 then Some ([0x25, c], [], rest, args)
      else Some ([0x25], [], fmt, args))"

lemma skip_atoi_length: "skip_atoi s i = Some (v, t) \<Longrightarrow> length t \<le> length s"
  by (induction s i rule: skip_atoi.induct) (auto simp: Let_def split: if_splits)

lemma flag_loop_length: "flag_loop s f = (t, g) \<Longrightarrow> length t \<le> length s"
  by (induction s f rule: flag_loop.induct) (auto split: if_splits)

lemma get_field_width_length: "get_field_width s a f = Some (w, t, b, g) \<Longrightarrow> length t \<le> length s"
  by (auto simp: get_field_width_def bind_Some_iff Let_def split: if_splits dest: skip_atoi_length)

lemma get_precision_length: "get_precision s a = Some (w, t, b) \<Longrightarrow> length t \<le> length s"
  by (auto simp: get_precision_def bind_Some_iff Let_def split: if_splits dest!: skip_atoi_length)

lemma get_qualifier_length: "get_qualifier s = (q, t) \<Longrightarrow> length t \<le> length s"
  by (auto simp: get_qualifier_def Let_def split: if_splits)

lemma conversion_length: "conversion s a f w p q n = Some (out, st, t, b) \<Longrightarrow> length t \<le> length s"
  by (auto simp: conversion_def bind_Some_iff Let_def case_prod_beta split: if_splits
      intro: le_trans [OF length_dropWhile_le])

function vsnprintf_loop :: "str \<Rightarrow> va list \<Rightarrow> nat \<Rightarrow> (u8 list \<times> (u32 \<times> u32) list) option" where
  "vsnprintf_loop [] args n = Some ([], [])"
| "vsnprintf_loop (c # fmt) args n =
     (if c \<noteq> 0x25 then do {
        (out, st) \<leftarrow> vsnprintf_loop fmt args (n + 1);
        Some (c # out, st)
      }
      else do {
        let (fmt, flags) = flag_loop fmt 0;
        (field_width, fmt, args, flags) \<leftarrow> get_field_width fmt args flags;
        (precision, fmt, args) \<leftarrow> get_precision fmt args;
        let (qualifier, fmt) = get_qualifier fmt;
        (out, st, fmt, args) \<leftarrow> conversion fmt args flags field_width precision qualifier n;
        (out', st') \<leftarrow> vsnprintf_loop fmt args (n + length out);
        Some (out @ out', st @ st')
      })"
  by pat_completeness auto
termination
  by (relation "measure (\<lambda>(fmt, args, n). length fmt)")
    (auto dest!: flag_loop_length [OF sym] get_field_width_length get_precision_length
      get_qualifier_length [OF sym] conversion_length)

declare vsnprintf_loop.simps [simp del]

text \<open>The number of characters without the NUL, the buffer and the stores of \<^verbatim>\<open>%n\<close>.\<close>

definition vsprintf :: "u8 list \<Rightarrow> str \<Rightarrow> va list \<Rightarrow> (nat \<times> u8 list \<times> (u32 \<times> u32) list) option" where
  "vsprintf buf fmt args = do {
     (out, st) \<leftarrow> vsnprintf_loop fmt args 0;
     buf \<leftarrow> arr_blit buf 0 (out @ [0]);
     Some (length out, buf, st)
   }"

definition sprintf :: "u8 list \<Rightarrow> str \<Rightarrow> va list \<Rightarrow> (nat \<times> u8 list \<times> (u32 \<times> u32) list) option" where
  "sprintf buf fmt args = vsprintf buf fmt args"

function itoa_loop :: "u32 \<Rightarrow> str \<Rightarrow> str" where
  "itoa_loop i p =
     (let p = ucast (0x30 + i mod 10) # p; i = i div 10 in
      if i > 0 then itoa_loop i p else p)"
  by pat_completeness auto
termination
proof (relation "measure (\<lambda>(i, p). unat i)", goal_cases)
  case (2 i p q j)
  then have "unat i div 10 \<noteq> 0" by (auto simp: unat_div word_less_nat_alt)
  then show ?case using 2 by (auto simp: unat_div)
qed simp

declare itoa_loop.simps [simp del]

definition simple_itoa :: "u32 \<Rightarrow> str" where
  "simple_itoa i = itoa_loop i []"

text \<open>The characters that \<open>print_grouped_ull\<close> writes; \<open>str\<close> is the local array before the call.\<close>

function grouped_loop :: "u8 list \<Rightarrow> nat \<Rightarrow> u8 list option" where
  "grouped_loop str s = do {
     c \<leftarrow> arr_get str s;
     if c \<noteq> 0 then do {
       let sep = (if s \<noteq> 0 then [if str ! (s - 1) \<noteq> 0x20 then 0x2C else 0x20] else []);
       let grp = string_field (Some (takeWhile (\<lambda>c. c \<noteq> 0) (drop s str))) (- 1) 3 0;
       out \<leftarrow> grouped_loop str (s + 3);
       Some (sep @ grp @ out)
     }
     else Some []
   }"
  by pat_completeness auto
termination
  by (relation "measure (\<lambda>(str, s). length str - s)") (auto simp: arr_get_Some_iff)

declare grouped_loop.simps [simp del]

definition print_grouped_ull :: "u8 list \<Rightarrow> u64 \<Rightarrow> nat \<Rightarrow> u8 list option" where
  "print_grouped_ull str int_val digs = do {
     let digs = (digs + 2) div 3;
     (_, str, _) \<leftarrow> sprintf str (bytes_of ''%*llu'') [Va_word (of_nat (digs * 3)), Va_quad int_val];
     grouped_loop str 0
   }"

end
