(* ===== verification/Number_Text.thy ===== *)
theory Number_Text
  imports Vsprintf
begin

unbundle bit_operations_syntax

text \<open>
  What the number formatting of \<^verbatim>\<open>lib/vsprintf.c\<close> prints and what its number parsing reads: the digits in a
  base, the layout of a field, and that a printed number reads back.
\<close>

subsection \<open>Digits\<close>

function digits_le :: "nat \<Rightarrow> nat \<Rightarrow> nat list" where
  "digits_le b n = (if n < b \<or> b < 2 then [n] else n mod b # digits_le b (n div b))"
  by pat_completeness auto
termination
  by (relation "measure snd") auto

declare digits_le.simps [simp del]

definition digit_chr :: "nat \<Rightarrow> u8" where
  "digit_chr d = of_nat (if d < 10 then 0x30 + d else 0x37 + d)"

lemma digits_le_small: "n < b \<Longrightarrow> digits_le b n = [n]"
  by (simp add: digits_le.simps)

lemma digits_le_step: "b \<le> n \<Longrightarrow> 2 \<le> b \<Longrightarrow> digits_le b n = n mod b # digits_le b (n div b)"
  by (subst digits_le.simps) simp

lemma digits_le_nonempty [simp]: "digits_le b n \<noteq> []"
  by (subst digits_le.simps) simp

lemma digits_le_less: "2 \<le> b \<Longrightarrow> d \<in> set (digits_le b n) \<Longrightarrow> d < b"
proof (induction b n rule: digits_le.induct)
  case (1 b n)
  then show ?case by (subst (asm) (2) digits_le.simps) (auto split: if_splits)
qed

text \<open>The value of a list of digits, most significant first, is what the parser accumulates.\<close>

lemma digits_le_value: "2 \<le> b \<Longrightarrow> foldl (\<lambda>r d. r * b + d) 0 (rev (digits_le b n)) = n"
proof (induction b n rule: digits_le.induct)
  case (1 b n)
  then show ?case by (subst digits_le.simps) auto
qed

lemma digits_le_length: "2 \<le> b \<Longrightarrow> n < b ^ Suc k \<Longrightarrow> length (digits_le b n) \<le> Suc k"
proof (induction b n arbitrary: k rule: digits_le.induct)
  case (1 b n)
  show ?case
  proof (cases "n < b")
    case False
    then obtain j where "k = Suc j" using "1.prems" by (cases k) auto
    moreover have "n div b < b ^ Suc j"
      using "1.prems" \<open>k = Suc j\<close> by (simp add: less_mult_imp_div_less mult.commute)
    ultimately show ?thesis using "1.IH" [of j] False "1.prems" by (subst digits_le.simps) simp
  qed (simp add: digits_le_small)
qed

subsection \<open>The digit routines\<close>

lemma u32_of_nat_eq_0: "x < 4294967296 \<Longrightarrow> (of_nat x :: u32) = 0 \<longleftrightarrow> x = 0"
  by (simp add: word_eq_0_unat unat_of_nat)

lemma drop_bit_u32_of_nat:
  assumes "x < 4294967296"
  shows "drop_bit k (of_nat x :: u32) = of_nat (x div 2 ^ k)"
proof -
  have "x div 2 ^ k < 4294967296" using assms div_le_dividend [of x "2 ^ k"] by linarith
  then show ?thesis using assms by (simp add: word_unat_eq_iff unat_drop_bit_div unat_of_nat)
qed

lemma and_15_u32_of_nat:
  assumes "x < 4294967296"
  shows "(of_nat x :: u32) AND 0xF = of_nat (x mod 16)"
proof -
  have "unat ((of_nat x :: u32) AND 0xF) = x mod 16" using assms by (simp add: unat_and_0xF unat_of_nat)
  then show ?thesis by (simp add: word_unat_eq_iff unat_of_nat)
qed

text \<open>The two approximations of a division by ten, on the range where they are used.\<close>

lemma tenth_CD:
  assumes "x < 1000"
  shows "drop_bit 11 (of_nat x * 0xCD :: u32) = of_nat (x div 10)"
proof -
  have "x * 205 div 2048 = x div 10" using assms by (intro div_nat_eqI) auto
  moreover have "drop_bit 11 (of_nat (x * 205) :: u32) = of_nat (x * 205 div 2 ^ 11)"
    using assms by (intro drop_bit_u32_of_nat) simp
  ultimately show ?thesis by simp
qed

lemma tenth_D:
  assumes "x < 64"
  shows "drop_bit 7 (of_nat x * 0xD :: u32) = of_nat (x div 10)"
proof -
  have "x * 13 div 128 = x div 10" using assms by (intro div_nat_eqI) auto
  moreover have "drop_bit 7 (of_nat (x * 13) :: u32) = of_nat (x * 13 div 2 ^ 7)"
    using assms by (intro drop_bit_u32_of_nat) simp
  ultimately show ?thesis by simp
qed

lemma unit_digit: "of_nat x - 10 * of_nat (x div 10) = (of_nat (x mod 10) :: u32)"
proof -
  have "of_nat (10 * (x div 10) + x mod 10) = (of_nat x :: u32)" by (simp only: mult_div_mod_eq)
  then have "10 * of_nat (x div 10) + of_nat (x mod 10) = (of_nat x :: u32)"
    by (simp only: of_nat_add of_nat_mult of_nat_numeral)
  then show ?thesis by (metis add_diff_cancel_left')
qed

lemma nat_less_10_cases: "n < 10 \<Longrightarrow> n \<in> {0, 1, 2, 3, 4, 5, 6, 7, 8, 9 :: nat}"
  by auto

lemma digit_chr_u32: "x < 10 \<Longrightarrow> ucast (of_nat x + 0x30 :: u32) = digit_chr x"
  by (drule nat_less_10_cases) (auto simp: digit_chr_def)

text \<open>
  The partial sums of the conversion: with the hexadecimal digits \<open>a\<close>, \<open>b\<close>, \<open>c\<close> and the rest \<open>d\<close>, the number is
  \<open>a + 16 b + 256 c + 4096 d\<close>, and 16, 256 and 4096 are written in base ten.
\<close>

definition sum0 :: "nat \<Rightarrow> nat" where
  "sum0 n = 6 * (n div 4096 + n div 256 mod 16 + n div 16 mod 16) + n mod 16"
definition sum1 :: "nat \<Rightarrow> nat" where
  "sum1 n = sum0 n div 10 + 9 * (n div 4096) + 5 * (n div 256 mod 16) + n div 16 mod 16"
definition sum2 :: "nat \<Rightarrow> nat" where
  "sum2 n = sum1 n div 10 + 2 * (n div 256 mod 16)"
definition sum3 :: "nat \<Rightarrow> nat" where
  "sum3 n = sum2 n div 10 + 4 * (n div 4096)"

lemma hex_digits: "n = n mod 16 + 16 * (n div 16 mod 16) + 256 * (n div 256 mod 16) + 4096 * (n div 4096)"
  for n :: nat
proof -
  have "n div 16 div 16 = n div 256" "n div 256 div 16 = n div 4096" by (simp_all add: div_mult2_eq [symmetric])
  then show ?thesis
    using div_mult_mod_eq [of n 16] div_mult_mod_eq [of "n div 16" 16] div_mult_mod_eq [of "n div 256" 16]
    by linarith
qed

lemma tens: "(a + 10 * k) div 10 = a div 10 + k" for k :: nat
  by simp

lemma sum_quotients:
  fixes n :: nat
  shows "n mod 10 = sum0 n mod 10"
    and "n div 10 = sum1 n + 10 * (2 * (n div 256 mod 16) + 40 * (n div 4096))"
    and "n div 100 = sum2 n + 10 * (4 * (n div 4096))"
    and "n div 1000 = sum3 n"
proof -
  define a b c d where h: "a = n mod 16" "b = n div 16 mod 16" "c = n div 256 mod 16" "d = n div 4096"
  have "n = a + 16 * b + 256 * c + 4096 * d" using hex_digits [of n] by (simp only: h)
  then have "n = sum0 n + 10 * (b + 25 * c + 409 * d)" unfolding sum0_def h [symmetric] by simp
  then have n: "n = sum0 n + 10 * (n div 16 mod 16 + 25 * (n div 256 mod 16) + 409 * (n div 4096))"
    by (simp only: h)
  show "n mod 10 = sum0 n mod 10" by (subst n) (simp only: mod_mult_self2)
  have "n div 10 = sum0 n div 10 + (n div 16 mod 16 + 25 * (n div 256 mod 16) + 409 * (n div 4096))"
    by (subst n) (simp only: tens)
  then show 1: "n div 10 = sum1 n + 10 * (2 * (n div 256 mod 16) + 40 * (n div 4096))"
    unfolding sum1_def by simp
  have "n div 10 div 10 = sum1 n div 10 + (2 * (n div 256 mod 16) + 40 * (n div 4096))"
    by (subst 1) (simp only: tens)
  then have 2: "n div 100 = sum2 n + 10 * (4 * (n div 4096))"
    unfolding sum2_def by (simp add: div_mult2_eq [symmetric])
  then show "n div 100 = sum2 n + 10 * (4 * (n div 4096))" .
  have "n div 100 div 10 = sum2 n div 10 + 4 * (n div 4096)" by (subst 2) (simp only: tens)
  then show "n div 1000 = sum3 n" unfolding sum3_def by (simp add: div_mult2_eq [symmetric])
qed

lemma sum_bounds:
  assumes "n < 100000"
  shows "sum0 n < 1000" "sum1 n < 1000" "sum2 n < 64" "sum3 n < 100"
proof -
  define a b c d where h: "a = n mod 16" "b = n div 16 mod 16" "c = n div 256 mod 16" "d = n div 4096"
  have l: "a \<le> 15" "b \<le> 15" "c \<le> 15" "d \<le> 24" using assms by (auto simp: h)
  then have 0: "sum0 n < 340" unfolding sum0_def h [symmetric] by simp
  then have "sum0 n div 10 \<le> 33" by auto
  with l have 1: "sum1 n < 340" unfolding sum1_def h [symmetric] by linarith
  then have "sum1 n div 10 \<le> 33" by auto
  with l show "sum2 n < 64" unfolding sum2_def h [symmetric] by linarith
  show "sum3 n < 100" using assms by (simp add: sum_quotients(4) [symmetric])
  show "sum0 n < 1000" "sum1 n < 1000" using 0 1 by simp_all
qed

text \<open>Five digits, and the same sums on words.\<close>

definition five :: "nat \<Rightarrow> nat list" where
  "five n = [n mod 10, n div 10 mod 10, n div 100 mod 10, n div 1000 mod 10, n div 10000]"

lemma five_sums: "five n = [sum0 n mod 10, sum1 n mod 10, sum2 n mod 10, sum3 n mod 10, sum3 n div 10]"
proof -
  have "n div 10000 = n div 1000 div 10" by (simp add: div_mult2_eq [symmetric])
  moreover have "n div 10 mod 10 = sum1 n mod 10" by (simp only: sum_quotients(2) mod_mult_self2)
  moreover have "n div 100 mod 10 = sum2 n mod 10" by (simp only: sum_quotients(3) mod_mult_self2)
  ultimately show ?thesis by (simp only: five_def sum_quotients(1) [of n] sum_quotients(4))
qed

lemma word_sums:
  fixes n :: nat
  shows "6 * (of_nat (n div 4096) + of_nat (n div 256 mod 16) + of_nat (n div 16 mod 16)) + of_nat (n mod 16)
      = (of_nat (sum0 n) :: u32)"
    and "of_nat (sum0 n div 10) + 9 * of_nat (n div 4096) + 5 * of_nat (n div 256 mod 16) + of_nat (n div 16 mod 16)
      = (of_nat (sum1 n) :: u32)"
    and "of_nat (sum1 n div 10) + 2 * of_nat (n div 256 mod 16) = (of_nat (sum2 n) :: u32)"
    and "of_nat (sum2 n div 10) + 4 * of_nat (n div 4096) = (of_nat (sum3 n) :: u32)"
  by (simp_all only: sum0_def sum1_def sum2_def sum3_def of_nat_add of_nat_mult of_nat_numeral)

lemma hex_fields:
  assumes "n < 100000"
  shows "drop_bit 4 (of_nat n :: u32) AND 0xF = of_nat (n div 16 mod 16)"
    and "drop_bit 8 (of_nat n :: u32) AND 0xF = of_nat (n div 256 mod 16)"
    and "drop_bit 12 (of_nat n :: u32) = of_nat (n div 4096)"
    and "(of_nat n :: u32) AND 0xF = of_nat (n mod 16)"
proof -
  have "n div 16 < 4294967296" "n div 256 < 4294967296" using assms by auto
  then show "drop_bit 4 (of_nat n :: u32) AND 0xF = of_nat (n div 16 mod 16)"
    and "drop_bit 8 (of_nat n :: u32) AND 0xF = of_nat (n div 256 mod 16)"
    and "drop_bit 12 (of_nat n :: u32) = of_nat (n div 4096)"
    and "(of_nat n :: u32) AND 0xF = of_nat (n mod 16)"
    using assms by (simp_all only: drop_bit_u32_of_nat and_15_u32_of_nat) (simp_all add: drop_bit_u32_of_nat and_15_u32_of_nat)
qed

lemma put_dec_full_five:
  assumes "n < 100000"
  shows "put_dec_full (of_nat n) = map digit_chr (five n)"
proof -
  have "sum3 n < 1000" and q: "sum3 n div 10 < 10" using sum_bounds [OF assms] by auto
  note t = tenth_CD [OF sum_bounds(1) [OF assms]] tenth_CD [OF sum_bounds(2) [OF assms]]
    tenth_D [OF sum_bounds(3) [OF assms]] tenth_CD [OF \<open>sum3 n < 1000\<close>]
  show ?thesis
    by (simp only: put_dec_full_def Let_def hex_fields [OF assms] word_sums t
        unit_digit five_sums list.map digit_chr_u32 q mod_less_divisor
        zero_less_numeral)
qed

lemma sum_zero:
  "sum1 n = 0 \<longleftrightarrow> n div 10 = 0" "sum2 n = 0 \<and> n div 4096 = 0 \<longleftrightarrow> n div 100 = 0"
  "sum3 n = 0 \<longleftrightarrow> n div 1000 = 0" "sum3 n div 10 = 0 \<longleftrightarrow> n div 10000 = 0"
proof -
  show "sum1 n = 0 \<longleftrightarrow> n div 10 = 0"
    by (simp only: sum_quotients(2) add_is_0 mult_is_0) (auto simp: sum1_def)
  show "sum2 n = 0 \<and> n div 4096 = 0 \<longleftrightarrow> n div 100 = 0"
    by (simp only: sum_quotients(3) add_is_0 mult_is_0) auto
  show "sum3 n = 0 \<longleftrightarrow> n div 1000 = 0" by (simp only: sum_quotients(4))
  have "n div 10000 = n div 1000 div 10" by (simp add: div_mult2_eq [symmetric])
  then show "sum3 n div 10 = 0 \<longleftrightarrow> n div 10000 = 0" by (simp only: sum_quotients(4))
qed

lemma digits_le_10: "digits_le 10 m = (if m div 10 = 0 then [m mod 10] else m mod 10 # digits_le 10 (m div 10))"
  by (subst digits_le.simps) (auto simp: div_eq_0_iff)

lemma digits_le_five:
  assumes "n < 100000"
  shows "digits_le 10 n =
    (if n div 10 = 0 then [n mod 10]
     else if n div 100 = 0 then [n mod 10, n div 10 mod 10]
     else if n div 1000 = 0 then [n mod 10, n div 10 mod 10, n div 100 mod 10]
     else if n div 10000 = 0 then [n mod 10, n div 10 mod 10, n div 100 mod 10, n div 1000 mod 10]
     else five n)"
proof -
  have d: "n div 10 div 10 = n div 100" "n div 100 div 10 = n div 1000" "n div 1000 div 10 = n div 10000"
    by (simp_all add: div_mult2_eq [symmetric])
  have "n div 10000 < 10" using assms by auto
  then have 4: "digits_le 10 (n div 10000) = [n div 10000]" by (rule digits_le_small)
  have 3: "digits_le 10 (n div 1000) =
      (if n div 10000 = 0 then [n div 1000 mod 10] else [n div 1000 mod 10, n div 10000])"
    by (subst digits_le_10) (simp only: d 4)
  have 2: "digits_le 10 (n div 100) =
      (if n div 1000 = 0 then [n div 100 mod 10] else n div 100 mod 10 # digits_le 10 (n div 1000))"
    by (subst digits_le_10) (simp only: d)
  have 1: "digits_le 10 (n div 10) =
      (if n div 100 = 0 then [n div 10 mod 10] else n div 10 mod 10 # digits_le 10 (n div 100))"
    by (subst digits_le_10) (simp only: d)
  show ?thesis by (subst digits_le_10) (simp only: 1 2 3 five_def if_distrib [of "Cons _"] cong: if_cong)
qed

lemma put_dec_trunc_digits:
  assumes "n < 100000"
  shows "put_dec_trunc (of_nat n) = map digit_chr (digits_le 10 n)"
proof -
  have b: "sum1 n < 4294967296" "sum2 n < 4294967296" "sum3 n < 4294967296" "sum3 n div 10 < 4294967296"
    "n div 4096 < 4294967296" "sum3 n < 1000" and q: "sum3 n div 10 < 10"
    using sum_bounds [OF assms] assms by auto
  note t = tenth_CD [OF sum_bounds(1) [OF assms]] tenth_CD [OF sum_bounds(2) [OF assms]]
    tenth_D [OF sum_bounds(3) [OF assms]] tenth_CD [OF \<open>sum3 n < 1000\<close>]
  have z: "of_nat (sum1 n) = (0 :: u32) \<longleftrightarrow> n div 10 = 0"
    "(of_nat (sum2 n) = (0 :: u32) \<and> of_nat (n div 4096) = (0 :: u32)) \<longleftrightarrow> n div 100 = 0"
    "of_nat (sum3 n) = (0 :: u32) \<longleftrightarrow> n div 1000 = 0"
    "of_nat (sum3 n div 10) = (0 :: u32) \<longleftrightarrow> n div 10000 = 0"
    by (simp_all only: u32_of_nat_eq_0 [OF b(1)] u32_of_nat_eq_0 [OF b(2)] u32_of_nat_eq_0 [OF b(3)]
        u32_of_nat_eq_0 [OF b(4)] u32_of_nat_eq_0 [OF b(5)] sum_zero)
  have m: "sum0 n mod 10 = n mod 10" "sum1 n mod 10 = n div 10 mod 10" "sum2 n mod 10 = n div 100 mod 10"
    "sum3 n mod 10 = n div 1000 mod 10" "sum3 n div 10 = n div 10000"
    using five_sums [of n] by (simp_all only: five_def list.inject)
  have "put_dec_trunc (of_nat n) =
    (if n div 10 \<noteq> 0 then
       if n div 100 \<noteq> 0 then
         if n div 1000 \<noteq> 0 then
           if n div 10000 \<noteq> 0 then map digit_chr
             [sum0 n mod 10, sum1 n mod 10, sum2 n mod 10, sum3 n mod 10, sum3 n div 10]
           else map digit_chr [sum0 n mod 10, sum1 n mod 10, sum2 n mod 10, sum3 n mod 10]
         else map digit_chr [sum0 n mod 10, sum1 n mod 10, sum2 n mod 10]
       else map digit_chr [sum0 n mod 10, sum1 n mod 10]
     else map digit_chr [sum0 n mod 10])"
    by (simp only: put_dec_trunc_def Let_def hex_fields [OF assms] word_sums t de_Morgan_conj [symmetric] z
        unit_digit digit_chr_u32 q mod_less_divisor zero_less_numeral list.map)
  then show ?thesis by (simp add: digits_le_five [OF assms] five_def m)
qed

lemma digits_le_tens:
  assumes "0 < q"
  shows "digits_le 10 (r + 10 * q) = r mod 10 # digits_le 10 (r div 10 + q)"
proof -
  have "digits_le 10 (r + 10 * q) = (r + 10 * q) mod 10 # digits_le 10 ((r + 10 * q) div 10)"
    using assms by (intro digits_le_step) auto
  then show ?thesis by (simp only: tens mod_mult_self2)
qed

lemma digits_le_split:
  assumes "100000 \<le> n"
  shows "digits_le 10 n = five (n mod 100000) @ digits_le 10 (n div 100000)"
proof -
  define r q where rq: "r = n mod 100000" "q = n div 100000"
  have q: "0 < q" "r < 100000" using assms by (auto simp: rq)
  have d: "r div 10 div 10 = r div 100" "r div 100 div 10 = r div 1000" "r div 1000 div 10 = r div 10000"
    "r div 10000 mod 10 = r div 10000" "r div 10000 div 10 = 0"
    using q by (auto simp: div_mult2_eq [symmetric])
  have "n = r + 10 * (10 * (10 * (10 * (10 * q))))" by (simp add: rq)
  then have "digits_le 10 n = [r mod 10, r div 10 mod 10, r div 100 mod 10, r div 1000 mod 10, r div 10000 mod 10]
      @ digits_le 10 (r div 10000 div 10 + q)"
    using q(1) by (simp only: digits_le_tens d zero_less_mult_iff zero_less_numeral simp_thms append.simps)
  then show ?thesis by (simp only: d five_def rq [symmetric] add_0)
qed

lemma ucast_u64_u32: "ucast (w :: u64) = (of_nat (unat w) :: u32)"
  by (rule of_nat_unat [symmetric])

text \<open>The shift and add routine prints the decimal digits of every 64-bit number.\<close>

lemma put_dec_digits: "put_dec num = map digit_chr (digits_le 10 (unat num))"
proof (induction num rule: put_dec.induct)
  case (1 num)
  show ?case
  proof (cases "num < 100000")
    case True
    then have "unat num < 100000" by (simp add: word_less_nat_alt)
    then show ?thesis using True by (subst put_dec.simps) (simp only: ucast_u64_u32 put_dec_trunc_digits if_True)
  next
    case False
    then have n: "100000 \<le> unat num" by (simp add: word_less_nat_alt)
    have m: "unat (num mod 100000) = unat num mod 100000" "unat (num div 100000) = unat num div 100000"
      by (simp_all add: unat_mod unat_div)
    have "put_dec_full (ucast (num mod 100000)) = map digit_chr (five (unat num mod 100000))"
      by (simp only: ucast_u64_u32 m) (simp add: put_dec_full_five)
    then show ?thesis using 1 False n by (subst put_dec.simps) (simp add: m digits_le_split)
  qed
qed

lemma simple_itoa_digits: "simple_itoa i = rev (map digit_chr (digits_le 10 (unat i)))"
proof -
  have "itoa_loop i p = rev (map digit_chr (digits_le 10 (unat i))) @ p" for p
  proof (induction i p rule: itoa_loop.induct)
    case (1 i p)
    have "unat (i mod 10) = unat i mod 10" by (simp add: unat_mod)
    moreover have "of_nat (unat (i mod 10)) = i mod 10" by simp
    ultimately have "i mod 10 = of_nat (unat i mod 10)" by simp
    then have c: "ucast (0x30 + i mod 10) = digit_chr (unat i mod 10)"
      using digit_chr_u32 [of "unat i mod 10"] by (simp add: add.commute)
    have u: "unat (i div 10) = unat i div 10" by (simp add: unat_div)
    show ?case
    proof (cases "i div 10 > 0")
      case True
      then have "unat i div 10 \<noteq> 0" by (simp add: word_gt_0 word_eq_0_unat u)
      then show ?thesis using True 1 by (subst itoa_loop.simps, subst digits_le_10) (simp add: c u Let_def)
    next
      case False
      then have "unat i div 10 = 0" by (simp add: word_gt_0 word_eq_0_unat u)
      then show ?thesis using False by (subst itoa_loop.simps, subst digits_le_10) (simp add: c Let_def)
    qed
  qed
  then show ?thesis by (simp add: simple_itoa_def)
qed

text \<open>The masks and shifts of the bases 8 and 16.\<close>

definition cased :: "u8 \<Rightarrow> nat \<Rightarrow> u8" where
  "cased locase d = digit_chr d OR locase"

lemma digits_nth: "d < 16 \<Longrightarrow> digits ! d = digit_chr d"
  by (drule nat_less_16_cases) (auto simp: digits_def bytes_of_def digit_chr_def)

lemma mod_mod_256: "n mod 256 mod 16 = n mod 16" "n mod 256 mod 8 = n mod 8" for n :: nat
  by (simp_all add: mod_mod_cancel)

lemma unat_ucast_u64_u8: "unat (ucast (w :: u64) :: u8) = unat w mod 256"
  by (simp add: unsigned_ucast_eq take_bit_eq_mod)

lemma digit_loop_step:
  assumes "base = 8 \<or> base = 16"
  shows "digit_loop num base locase = cased locase (unat num mod base) #
    (if unat num div base \<noteq> 0 then digit_loop (drop_bit (if base = 16 then 4 else 3) num) base locase else [])"
proof -
  have "unat (ucast num AND (of_nat base - 1) :: u8) = unat num mod base"
    using assms by (auto simp: unat_and_7 unat_and_0xF unat_ucast_u64_u8 mod_mod_256)
  moreover have "unat num mod base < 16" using assms by auto
  moreover have "(drop_bit (if base = 16 then 4 else 3) num = 0) = (unat num div base = 0)"
    using assms by (auto simp only: word_eq_0_unat unat_drop_bit_div) auto
  ultimately show ?thesis by (subst digit_loop.simps) (simp add: Let_def digits_nth cased_def)
qed

lemma digit_loop_digits:
  assumes "base = 8 \<or> base = 16"
  shows "digit_loop num base locase = map (cased locase) (digits_le base (unat num))"
proof (induction "unat num" arbitrary: num rule: less_induct)
  case less
  define n' where "n' = drop_bit (if base = 16 then 4 else 3) num"
  have u: "unat n' = unat num div base"
    using assms by (auto simp: n'_def unat_drop_bit_div)
  show ?case
  proof (cases "unat num div base = 0")
    case True
    then have "unat num < base" using assms by (auto simp: div_eq_0_iff)
    with True show ?thesis using assms by (subst digit_loop_step) (simp_all add: digits_le_small)
  next
    case False
    then have "base \<le> unat num" by (metis div_less not_le)
    moreover have "unat n' < unat num" using False assms by (auto simp: u)
    ultimately show ?thesis using False assms less [of n']
      by (subst digit_loop_step) (auto simp: u n'_def [symmetric] digits_le_step simp del: of_nat_numeral)
  qed
qed

lemma cased_10: "d < 10 \<Longrightarrow> cased 0x20 d = digit_chr d" "cased 0 d = digit_chr d"
  by (drule nat_less_10_cases) (auto simp: cased_def digit_chr_def)

text \<open>The digits that \<open>number\<close> prints.\<close>

lemma number_digits_digits:
  assumes "base = 8 \<or> base = 10 \<or> base = 16" and "locase = 0 \<or> locase = 0x20"
  shows "number_digits num base locase = map (cased locase) (digits_le base (unat num))"
proof (cases "num = 0 \<or> base \<noteq> 10")
  case True
  then show ?thesis using assms
    by (auto simp: number_digits_def digits_le_small digit_loop_digits cased_def digit_chr_def)
next
  case False
  have "cased locase d = digit_chr d" if "d \<in> set (digits_le 10 (unat num))" for d
    using digits_le_less [OF _ that] assms(2) by (auto simp: cased_10)
  then show ?thesis using False by (simp add: number_digits_def put_dec_digits)
qed

subsection \<open>The layout of a field\<close>

lemma pad_loop_eq: "pad_loop lo n c = (replicate (nat (n - lo)) c, min n lo - 1)"
proof (induction lo n c rule: pad_loop.induct)
  case (1 lo n c)
  show ?case
  proof (cases "lo \<le> n - 1")
    case True
    then have "nat (n - lo) = Suc (nat (n - 1 - lo))" by simp
    then show ?thesis using 1 True by (subst pad_loop.simps) simp
  qed (subst pad_loop.simps, simp)
qed

lemma flag_bits:
  fixes w :: u32
  shows "w AND 1 = 0 \<longleftrightarrow> \<not> bit w 0" "w AND 2 = 0 \<longleftrightarrow> \<not> bit w 1" "w AND 4 = 0 \<longleftrightarrow> \<not> bit w 2"
    "w AND 8 = 0 \<longleftrightarrow> \<not> bit w 3" "w AND 16 = 0 \<longleftrightarrow> \<not> bit w 4" "w AND 32 = 0 \<longleftrightarrow> \<not> bit w 5"
    "w AND 64 = 0 \<longleftrightarrow> \<not> bit w 6"
  using and_exp_eq_0_iff_not_bit [of w 0] and_exp_eq_0_iff_not_bit [of w 1] and_exp_eq_0_iff_not_bit [of w 2]
    and_exp_eq_0_iff_not_bit [of w 3] and_exp_eq_0_iff_not_bit [of w 4] and_exp_eq_0_iff_not_bit [of w 5]
    and_exp_eq_0_iff_not_bit [of w 6] by simp_all

lemma flag_bits_17: "w AND 17 = 0 \<longleftrightarrow> \<not> bit w 0 \<and> \<not> bit w 4" for w :: u32
proof -
  have "w AND 17 = (w AND 1) OR (w AND 16)" by (simp add: bit.conj_disj_distrib [symmetric])
  then show ?thesis by (simp add: or_eq_0_iff flag_bits)
qed

lemma flag_bits_clear: "bit (w AND - 2) k \<longleftrightarrow> bit w k \<and> k \<noteq> 0" for w :: u32
proof -
  have "- 2 = NOT (1 :: u32)" by simp
  then show ?thesis by (simp only: bit_and_iff bit_not_iff) (auto simp: bit_1_iff dest: bit_imp_le_length)
qed

lemma and_exp_if: "w AND 2 ^ k = (if bit w k then 2 ^ k else 0)" for w :: u32
  by (rule bit_word_eqI) (auto simp: bit_simps)

lemma locase_cases: "ucast (w AND 32 :: u32) = (if bit w 5 then 0x20 else 0 :: u8)"
  using and_exp_if [of w 5] by simp

text \<open>
  What a number field should be: the sign and the prefix, the digits with at least \<open>precision\<close> of them, and
  the field filled on the left with blanks, with zeros after the prefix, or on the right.
\<close>

definition magnitude :: "u64 \<Rightarrow> u32 \<Rightarrow> nat" where
  "magnitude num type = (if type AND SIGN = 0 then unat num else nat \<bar>sint num\<bar>)"

definition sign_text :: "u64 \<Rightarrow> u32 \<Rightarrow> u8 list" where
  "sign_text num type =
     (if type AND SIGN = 0 then []
      else if sint num < 0 then bytes_of ''-''
      else if type AND PLUS \<noteq> 0 then bytes_of ''+''
      else if type AND SPACE \<noteq> 0 then bytes_of '' '' else [])"

definition prefix_text :: "nat \<Rightarrow> u32 \<Rightarrow> u8 list" where
  "prefix_text base type =
     (if type AND SPECIAL = 0 \<or> base = 10 then []
      else if base = 8 then bytes_of ''0''
      else if type AND SMALL = 0 then bytes_of ''0X'' else bytes_of ''0x'')"

definition digits_text :: "nat \<Rightarrow> nat \<Rightarrow> int \<Rightarrow> u32 \<Rightarrow> u8 list" where
  "digits_text base n precision type =
     (let ds = rev (map (cased (if type AND SMALL = 0 then 0 else 0x20)) (digits_le base n))
      in replicate (nat precision - length ds) 0x30 @ ds)"

definition field :: "u32 \<Rightarrow> int \<Rightarrow> u8 list \<Rightarrow> u8 list \<Rightarrow> u8 list" where
  "field type width pre body =
     (let fill = nat width - length (pre @ body) in
      if type AND LEFT \<noteq> 0 then pre @ body @ replicate fill 0x20
      else if type AND ZEROPAD \<noteq> 0 then pre @ replicate fill 0x30 @ body
      else replicate fill 0x20 @ pre @ body)"

lemma unat_abs_sint:
  fixes num :: u64
  shows "unat (if sint num < 0 then - num else num) = nat \<bar>sint num\<bar>"
proof -
  have "(if sint num < 0 then - num else num) = word_of_int \<bar>sint num\<bar>" by simp
  moreover have "\<bar>sint num\<bar> < 2 ^ 64" using sint_lt [of num] sint_ge [of num] by simp
  ultimately show ?thesis by (simp only: unat_eq_nat_uint uint_word_of_int_eq) (simp add: take_bit_int_eq_self)
qed

lemma number_sign_spec:
  assumes "type AND SIGN \<noteq> 0 \<longrightarrow> sint num \<noteq> - (2 ^ 63)"
  shows "\<exists>c m. number_sign num width type = Some (c, m, width - int (length (sign_text num type)))
    \<and> unat m = magnitude num type \<and> (if c \<noteq> 0 then [c] else []) = sign_text num type"
  using assms unat_abs_sint [of num]
  by (auto simp: number_sign_def sign_text_def magnitude_def bytes_of_def)

lemma prefix_text_eq:
  assumes "base = 8 \<or> base = 10 \<or> base = 16"
  shows "(if type AND SPECIAL \<noteq> 0 \<and> base \<noteq> 10 then
      if base = 16 then [0x30, 0x58 OR ucast (type AND SMALL)] else [0x30] else []) = prefix_text base type"
    and "(if type AND SPECIAL \<noteq> 0 \<and> base \<noteq> 10 then if base = 16 then w - 1 - 1 else w - 1 else w)
      = w - int (length (prefix_text base type))"
  using assms by (auto simp: prefix_text_def bytes_of_def locase_cases flag_bits)

lemma digits_text_eq:
  assumes "base = 8 \<or> base = 10 \<or> base = 16" and "tmp = number_digits m base (ucast (type AND SMALL))"
  shows "fst (pad_loop (int (length tmp)) (if int (length tmp) > precision then int (length tmp) else precision) 0x30)
      @ rev tmp = digits_text base (unat m) precision type"
    and "(if int (length tmp) > precision then int (length tmp) else precision) =
      int (length (digits_text base (unat m) precision type))"
proof -
  have "tmp = map (cased (if type AND SMALL = 0 then 0 else 0x20)) (digits_le base (unat m))"
    using number_digits_digits [OF assms(1)] by (auto simp: assms(2) locase_cases flag_bits)
  then show "fst (pad_loop (int (length tmp)) (if int (length tmp) > precision then int (length tmp) else precision) 0x30)
      @ rev tmp = digits_text base (unat m) precision type"
    and "(if int (length tmp) > precision then int (length tmp) else precision) =
      int (length (digits_text base (unat m) precision type))"
    by (auto simp: digits_text_def pad_loop_eq nat_diff_distrib' rev_map)
qed

lemma field_eq:
  fixes type' :: u32
  assumes "type' = (if type AND LEFT \<noteq> 0 then type AND NOT ZEROPAD else type)"
  shows "(let (lead, w) = (if type' AND (ZEROPAD + LEFT) = 0 then pad_loop 0 w 0x20 else ([], w));
      (mid, w) = (if type' AND LEFT = 0 then pad_loop 0 w (if type' AND ZEROPAD \<noteq> 0 then 0x30 else 0x20) else ([], w));
      (trail, w) = pad_loop 0 w 0x20 in lead @ pre @ mid @ body @ trail)
    = field type (w + int (length (pre @ body))) pre body"
  by (auto simp: assms field_def flag_bits flag_bits_17 flag_bits_clear pad_loop_eq nat_diff_distrib' Let_def)

lemma number_layout:
  assumes base: "base = 8 \<or> base = 10 \<or> base = 16"
    and "type AND SIGN \<noteq> 0 \<longrightarrow> sint num \<noteq> - (2 ^ 63)"
  shows "number num base width precision type =
    Some (field type width (sign_text num type @ prefix_text base type)
      (digits_text base (magnitude num type) precision type))"
proof -
  define type' where t: "type' = (if type AND LEFT \<noteq> 0 then type AND NOT ZEROPAD else type)"
  have s: "type' AND SIGN = type AND SIGN" "type' AND PLUS = type AND PLUS" "type' AND SPACE = type AND SPACE"
    using and_exp_if [of type' 1] and_exp_if [of type 1] and_exp_if [of type' 2] and_exp_if [of type 2]
      and_exp_if [of type' 3] and_exp_if [of type 3] by (simp_all add: t flag_bits_clear)
  then have st: "sign_text num type' = sign_text num type" "magnitude num type' = magnitude num type"
    by (simp_all add: sign_text_def magnitude_def)
  from number_sign_spec [of type' num width] assms(2) obtain c m where
    c: "number_sign num width type' = Some (c, m, width - int (length (sign_text num type)))"
      "unat m = magnitude num type" "(if c \<noteq> 0 then [c] else []) = sign_text num type"
    unfolding s st by auto
  note d = digits_text_eq [OF base refl, where m = m and type = type and precision = precision, unfolded c(2)]
  define pre body where pb: "pre = sign_text num type @ prefix_text base type"
    "body = digits_text base (magnitude num type) precision type"
  define tmp where tmp: "tmp = number_digits m base (ucast (type AND SMALL))"
  have z: "fst (pad_loop (int (length tmp)) (int (length body)) 0x30) @ rev tmp @ ys = body @ ys" for ys
    using d(1) unfolding tmp [symmetric] d(2) [folded tmp] by (simp only: pb append_assoc [symmetric])
  have p: "sign_text num type @ prefix_text base type @ ys = pre @ ys"
    "sign_text num type @ prefix_text base type = pre" for ys
    by (simp_all add: pb)
  have w: "width - int (length (sign_text num type)) - int (length (prefix_text base type)) - int (length body)
      + int (length (pre @ body)) = width"
    by (simp add: pb)
  show ?thesis
    using field_eq [OF t, of "width - int (length (sign_text num type)) - int (length (prefix_text base type)) -
        int (length body)" pre body, unfolded w]
    unfolding number_def Let_def t [symmetric] c(1) bind.simps prod.case prefix_text_eq [OF base] c(3)
      tmp [symmetric] d(2) [folded tmp] pb(2) [symmetric]
    by (simp add: case_prod_beta z p split del: if_split)
qed

subsection \<open>Reading back\<close>

lemma chr0_simps [simp]: "chr0 [] = 0" "chr0 (c # s) = c"
  by (simp_all add: chr0_def)

lemma cased_reads:
  assumes "d < 16" and "l = 0 \<or> l = 0x20"
  shows "isxdigit (cased l d)" "digit_value (cased l d) = of_nat d" "cased l d \<noteq> 0x78" "cased l d = 0x30 \<longleftrightarrow> d = 0"
proof -
  have "list_all (\<lambda>d. list_all (\<lambda>l. isxdigit (cased l d) \<and> digit_value (cased l d) = of_nat d \<and> cased l d \<noteq> 0x78
      \<and> (cased l d = 0x30 \<longleftrightarrow> d = 0)) [0, 0x20]) [0..<16]"
    by code_simp
  moreover have "d \<in> set [0..<16]" "l \<in> set [0, 0x20]" using assms by auto
  ultimately have "isxdigit (cased l d) \<and> digit_value (cased l d) = of_nat d \<and> cased l d \<noteq> 0x78
      \<and> (cased l d = 0x30 \<longleftrightarrow> d = 0)"
    unfolding list_all_iff by (elim ballE [of _ _ d] ballE [of _ _ l]) blast+
  then show "isxdigit (cased l d)" "digit_value (cased l d) = of_nat d" "cased l d \<noteq> 0x78" "cased l d = 0x30 \<longleftrightarrow> d = 0"
    by blast+
qed

lemma ucast_u32_of_nat: "n < 4294967296 \<Longrightarrow> ucast (of_nat n :: u32) = (of_nat n :: 'w::len word)"
  by (subst of_nat_unat [symmetric]) (simp add: unat_of_nat)

lemma strtoul_loop_digits:
  assumes "base \<le> 16" and "\<forall>d \<in> set ds. d < base" and "l = 0 \<or> l = 0x20"
  shows "strtoul_loop (of_nat base) (map (cased l) ds) (of_nat r :: 'w::len word) =
    (of_nat (foldl (\<lambda>r d. r * base + d) r ds), [])"
  using assms(2)
proof (induction ds arbitrary: r)
  case (Cons d ds)
  then have d: "d < base" "d < 16" using assms(1) by auto
  have "(of_nat d :: u32) < of_nat base" using d(1) assms(1)
    by (simp add: word_less_nat_alt unat_of_nat)
  moreover have "(of_nat r * ucast (of_nat base :: u32) + ucast (of_nat d :: u32) :: 'w word) = of_nat (r * base + d)"
    using d(2) assms(1) by (simp add: ucast_u32_of_nat)
  ultimately show ?case using Cons.IH [of "r * base + d"] Cons.prems d(2) assms(3)
    by (simp add: cased_reads del: of_nat_add of_nat_mult)
qed simp

text \<open>The value does not depend on leading zeros, and the prefixes leave the digits.\<close>

lemma foldl_zeros: "foldl (\<lambda>r d. r * b + d) 0 (replicate k 0 @ ds) = foldl (\<lambda>r d. r * b + d) 0 (ds :: nat list)"
  by (induction k) auto

lemma strtoul_base_plain:
  assumes "base = 8 \<or> base = 10 \<or> base = 16" and "ds \<noteq> []" "\<forall>d \<in> set ds. d < base" and "l = 0 \<or> l = 0x20"
  shows "strtoul_base (map (cased l) ds) (of_nat base) =
    (map (cased l) (if hd ds = 0 then tl ds else ds), of_nat base)"
proof -
  obtain d es where ds: "ds = d # es" using assms(2) by (cases ds) auto
  have "d < 16" using assms(1,3) ds by auto
  have "chr0 (map (cased l) es) \<noteq> 0x78"
    using assms(1,3,4) ds cased_reads(3) [of "hd es" l] by (cases es) auto
  moreover have "(of_nat base :: u32) \<noteq> 0" using assms(1) by auto
  ultimately show ?thesis using cased_reads(4) [OF \<open>d < 16\<close> assms(4)]
    by (simp add: strtoul_base_def ds Let_def)
qed

lemma strtoul_plain:
  assumes "base = 8 \<or> base = 10 \<or> base = 16" and "ds \<noteq> []" "\<forall>d \<in> set ds. d < base" and "l = 0 \<or> l = 0x20"
  shows "(case strtoul_base (map (cased l) ds) (of_nat base) of (cp, b) \<Rightarrow> strtoul_loop b cp 0) =
    (of_nat (foldl (\<lambda>r d. r * base + d) 0 ds) :: 'w::len word, [])"
proof -
  define es where es: "es = (if hd ds = 0 then tl ds else ds)"
  have "foldl (\<lambda>r d. r * base + d) 0 es = foldl (\<lambda>r d. r * base + d) 0 ds"
    using assms(2) by (cases ds) (auto simp: es)
  moreover have "\<forall>d \<in> set es. d < base" "base \<le> 16"
    using assms(1-3) by (cases ds; auto simp: es)+
  then have "strtoul_loop (of_nat base) (map (cased l) es) (of_nat 0 :: 'w word) =
      (of_nat (foldl (\<lambda>r d. r * base + d) 0 es), [])"
    by (intro strtoul_loop_digits assms(4))
  ultimately show ?thesis by (simp add: strtoul_base_plain [OF assms] es [symmetric])
qed

lemma strtoul_prefixed:
  assumes "ds \<noteq> []" "\<forall>d \<in> set ds. d < 16" and "l = 0 \<or> l = 0x20"
  shows "(case strtoul_base (bytes_of ''0x'' @ map (cased l) ds) 16 of (cp, b) \<Rightarrow> strtoul_loop b cp 0) =
    (of_nat (foldl (\<lambda>r d. r * 16 + d) 0 ds) :: 'w::len word, [])"
proof -
  have "isxdigit (chr0 (map (cased l) ds))"
    using assms(1,2) cased_reads(1) [of "hd ds" l] assms(3) by (cases ds) auto
  then have "strtoul_base (bytes_of ''0x'' @ map (cased l) ds) 16 = (map (cased l) ds, 16)"
    by (simp add: strtoul_base_def bytes_of_def)
  then show ?thesis using strtoul_loop_digits [where r = 0 and base = 16, OF _ assms(2,3)] by simp
qed

text \<open>A field without blanks is the prefix and digits, leading zeros included.\<close>

lemma field_digits:
  assumes "base = 8 \<or> base = 10 \<or> base = 16"
    and "type AND SIGN = 0" and "width \<le> 0 \<or> type AND ZEROPAD \<noteq> 0 \<and> type AND LEFT = 0"
  obtains k where "number num base width precision type = Some (prefix_text base type @
    map (cased (if type AND SMALL = 0 then 0 else 0x20)) (replicate k 0 @ rev (digits_le base (unat num))))"
proof -
  define l :: u8 where "l = (if type AND SMALL = 0 then 0 else 0x20)"
  define body where "body = digits_text base (unat num) precision type"
  have z: "cased l 0 = 0x30" by (simp add: cased_def digit_chr_def l_def)
  obtain j where j: "body = map (cased l) (replicate j 0 @ rev (digits_le base (unat num)))"
    by (auto simp: digits_text_def body_def l_def [symmetric] z rev_map Let_def)
  have "\<exists>k. field type width (prefix_text base type) body = prefix_text base type @ replicate k 0x30 @ body"
    using assms(3) by (auto simp: field_def Let_def intro: exI [of _ 0])
  then obtain k where "field type width (prefix_text base type) body = prefix_text base type @ replicate k 0x30 @ body"
    by blast
  then have "number num base width precision type = Some (prefix_text base type @ replicate k 0x30 @ body)"
    using number_layout [OF assms(1), of type num width precision] assms(2)
    by (simp add: sign_text_def magnitude_def body_def)
  then show ?thesis using that [of "k + j"] by (simp add: j z l_def [symmetric] replicate_add)
qed

lemma strtoul_field:
  assumes "base = 8 \<or> base = 10 \<or> base = 16" and "l = 0 \<or> l = 0x20"
    and "base = 16 \<and> type AND SPECIAL \<noteq> 0 \<longrightarrow> type AND SMALL \<noteq> 0"
  shows "(case strtoul_base (prefix_text base type @ map (cased l) (replicate k 0 @ rev (digits_le base n)))
      (of_nat base) of (cp, b) \<Rightarrow> strtoul_loop b cp 0) = (of_nat n :: 'w::len word, [])"
proof -
  define ds where "ds = (if base = 8 \<and> type AND SPECIAL \<noteq> 0 then [0] else []) @ replicate k 0 @ rev (digits_le base n)"
  have d: "ds \<noteq> []" "\<forall>d \<in> set ds. d < base" using digits_le_less [of base] assms(1) by (auto simp: ds_def)
  have v: "foldl (\<lambda>r d. r * base + d) 0 ds = n"
    using digits_le_value [of base n] assms(1) foldl_zeros [of base k] by (auto simp: ds_def)
  have z: "cased l 0 = 0x30" using assms(2) by (auto simp: cased_def digit_chr_def)
  show ?thesis
  proof (cases "base = 16 \<and> type AND SPECIAL \<noteq> 0")
    case True
    then have "prefix_text base type = bytes_of ''0x''" "ds = replicate k 0 @ rev (digits_le base n)"
      using assms(3) by (auto simp: prefix_text_def ds_def)
    then show ?thesis using strtoul_prefixed [OF d(1) _ assms(2)] d(2) v True by simp
  next
    case False
    then have "prefix_text base type @ map (cased l) (replicate k 0 @ rev (digits_le base n)) = map (cased l) ds"
      using assms(1) by (auto simp: prefix_text_def ds_def z bytes_of_def)
    then show ?thesis using strtoul_plain [OF assms(1) d assms(2)] v by simp
  qed
qed

lemma reads_back:
  assumes "base = 8 \<or> base = 10 \<or> base = 16" and "type AND SIGN = 0"
    and "width \<le> 0 \<or> type AND ZEROPAD \<noteq> 0 \<and> type AND LEFT = 0"
    and "base = 16 \<and> type AND SPECIAL \<noteq> 0 \<longrightarrow> type AND SMALL \<noteq> 0"
  shows "\<exists>s. number num base width precision type = Some s
    \<and> simple_strtoull s (of_nat base) = (num, []) \<and> simple_strtoul s (of_nat base) = (ucast num, [])"
proof -
  define l :: u8 where "l = (if type AND SMALL = 0 then 0 else 0x20)"
  have l: "l = 0 \<or> l = 0x20" by (auto simp: l_def)
  from field_digits [OF assms(1-3)] obtain k where
    s: "number num base width precision type =
      Some (prefix_text base type @ map (cased l) (replicate k 0 @ rev (digits_le base (unat num))))"
    unfolding l_def by blast
  have "of_nat (unat num) = num" "of_nat (unat num) = (ucast num :: u32)" by simp_all
  then show ?thesis
    by (simp only: s simple_strtoull_def simple_strtoul_def Let_def strtoul_field [OF assms(1) l assms(4)]
        option.inject ex_simps simp_thms)
qed

text \<open>The text of a number with \<^verbatim>\<open>%lx\<close> and of \<open>simple_itoa\<close>.\<close>

definition hex_text :: "u32 \<Rightarrow> str" where
  "hex_text v = map (cased 0x20) (rev (digits_le 16 (unat v)))"

lemma sprintf_lx: "vsnprintf_loop (bytes_of ''%lx'') [Va_word v] 0 = Some (hex_text v, [])"
proof -
  have "unat (ucast v :: u64) = unat v"
    using unat_u32_less [of v] by (simp add: unsigned_ucast_eq take_bit_eq_mod)
  then have "number (ucast v) 16 (- 1) (- 1) SMALL = Some (hex_text v)"
    by (subst number_layout) (auto simp: field_def sign_text_def prefix_text_def digits_text_def magnitude_def hex_text_def rev_map)
  then show ?thesis
    by (simp add: vsnprintf_loop.simps bytes_of_def get_field_width_def get_precision_def get_qualifier_def is_digit_def
        conversion_def get_num_def)
qed

lemma cased_nonzero: "d < 16 \<Longrightarrow> l = 0 \<or> l = 0x20 \<Longrightarrow> cased l d \<noteq> 0"
proof -
  assume "d < 16" "l = 0 \<or> l = 0x20"
  moreover have "\<not> isxdigit 0" by code_simp
  ultimately show "cased l d \<noteq> 0" using cased_reads(1) by metis
qed

lemma hex_text_reads:
  "simple_strtoul (hex_text v) 16 = (v, [])" "hex_text v \<noteq> []" "0 \<notin> set (hex_text v)" "length (hex_text v) \<le> 8"
proof -
  show "simple_strtoul (hex_text v) 16 = (v, [])"
    using strtoul_field [of 16 "0x20" 0 0 "unat v", where 'w = 32]
    by (simp add: simple_strtoul_def hex_text_def prefix_text_def)
  show "hex_text v \<noteq> []" by (simp add: hex_text_def)
  show "0 \<notin> set (hex_text v)" using digits_le_less [of 16 _ "unat v"] cased_nonzero [of _ "0x20"]
    by (force simp: hex_text_def)
  show "length (hex_text v) \<le> 8"
    using digits_le_length [of 16 "unat v" 7] unat_u32_less [of v] by (simp add: hex_text_def)
qed

lemma itoa_reads:
  "simple_strtoul (simple_itoa v) 10 = (v, [])" "simple_itoa v \<noteq> []" "0 \<notin> set (simple_itoa v)"
proof -
  have e: "simple_itoa v = map (cased 0) (rev (digits_le 10 (unat v)))"
    by (simp add: simple_itoa_digits cased_10(2) [abs_def] rev_map)
  show "simple_strtoul (simple_itoa v) 10 = (v, [])"
    using strtoul_field [of 10 0 0 0 "unat v", where 'w = 32]
    by (simp add: simple_strtoul_def e prefix_text_def)
  show "simple_itoa v \<noteq> []" by (simp add: e)
  show "0 \<notin> set (simple_itoa v)" using digits_le_less [of 10 _ "unat v"] cased_nonzero [of _ 0] by (force simp: e)
qed

text \<open>
  C8. A number of any width, precision and flags is printed as the specification says: the decimal routine without division
  and the masks of the other bases give the digits in the base, and the padding loops give the field.
\<close>

theorem number_formats:
  assumes "base \<in> {8, 10, 16}" and "type AND SIGN \<noteq> 0 \<longrightarrow> sint num \<noteq> - (2 ^ 63)"
  shows "number num base width precision type =
    Some (field type width (sign_text num type @ prefix_text base type)
      (digits_text base (magnitude num type) precision type))"
  using assms by (intro number_layout) auto

theorem number_formats_witness:
  "number (- 42) 10 6 3 SIGN =
    Some (field SIGN 6 (sign_text (- 42) SIGN @ prefix_text 10 SIGN) (digits_text 10 (magnitude (- 42) SIGN) 3 SIGN))"
  by (rule number_formats) simp_all

text \<open>
  C38. A number printed without blanks reads back: \<open>simple_strtoull\<close> consumes all of the text and returns the number,
  \<open>simple_strtoul\<close> its low 32 bits, for the three bases, with leading zeros and with the prefix that
  \<^verbatim>\<open>%#o\<close> and \<^verbatim>\<open>%#x\<close> print.
\<close>

theorem number_reads_back:
  assumes "base \<in> {8, 10, 16}" and "type AND SIGN = 0"
    and "width \<le> 0 \<or> type AND ZEROPAD \<noteq> 0 \<and> type AND LEFT = 0"
    and "base = 16 \<and> type AND SPECIAL \<noteq> 0 \<longrightarrow> type AND SMALL \<noteq> 0"
  shows "\<exists>s. number num base width precision type = Some s
    \<and> simple_strtoull s (of_nat base) = (num, []) \<and> simple_strtoul s (of_nat base) = (ucast num, [])"
  using assms by (intro reads_back) auto

theorem number_reads_back_witness:
  "\<exists>s. number 0x12345678ABC 16 20 (- 1) (SPECIAL OR SMALL OR ZEROPAD) = Some s
    \<and> simple_strtoull s (of_nat 16) = (0x12345678ABC, []) \<and> simple_strtoul s (of_nat 16) = (ucast (0x12345678ABC :: u64), [])"
  by (rule number_reads_back) simp_all

text \<open>The prefix \<^verbatim>\<open>0X\<close> of \<^verbatim>\<open>%#X\<close> does not read back.\<close>

lemma upper_prefix_lost:
  "number 0xFF 16 (- 1) (- 1) SPECIAL = Some (bytes_of ''0XFF'')"
  "simple_strtoul (bytes_of ''0XFF'') 16 = (0, bytes_of ''XFF'')"
  by code_simp+

text \<open>
  Numbers with more digits than the width leave the loop of \<open>print_grouped_ull\<close> past the terminator, where it
  goes on to read what the array held before.
\<close>

lemma grouped_reads_on:
  "print_grouped_ull (replicate 21 0x61) 1000000000 9 = None"
  "print_grouped_ull (replicate 21 0) 1000000000 9 = Some (bytes_of ''100,000,000,0'')"
  by code_simp+
end
