(* ===== verification/Env_Number.thy ===== *)
theory Env_Number
  imports Environment Number_Text
begin

text \<open>
  Environment variables with a number as their value, \<^verbatim>\<open>common/cmd_nvedit.c\<close>: \<open>setenv_ulong\<close>, \<open>setenv_hex\<close>,
  \<open>getenv_hex\<close> and \<open>getenv_ulong\<close>, over the environment and the number routines.
\<close>

definition setenv_ulong :: "env_hooks \<Rightarrow> str \<Rightarrow> u32 \<Rightarrow> gdata \<Rightarrow> (int \<times> gdata) option" where
  "setenv_ulong E varname value g = setenv E varname (Some (simple_itoa value)) g"

text \<open>The 17 bytes of the local array before the call are an argument.\<close>

definition setenv_hex :: "env_hooks \<Rightarrow> u8 list \<Rightarrow> str \<Rightarrow> u32 \<Rightarrow> gdata \<Rightarrow> (int \<times> gdata) option" where
  "setenv_hex E str varname value g = do {
     (_, str, _) \<leftarrow> sprintf str (bytes_of ''%lx'') [Va_word value];
     setenv E varname (Some (buf_str str)) g
   }"

definition getenv_hex :: "env_hooks \<Rightarrow> u8 list \<Rightarrow> str \<Rightarrow> u32 \<Rightarrow> gdata \<Rightarrow> (u32 \<times> gdata) option" where
  "getenv_hex E D varname default_val g = do {
     (s, g) \<leftarrow> getenv E D varname g;
     case s of
       None \<Rightarrow> Some (default_val, g)
     | Some s \<Rightarrow>
         let (value, endp) = simple_strtoul s 16 in
         if length endp = length s then Some (default_val, g) else Some (value, g)
   }"

definition getenv_ulong :: "env_hooks \<Rightarrow> u8 list \<Rightarrow> str \<Rightarrow> u32 \<Rightarrow> u32 \<Rightarrow> gdata \<Rightarrow> (u32 \<times> gdata) option" where
  "getenv_ulong E D name base default_val g = do {
     (str, g) \<leftarrow> getenv E D name g;
     case str of None \<Rightarrow> Some (default_val, g) | Some str \<Rightarrow> Some (fst (simple_strtoul str base), g)
   }"

lemma buf_str_text: "0 \<notin> set s \<Longrightarrow> buf_str (s @ 0 # r) = s"
  unfolding buf_str_def by (induction s) auto

lemma setenv_hex_text:
  assumes "length str = 17"
  shows "setenv_hex E str varname value g = setenv E varname (Some (hex_text value)) g"
proof -
  have "arr_blit str 0 (hex_text value @ [0]) = Some ((hex_text value @ [0]) @ drop (length (hex_text value @ [0])) str)"
    using arr_blit_eq [of 0 "hex_text value @ [0]" str] hex_text_reads(4) [of "value"] assms by simp
  then show ?thesis
    by (simp add: setenv_hex_def sprintf_def vsprintf_def sprintf_lx buf_str_text hex_text_reads(3))
qed

definition hex_or_default :: "str option \<Rightarrow> u32 \<Rightarrow> u32" where
  "hex_or_default s default_val = (case s of
     None \<Rightarrow> default_val
   | Some s \<Rightarrow> if length (snd (simple_strtoul s 16)) = length s then default_val else fst (simple_strtoul s 16))"

lemma getenv_hex_lookup:
  assumes "env_ready g" "hinv (env_htab g)"
  shows "\<exists>g'. getenv_hex E D k dflt g = Some (hex_or_default (hmap (env_htab g) k) dflt, g')"
  using getenv_lookup [OF assms, of E D k]
  by (auto simp: getenv_hex_def hex_or_default_def case_prod_beta Let_def split: option.splits)



end
