(* ===== verification/S5p_Soc.thy ===== *)
theory S5p_Soc
  imports Spl_Clock
begin

unbundle bit_operations_syntax

text \<open>
  The drivers of U-Boot for the clocks and the serial port of the chip: the processor identification
  (\<^verbatim>\<open>arch-s5pc1xx/cpu.h\<close>, \<^verbatim>\<open>s5p-common/cpu_info.c\<close>), the clock queries (\<^verbatim>\<open>s5pc1xx/clock.c\<close>) and the UART driver
  (\<^verbatim>\<open>drivers/serial/serial_s5p.c\<close>), on the memory-mapped hardware that the loader uses too. The identification that the
  start-up code stored is the argument \<open>cpu\<close>. A division by zero has no result. Registers narrower than a word are written
  with their value extended by zeros.
\<close>

subsection \<open>Identification\<close>

abbreviation PRO_ID :: u32 where "PRO_ID \<equiv> 0xE0000000"

definition s5p_set_cpu_id :: "hw \<Rightarrow> bus \<Rightarrow> (u32 \<times> u32) \<times> bus" where
  "s5p_set_cpu_id hw h =
     (let (s5p_cpu_id, h) = rd hw PRO_ID h;
          s5p_cpu_rev = s5p_cpu_id AND 0x000000FF;
          s5p_cpu_id = 0xC000 OR drop_bit 12 (s5p_cpu_id AND 0x00FFF000)
      in ((s5p_cpu_id, s5p_cpu_rev), h))"

definition arch_cpu_init :: "hw \<Rightarrow> bus \<Rightarrow> (u32 \<times> u32) \<times> bus" where
  "arch_cpu_init hw h = s5p_set_cpu_id hw h"

definition cpu_is_s5pc100 :: "u32 \<Rightarrow> bool" where "cpu_is_s5pc100 cpu \<longleftrightarrow> cpu = 0xC100"
definition cpu_is_s5pc110 :: "u32 \<Rightarrow> bool" where "cpu_is_s5pc110 cpu \<longleftrightarrow> cpu = 0xC110"

subsection \<open>Clocks\<close>

abbreviation (input) APLL :: int where "APLL \<equiv> 0"
abbreviation (input) MPLL :: int where "MPLL \<equiv> 1"
abbreviation (input) EPLL :: int where "EPLL \<equiv> 2"
abbreviation (input) HPLL :: int where "HPLL \<equiv> 3"
abbreviation (input) VPLL :: int where "VPLL \<equiv> 4"
abbreviation (input) CLK_M :: nat where "CLK_M \<equiv> 0"
abbreviation (input) CLK_D :: nat where "CLK_D \<equiv> 1"
abbreviation (input) CLK_P :: nat where "CLK_P \<equiv> 2"
abbreviation (input) CONFIG_SYS_CLK_FREQ_C100 :: u32 where "CONFIG_SYS_CLK_FREQ_C100 \<equiv> 12000000"
abbreviation (input) CONFIG_SYS_CLK_FREQ_C110 :: u32 where "CONFIG_SYS_CLK_FREQ_C110 \<equiv> 24000000"

text \<open>The registers of the s5pc110 are those of the loader; the s5pc100 has its PLL registers side by side.\<close>

abbreviation C100_APLL_CON :: u32 where "C100_APLL_CON \<equiv> 0xE0100100"
abbreviation C100_MPLL_CON :: u32 where "C100_MPLL_CON \<equiv> 0xE0100104"
abbreviation C100_EPLL_CON :: u32 where "C100_EPLL_CON \<equiv> 0xE0100108"
abbreviation C100_HPLL_CON :: u32 where "C100_HPLL_CON \<equiv> 0xE010010C"

definition s5pc100_get_pll_clk :: "hw \<Rightarrow> int \<Rightarrow> bus \<Rightarrow> (u32 \<times> bus) option" where
  "s5pc100_get_pll_clk hw pllreg h =
     (if pllreg \<notin> {APLL, MPLL, EPLL, HPLL} then Some (0, h)
      else do {
        let (r, h) = rd hw (if pllreg = APLL then C100_APLL_CON else if pllreg = MPLL then C100_MPLL_CON
                            else if pllreg = EPLL then C100_EPLL_CON else C100_HPLL_CON) h;
        let mask = (if pllreg = APLL then 0x3FF else 0x0FF);
        let m = drop_bit 16 r AND mask;
        let p = drop_bit 8 r AND 0x3F;
        let s = r AND 0x7;
        let freq = CONFIG_SYS_CLK_FREQ_C100;
        q \<leftarrow> div_u32 freq (p * push_bit (unat s) 1);
        Some (m * q, h)
      })"

definition s5pc110_get_pll_clk :: "hw \<Rightarrow> int \<Rightarrow> bus \<Rightarrow> (u32 \<times> bus) option" where
  "s5pc110_get_pll_clk hw pllreg h =
     (if pllreg \<notin> {APLL, MPLL, EPLL, VPLL} then Some (0, h)
      else do {
        let (r, h) = rd hw (if pllreg = APLL then APLL_CON0 else if pllreg = MPLL then MPLL_CON
                            else if pllreg = EPLL then EPLL_CON0 else VPLL_CON) h;
        let mask = (if pllreg = APLL \<or> pllreg = MPLL then 0x3FF else 0x1FF);
        let m = drop_bit 16 r AND mask;
        let p = drop_bit 8 r AND 0x3F;
        let s = r AND 0x7;
        let freq = CONFIG_SYS_CLK_FREQ_C110;
        if pllreg = APLL then do {
          let s = (if s < 1 then 1 else s);
          q \<leftarrow> div_u32 freq (p * push_bit (unat (s - 1)) 1);
          Some (m * q, h)
        }
        else do {
          q \<leftarrow> div_u32 freq (p * push_bit (unat s) 1);
          Some (m * q, h)
        }
      })"

definition get_pll_clk :: "hw \<Rightarrow> u32 \<Rightarrow> int \<Rightarrow> bus \<Rightarrow> (u32 \<times> bus) option" where
  "get_pll_clk hw cpu pllreg h =
     (if cpu_is_s5pc110 cpu then s5pc110_get_pll_clk hw pllreg h else s5pc100_get_pll_clk hw pllreg h)"

definition s5pc110_get_arm_clk :: "hw \<Rightarrow> u32 \<Rightarrow> bus \<Rightarrow> (u32 \<times> bus) option" where
  "s5pc110_get_arm_clk hw cpu h = do {
     let (dv, h) = rd hw CLK_DIV0 h;
     let apll_ratio = dv AND 0x7;
     (f, h) \<leftarrow> get_pll_clk hw cpu APLL h;
     dout_apll \<leftarrow> div_u32 f (apll_ratio + 1);
     Some (dout_apll, h)
   }"

definition s5pc100_get_arm_clk :: "hw \<Rightarrow> u32 \<Rightarrow> bus \<Rightarrow> (u32 \<times> bus) option" where
  "s5pc100_get_arm_clk hw cpu h = do {
     let (dv, h) = rd hw CLK_DIV0 h;
     let arm_ratio = drop_bit 4 dv AND 0x7;
     let apll_ratio = dv AND 0x1;
     (f, h) \<leftarrow> get_pll_clk hw cpu APLL h;
     dout_apll \<leftarrow> div_u32 f (apll_ratio + 1);
     armclk \<leftarrow> div_u32 dout_apll (arm_ratio + 1);
     Some (armclk, h)
   }"

definition get_arm_clk :: "hw \<Rightarrow> u32 \<Rightarrow> bus \<Rightarrow> (u32 \<times> bus) option" where
  "get_arm_clk hw cpu h =
     (if cpu_is_s5pc110 cpu then s5pc110_get_arm_clk hw cpu h else s5pc100_get_arm_clk hw cpu h)"

definition get_hclk :: "hw \<Rightarrow> u32 \<Rightarrow> bus \<Rightarrow> (u32 \<times> bus) option" where
  "get_hclk hw cpu h = do {
     let (dv, h) = rd hw CLK_DIV0 h;
     let d0_bus_ratio = drop_bit 8 dv AND 0x7;
     (f, h) \<leftarrow> get_arm_clk hw cpu h;
     hclkd0 \<leftarrow> div_u32 f (d0_bus_ratio + 1);
     Some (hclkd0, h)
   }"

definition get_pclkd1 :: "hw \<Rightarrow> u32 \<Rightarrow> bus \<Rightarrow> (u32 \<times> bus) option" where
  "get_pclkd1 hw cpu h = do {
     let (dv, h) = rd hw CLK_DIV0 h;
     let d1_bus_ratio = drop_bit 12 dv AND 0x7;
     let pclkd1_ratio = drop_bit 16 dv AND 0x7;
     (f, h) \<leftarrow> get_pll_clk hw cpu MPLL h;
     d1_bus \<leftarrow> div_u32 f (d1_bus_ratio + 1);
     pclkd1 \<leftarrow> div_u32 d1_bus (pclkd1_ratio + 1);
     Some (pclkd1, h)
   }"

definition get_hclk_sys :: "hw \<Rightarrow> u32 \<Rightarrow> nat \<Rightarrow> bus \<Rightarrow> (u32 \<times> bus) option" where
  "get_hclk_sys hw cpu dm h =
     (if dm = CLK_M then get_hclk hw cpu h
      else do {
        let (dv, h) = rd hw CLK_DIV0 h;
        let offset = 8 + push_bit 3 dm;
        let hclk_sys_ratio = drop_bit offset dv AND 0xF;
        (f, h) \<leftarrow> get_pll_clk hw cpu MPLL h;
        hclk \<leftarrow> div_u32 f (hclk_sys_ratio + 1);
        Some (hclk, h)
      })"

definition get_pclk_sys :: "hw \<Rightarrow> u32 \<Rightarrow> nat \<Rightarrow> bus \<Rightarrow> (u32 \<times> bus) option" where
  "get_pclk_sys hw cpu dm h = do {
     let (dv, h) = rd hw CLK_DIV0 h;
     let offset = 12 + push_bit 3 dm;
     let pclk_sys_ratio = drop_bit offset dv AND 0x7;
     (f, h) \<leftarrow> get_hclk_sys hw cpu dm h;
     pclk \<leftarrow> div_u32 f (pclk_sys_ratio + 1);
     Some (pclk, h)
   }"

definition s5pc110_get_pclk :: "hw \<Rightarrow> u32 \<Rightarrow> bus \<Rightarrow> (u32 \<times> bus) option" where
  "s5pc110_get_pclk hw cpu h = get_pclk_sys hw cpu CLK_P h"

definition s5pc100_get_pclk :: "hw \<Rightarrow> u32 \<Rightarrow> bus \<Rightarrow> (u32 \<times> bus) option" where
  "s5pc100_get_pclk hw cpu h = get_pclkd1 hw cpu h"

definition s5pc1xx_get_uart_clk :: "hw \<Rightarrow> u32 \<Rightarrow> nat \<Rightarrow> bus \<Rightarrow> (u32 \<times> bus) option" where
  "s5pc1xx_get_uart_clk hw cpu dev_index h =
     (if cpu_is_s5pc110 cpu then s5pc110_get_pclk hw cpu h else s5pc100_get_pclk hw cpu h)"

definition s5pc1xx_get_pwm_clk :: "hw \<Rightarrow> u32 \<Rightarrow> bus \<Rightarrow> (u32 \<times> bus) option" where
  "s5pc1xx_get_pwm_clk hw cpu h =
     (if cpu_is_s5pc110 cpu then s5pc110_get_pclk hw cpu h else s5pc100_get_pclk hw cpu h)"

definition get_pwm_clk :: "hw \<Rightarrow> u32 \<Rightarrow> bus \<Rightarrow> (u32 \<times> bus) option" where
  "get_pwm_clk hw cpu h = s5pc1xx_get_pwm_clk hw cpu h"

definition get_uart_clk :: "hw \<Rightarrow> u32 \<Rightarrow> nat \<Rightarrow> bus \<Rightarrow> (u32 \<times> bus) option" where
  "get_uart_clk hw cpu dev_index h = s5pc1xx_get_uart_clk hw cpu dev_index h"

subsection \<open>Serial port\<close>

abbreviation (input) RX_FIFO_COUNT_MASK :: u32 where "RX_FIFO_COUNT_MASK \<equiv> 0xFF"
abbreviation (input) RX_FIFO_FULL_MASK :: u32 where "RX_FIFO_FULL_MASK \<equiv> 0x100"
abbreviation (input) TX_FIFO_FULL_MASK :: u32 where "TX_FIFO_FULL_MASK \<equiv> 0x1000000"

text \<open>The driver's state: the port is enabled, the baud rate of the global data.\<close>

record serial_state =
  enabled :: bool
  baudrate :: u32

text \<open>Without a device tree the console is the port that the configuration names, \<open>CONFIG_SERIAL2\<close>.\<close>

definition default_serial_console :: "serial_state \<Rightarrow> nat \<times> serial_state" where
  "default_serial_console s = (2, s\<lparr>enabled := True\<rparr>)"

definition s5p_get_base_uart :: "nat \<Rightarrow> u32" where
  "s5p_get_base_uart dev_index = 0xE2900000 + of_nat (dev_index * 0x400)"

abbreviation (input) ULCON :: "u32 \<Rightarrow> u32" where "ULCON uart \<equiv> uart"
abbreviation (input) UCON :: "u32 \<Rightarrow> u32" where "UCON uart \<equiv> uart + 0x04"
abbreviation (input) UFCON :: "u32 \<Rightarrow> u32" where "UFCON uart \<equiv> uart + 0x08"
abbreviation (input) UMCON :: "u32 \<Rightarrow> u32" where "UMCON uart \<equiv> uart + 0x0C"
abbreviation (input) UTRSTAT :: "u32 \<Rightarrow> u32" where "UTRSTAT uart \<equiv> uart + 0x10"
abbreviation (input) UERSTAT :: "u32 \<Rightarrow> u32" where "UERSTAT uart \<equiv> uart + 0x14"
abbreviation (input) UFSTAT :: "u32 \<Rightarrow> u32" where "UFSTAT uart \<equiv> uart + 0x18"
abbreviation (input) UTXH :: "u32 \<Rightarrow> u32" where "UTXH uart \<equiv> uart + 0x20"
abbreviation (input) URXH :: "u32 \<Rightarrow> u32" where "URXH uart \<equiv> uart + 0x24"
abbreviation (input) UBRDIV :: "u32 \<Rightarrow> u32" where "UBRDIV uart \<equiv> uart + 0x28"
abbreviation (input) UDIVSLOT :: "u32 \<Rightarrow> u32" where "UDIVSLOT uart \<equiv> uart + 0x2C"

definition udivslot :: "u32 list" where
  "udivslot = [0, 0x0080, 0x0808, 0x0888, 0x2222, 0x4924, 0x4a52, 0x54aa,
     0x5555, 0xd555, 0xd5d5, 0xddd5, 0xdddd, 0xdfdd, 0xdfdf, 0xffdf]"

definition serial_setbrg_dev :: "hw \<Rightarrow> u32 \<Rightarrow> serial_state \<Rightarrow> nat \<Rightarrow> bus \<Rightarrow> bus option" where
  "serial_setbrg_dev hw cpu s dev_index h = do {
     let uart = s5p_get_base_uart dev_index;
     (uclk, h) \<leftarrow> get_uart_clk hw cpu dev_index h;
     if \<not> enabled s then Some h
     else do {
       val \<leftarrow> div_u32 uclk (baudrate s);
       let h = wr (UBRDIV uart) (val div 16 - 1) h;
       Some (wr (UDIVSLOT uart) (udivslot ! unat (val mod 16)) h)
     }
   }"

definition serial_init_dev :: "hw \<Rightarrow> u32 \<Rightarrow> serial_state \<Rightarrow> nat \<Rightarrow> bus \<Rightarrow> (int \<times> bus) option" where
  "serial_init_dev hw cpu s dev_index h = do {
     let uart = s5p_get_base_uart dev_index;
     let h = wr (UFCON uart) 0x3 h;
     let h = wr (UMCON uart) 0 h;
     let h = wr (ULCON uart) 0x3 h;
     let h = wr (UCON uart) 0x245 h;
     h \<leftarrow> serial_setbrg_dev hw cpu s dev_index h;
     Some (0, h)
   }"

definition serial_err_check :: "hw \<Rightarrow> nat \<Rightarrow> bool \<Rightarrow> bus \<Rightarrow> u32 \<times> bus" where
  "serial_err_check hw dev_index op h =
     (let mask = (if op then 0x8 else 0xF);
          (v, h) = rd hw (UERSTAT (s5p_get_base_uart dev_index)) h
      in (v AND mask, h))"

text \<open>
  A wait for the FIFO with the error check inside: whether the awaited state was reached, or an error seen first.
\<close>

partial_function (option) fifo_wait :: "hw \<Rightarrow> nat \<Rightarrow> (u32 \<Rightarrow> bool) \<Rightarrow> bool \<Rightarrow> bus \<Rightarrow> (bool \<times> bus) option" where
  "fifo_wait hw dev_index ok op h =
     (let (v, h) = rd hw (UFSTAT (s5p_get_base_uart dev_index)) h in
      if ok v then Some (True, h)
      else let (e, h) = serial_err_check hw dev_index op h in
        if e \<noteq> 0 then Some (False, h) else fifo_wait hw dev_index ok op h)"

definition serial_getc_dev :: "hw \<Rightarrow> serial_state \<Rightarrow> nat \<Rightarrow> bus \<Rightarrow> (u32 \<times> bus) option" where
  "serial_getc_dev hw s dev_index h =
     (if \<not> enabled s then Some (0, h)
      else do {
        (ready, h) \<leftarrow> fifo_wait hw dev_index (\<lambda>v. v AND (RX_FIFO_COUNT_MASK OR RX_FIFO_FULL_MASK) \<noteq> 0) False h;
        if \<not> ready then Some (0, h)
        else let (c, h) = rd hw (URXH (s5p_get_base_uart dev_index)) h in Some (c AND 0xFF, h)
      })"

text \<open>The character itself, and a carriage return after a newline; that second call goes to the current device, this one.\<close>

definition serial_putc_raw :: "hw \<Rightarrow> serial_state \<Rightarrow> nat \<Rightarrow> u8 \<Rightarrow> bus \<Rightarrow> (bool \<times> bus) option" where
  "serial_putc_raw hw s dev_index c h =
     (if \<not> enabled s then Some (False, h)
      else do {
        (ready, h) \<leftarrow> fifo_wait hw dev_index (\<lambda>v. v AND TX_FIFO_FULL_MASK = 0) True h;
        if \<not> ready then Some (False, h)
        else Some (True, wr (UTXH (s5p_get_base_uart dev_index)) (ucast c) h)
      })"

definition serial_putc_dev :: "hw \<Rightarrow> serial_state \<Rightarrow> u8 \<Rightarrow> nat \<Rightarrow> bus \<Rightarrow> bus option" where
  "serial_putc_dev hw s c dev_index h = do {
     (sent, h) \<leftarrow> serial_putc_raw hw s dev_index c h;
     if sent \<and> c = 0x0A then do { (_, h) \<leftarrow> serial_putc_raw hw s dev_index 0x0D h; Some h }
     else Some h
   }"

definition serial_tstc_dev :: "hw \<Rightarrow> serial_state \<Rightarrow> nat \<Rightarrow> bus \<Rightarrow> u32 \<times> bus" where
  "serial_tstc_dev hw s dev_index h =
     (if \<not> enabled s then (0, h)
      else let (v, h) = rd hw (UTRSTAT (s5p_get_base_uart dev_index)) h in (v AND 0x1, h))"

fun serial_puts_dev :: "hw \<Rightarrow> serial_state \<Rightarrow> str \<Rightarrow> nat \<Rightarrow> bus \<Rightarrow> bus option" where
  "serial_puts_dev hw s [] dev_index h = Some h"
| "serial_puts_dev hw s (c # cs) dev_index h = do {
     h \<leftarrow> serial_putc_dev hw s c dev_index h;
     serial_puts_dev hw s cs dev_index h
   }"


subsection \<open>PLL frequencies\<close>

lemma unat_push_bit_1: "n < 32 \<Longrightarrow> unat (push_bit n 1 :: u32) = 2 ^ n"
proof -
  assume "n < 32"
  then have "(2 :: nat) ^ n < 2 ^ 32" by (intro power_strict_increasing) auto
  then have "unat (of_nat (2 ^ n) :: u32) = 2 ^ n" by (simp add: unat_of_nat del: of_nat_power)
  then show ?thesis by simp
qed

lemma unat_sdiv_less: "unat (SDIV v) < 8"
  using unat_and_le [of v 7] by (simp add: SDIV_def)

lemma div_u32_pdiv:
  assumes "p \<noteq> 0" "unat p < 64" "n < 8"
  shows "div_u32 f (p * push_bit n 1) = Some (f div (p * push_bit n 1))"
    and "unat (p * push_bit n 1) = unat p * 2 ^ n"
proof -
  have k: "unat (push_bit n 1 :: u32) = 2 ^ n" using assms(3) by (intro unat_push_bit_1) simp
  have "(2 :: nat) ^ n \<le> 2 ^ 7" using assms(3) by (intro power_increasing) auto
  then have "unat p * 2 ^ n \<le> 64 * 128" using assms(2) by (intro mult_mono) auto
  then have "unat p * unat (push_bit n 1 :: u32) < 2 ^ LENGTH(32)" unfolding k by simp
  then have u: "unat (p * push_bit n 1) = unat p * 2 ^ n"
    unfolding k [symmetric] by (rule unat_mult_lem [THEN iffD1])
  then show "unat (p * push_bit n 1) = unat p * 2 ^ n" .
  have "unat p * 2 ^ n \<noteq> 0" using assms(1) by (simp add: unat_eq_zero)
  then have "p * push_bit n 1 \<noteq> 0" using u by auto
  then show "div_u32 f (p * push_bit n 1) = Some (f div (p * push_bit n 1))"
    by (simp add: div_u32_def)
qed

text \<open>The PLLs of the s5pc110: control register, multiplier field and divisor of the input clock.\<close>

definition pll_reg :: "int \<Rightarrow> u32" where
  "pll_reg pll = (if pll = APLL then APLL_CON0 else if pll = MPLL then MPLL_CON
     else if pll = EPLL then EPLL_CON0 else VPLL_CON)"

definition pll_mult :: "int \<Rightarrow> u32 \<Rightarrow> nat" where
  "pll_mult pll v = unat (MDIV (if pll = APLL \<or> pll = MPLL then 0x3FF else 0x1FF) v)"

definition pll_div :: "int \<Rightarrow> u32 \<Rightarrow> nat" where
  "pll_div pll v = unat (PDIV v) * 2 ^ (if pll = APLL then unat (SDIV v) - 1 else unat (SDIV v))"

lemma unat_pdiv_less: "unat (PDIV v) < 64"
  using unat_and_le [of "drop_bit 8 v" "0x3F"] by (simp add: PDIV_def)

lemma sdiv_floor: "unat ((if s < 1 then 1 else s) - 1) = unat (s :: u32) - 1"
proof (cases "s = 0")
  case False
  then have "\<not> s < 1" by (simp add: word_less_nat_alt unat_eq_0)
  with False show ?thesis by (simp add: unat_minus_one)
qed simp

lemma s5pc110_get_pll_clk_eq:
  assumes "pll \<in> {APLL, MPLL, EPLL, VPLL}" "v = mmio hw h (pll_reg pll)" "PDIV v \<noteq> 0"
    "pll_mult pll v * (24000000 div pll_div pll v) < 2 ^ 32"
  shows "\<exists>f. s5pc110_get_pll_clk hw pll h = Some (f, Rd (pll_reg pll) v # h) \<and>
    unat f = pll_mult pll v * (24000000 div pll_div pll v)"
proof -
  define n where "n = (if pll = APLL then unat (SDIV v) - 1 else unat (SDIV v))"
  define m where "m = MDIV (if pll = APLL \<or> pll = MPLL then 0x3FF else 0x1FF) v"
  define q where "q = (24000000 :: u32) div (PDIV v * push_bit n 1)"
  have "n < 8" using unat_sdiv_less [of v] by (auto simp: n_def)
  note d = div_u32_pdiv [OF assms(3) unat_pdiv_less this]
  have "s5pc110_get_pll_clk hw pll h = Some (m * q, Rd (pll_reg pll) v # h)"
    using assms(1,2) d(1)
    by (auto simp: s5pc110_get_pll_clk_def rd_def Let_def pll_reg_def m_def q_def n_def MDIV_def
        PDIV_def [symmetric] SDIV_def [symmetric] sdiv_floor unat_minus_one simp del: push_bit_of_1)
  moreover have q: "unat q = 24000000 div pll_div pll v"
  proof -
    have "unat q = 24000000 div unat (PDIV v * push_bit n 1)" by (simp add: q_def unat_div del: push_bit_of_1)
    then show ?thesis by (simp only: d(2)) (simp add: pll_div_def n_def)
  qed
  moreover have "unat (m * q) = unat m * unat q"
    using assms(4) by (intro unat_mult_lem [THEN iffD1]) (simp add: q pll_mult_def m_def)
  ultimately show ?thesis by (auto simp: pll_mult_def m_def)
qed

lemma mult_div_bounds:
  fixes m f d :: nat
  shows "m * (f div d) \<le> m * f div d" "m * f div d < m * (f div d) + max 1 m"
    "d dvd f \<Longrightarrow> m * (f div d) = m * f div d"
proof -
  show "m * (f div d) \<le> m * f div d"
    by (cases "d = 0") (simp_all add: less_eq_div_iff_mult_less_eq)
  show "d dvd f \<Longrightarrow> m * (f div d) = m * f div d" by (simp add: div_mult_swap)
  show "m * f div d < m * (f div d) + max 1 m"
  proof (cases "d = 0 \<or> m = 0")
    case True then show ?thesis by auto
  next
    case False
    have "m * f = d * (m * (f div d)) + m * (f mod d)"
      by (metis add_mult_distrib2 mult.left_commute mult_div_mod_eq)
    moreover have "m * (f mod d) < m * d" using False by simp
    ultimately have "m * f < d * (m * (f div d) + m)" by (simp add: algebra_simps)
    then have "m * f div d < m * (f div d) + m"
      using False by (metis div_less_iff_less_mult mult.commute neq0_conv)
    then show ?thesis by simp
  qed
qed

text \<open>
  On the s5pc110 the reported frequency of every PLL is the formula of the comment, \<open>MDIV * FIN / (PDIV * 2 ^ SDIV)\<close>,
  up to the rounding of the inner division: it is never above it, lower by less than MDIV Hz, and equal to it when
  the divisor divides the 24 MHz input clock. The result is required to fit into 32 bits.
\<close>

theorem get_pll_clk_accuracy:
  assumes "cpu_is_s5pc110 cpu" "pll \<in> {APLL, MPLL, EPLL, VPLL}" "v = mmio hw h (pll_reg pll)" "PDIV v \<noteq> 0"
    "pll_mult pll v * (24000000 div pll_div pll v) < 2 ^ 32"
  shows "\<exists>f h'. get_pll_clk hw cpu pll h = Some (f, h') \<and>
    unat f \<le> pll_mult pll v * 24000000 div pll_div pll v \<and>
    pll_mult pll v * 24000000 div pll_div pll v < unat f + max 1 (pll_mult pll v) \<and>
    (pll_div pll v dvd 24000000 \<longrightarrow> unat f = pll_mult pll v * 24000000 div pll_div pll v)"
proof -
  from s5pc110_get_pll_clk_eq [OF assms(2-5)] obtain f where
    "s5pc110_get_pll_clk hw pll h = Some (f, Rd (pll_reg pll) v # h)"
    "unat f = pll_mult pll v * (24000000 div pll_div pll v)" by blast
  then show ?thesis
    using assms(1) mult_div_bounds [where m = "pll_mult pll v" and f = 24000000 and d = "pll_div pll v"]
    by (auto simp: get_pll_clk_def)
qed

theorem get_pll_clk_accuracy_witness:
  "\<exists>f h'. get_pll_clk (hw_fixed board_clock_regs) 0xC110 VPLL [] = Some (f, h') \<and> unat f = 54000000"
  using get_pll_clk_accuracy [of "0xC110" VPLL "0x806C0603" "hw_fixed board_clock_regs" "[]"]
  by (auto simp: cpu_is_s5pc110_def hw_fixed_def pll_reg_def board_clock_regs_def pll_mult_def pll_div_def
      MDIV_def PDIV_def SDIV_def)

subsection \<open>Baud rate\<close>

definition popcount :: "u32 \<Rightarrow> nat" where
  "popcount w = length (filter (bit w) [0..<32])"

text \<open>The clocks of one bit that the UART derives from its two divisor registers.\<close>

definition bit_clocks :: "u32 \<Rightarrow> u32 \<Rightarrow> nat" where
  "bit_clocks ubrdiv slot = (unat ubrdiv + 1) * 16 + popcount slot"

lemma udivslot_table: "list_all (\<lambda>k. popcount (udivslot ! k) = k) [0..<16]"
  by code_simp

lemma udivslot_popcount: "k < 16 \<Longrightarrow> popcount (udivslot ! k) = k"
  using udivslot_table by (simp add: list_all_iff)

lemma bit_clocks_udivslot:
  assumes "16 \<le> unat val"
  shows "bit_clocks (val div 16 - 1) (udivslot ! unat (val mod 16)) = unat val"
proof -
  have "unat (val div 16) = unat val div 16" "unat (val mod 16) = unat val mod 16"
    by (simp_all add: unat_div unat_mod)
  moreover from this assms have "val div 16 \<noteq> 0" by (auto simp: unat_gt_0)
  ultimately have "unat (val div 16 - 1) + 1 = unat val div 16"
    "popcount (udivslot ! unat (val mod 16)) = unat val mod 16"
    using assms by (simp_all add: unat_minus_one udivslot_popcount)
  then show ?thesis by (simp add: bit_clocks_def)
qed

text \<open>
  C21. Setting the baud rate of an enabled port writes the two divisor registers so that a bit takes the number
  of input clocks that comes closest to the wanted rate from above: the clocks of a bit, \<open>C\<close>, satisfy
  \<open>C * baudrate \<le> clock < (C + 1) * baudrate\<close>. It needs a rate that leaves at least 16 clocks to a bit.
\<close>

theorem serial_setbrg_rate:
  assumes "get_uart_clk hw cpu port h = Some (uclk, h1)" "enabled s" "0 < baudrate s"
    "16 * unat (baudrate s) \<le> unat uclk"
  shows "\<exists>d slot. serial_setbrg_dev hw cpu s port h =
      Some (Wr (UDIVSLOT (s5p_get_base_uart port)) slot # Wr (UBRDIV (s5p_get_base_uart port)) d # h1) \<and>
    bit_clocks d slot * unat (baudrate s) \<le> unat uclk \<and>
    unat uclk < (bit_clocks d slot + 1) * unat (baudrate s)"
proof -
  define val where "val = uclk div baudrate s"
  have b: "baudrate s \<noteq> 0" "0 < unat (baudrate s)" using assms(3) by (auto simp: unat_gt_0)
  have v: "unat val = unat uclk div unat (baudrate s)" by (simp add: val_def unat_div)
  have "16 \<le> unat val" unfolding v using assms(4) b(2) by (simp add: less_eq_div_iff_mult_less_eq)
  note c = bit_clocks_udivslot [OF this]
  have "serial_setbrg_dev hw cpu s port h =
      Some (Wr (UDIVSLOT (s5p_get_base_uart port)) (udivslot ! unat (val mod 16)) #
            Wr (UBRDIV (s5p_get_base_uart port)) (val div 16 - 1) # h1)"
    using assms(1,2) b(1) by (simp add: serial_setbrg_dev_def Let_def div_u32_def wr_def val_def)
  moreover have "unat val * unat (baudrate s) \<le> unat uclk" by (simp add: v)
  moreover have "unat uclk < (unat val + 1) * unat (baudrate s)"
    using dividend_less_div_times [OF b(2)] by (simp add: v add.commute)
  ultimately show ?thesis using c by fastforce
qed

lemma board_uboot_clocks:
  assumes "board_clocks hw"
  shows "\<exists>h'. get_arm_clk hw 0xC110 h = Some (1000000000, h')"
    and "\<exists>h'. get_uart_clk hw 0xC110 port h = Some (66700000, h') \<and> (\<forall>a. writes_to a h' = writes_to a h)"
    and "\<exists>h'. get_pwm_clk hw 0xC110 h = Some (66700000, h') \<and> (\<forall>a. writes_to a h' = writes_to a h)"
  by (simp_all add: get_arm_clk_def s5pc110_get_arm_clk_def get_uart_clk_def s5pc1xx_get_uart_clk_def
      get_pwm_clk_def s5pc1xx_get_pwm_clk_def s5pc110_get_pclk_def get_pclk_sys_def get_hclk_sys_def get_pll_clk_def
      s5pc110_get_pll_clk_def cpu_is_s5pc110_def rd_def Let_def board_clocks_reg [OF assms] div_u32_def)

theorem serial_setbrg_rate_witness:
  "\<exists>d slot h'. serial_setbrg_dev (hw_fixed board_clock_regs) 0xC110 \<lparr>enabled = True, baudrate = 115200\<rparr> 2 [] =
     Some (Wr 0xE290082C slot # Wr 0xE2900828 d # h') \<and> bit_clocks d slot = 578"
proof -
  have "board_clocks (hw_fixed board_clock_regs)" by (simp add: board_clocks_def)
  from board_uboot_clocks(2) [OF this] obtain h' where
    u: "get_uart_clk (hw_fixed board_clock_regs) 0xC110 2 [] = Some (66700000, h')" by blast
  have "\<exists>d slot. serial_setbrg_dev (hw_fixed board_clock_regs) 0xC110 \<lparr>enabled = True, baudrate = 115200\<rparr> 2 [] =
      Some (Wr 0xE290082C slot # Wr 0xE2900828 d # h') \<and>
    bit_clocks d slot * 115200 \<le> 66700000 \<and> 66700000 < (bit_clocks d slot + 1) * 115200"
    using serial_setbrg_rate [OF u, of "\<lparr>enabled = True, baudrate = 115200\<rparr>"] by (simp add: s5p_get_base_uart_def)
  then obtain d slot where r: "serial_setbrg_dev (hw_fixed board_clock_regs) 0xC110 \<lparr>enabled = True, baudrate = 115200\<rparr> 2 [] =
      Some (Wr 0xE290082C slot # Wr 0xE2900828 d # h')"
    and "bit_clocks d slot * 115200 \<le> 66700000" "66700000 < (bit_clocks d slot + 1) * 115200" by blast
  then have "66700000 div 115200 = bit_clocks d slot" by (intro div_nat_eqI) (simp_all add: mult.commute)
  then have "bit_clocks d slot = 578" by simp
  with r show ?thesis by blast
qed

subsection \<open>Output\<close>

text \<open>
  The history after \<open>n\<close> turns of a wait for the FIFO that found neither the awaited state nor an error, and a port whose FIFO comes
  to the awaited state before an error shows.
\<close>

fun fifo_turns :: "hw \<Rightarrow> nat \<Rightarrow> nat \<Rightarrow> bus \<Rightarrow> bus" where
  "fifo_turns hw port 0 h = h"
| "fifo_turns hw port (Suc n) h =
     fifo_turns hw port n (snd (rd hw (UERSTAT (s5p_get_base_uart port)) (snd (rd hw (UFSTAT (s5p_get_base_uart port)) h))))"

definition fifo_comes :: "hw \<Rightarrow> nat \<Rightarrow> (u32 \<Rightarrow> bool) \<Rightarrow> bool \<Rightarrow> bool" where
  "fifo_comes hw port ok op \<longleftrightarrow> (\<forall>h. \<exists>n. ok (mmio hw (fifo_turns hw port n h) (UFSTAT (s5p_get_base_uart port))) \<and>
     (\<forall>k<n. fst (serial_err_check hw port op (snd (rd hw (UFSTAT (s5p_get_base_uart port)) (fifo_turns hw port k h)))) = 0))"

lemma writes_to_fifo_turns [simp]: "writes_to a (fifo_turns hw port n h) = writes_to a h"
  by (induction n arbitrary: h) auto

lemma serial_err_check_bus:
  "snd (serial_err_check hw port op h) = snd (rd hw (UERSTAT (s5p_get_base_uart port)) h)"
  by (simp add: serial_err_check_def case_prod_beta Let_def)

lemma fifo_wait_turns:
  assumes "ok (mmio hw (fifo_turns hw port n h) (UFSTAT (s5p_get_base_uart port)))"
    "\<forall>k<n. fst (serial_err_check hw port op (snd (rd hw (UFSTAT (s5p_get_base_uart port)) (fifo_turns hw port k h)))) = 0"
  shows "\<exists>m. fifo_wait hw port ok op h = Some (True, snd (rd hw (UFSTAT (s5p_get_base_uart port)) (fifo_turns hw port m h)))"
  using assms
proof (induction n arbitrary: h)
  case 0
  then have "fifo_wait hw port ok op h = Some (True, snd (rd hw (UFSTAT (s5p_get_base_uart port)) (fifo_turns hw port 0 h)))"
    by (subst fifo_wait.simps) (simp add: rd_def Let_def)
  then show ?case ..
next
  case (Suc n)
  let ?st = "UFSTAT (s5p_get_base_uart port)"
  show ?case
  proof (cases "ok (fst (rd hw ?st h))")
    case True
    then have "fifo_wait hw port ok op h = Some (True, snd (rd hw ?st (fifo_turns hw port 0 h)))"
      by (subst fifo_wait.simps) (simp add: case_prod_beta)
    then show ?thesis ..
  next
    case False
    define h1 where "h1 = snd (rd hw (UERSTAT (s5p_get_base_uart port)) (snd (rd hw ?st h)))"
    have "fst (serial_err_check hw port op (snd (rd hw ?st h))) = 0" using Suc.prems(2) by force
    with False have "fifo_wait hw port ok op h = fifo_wait hw port ok op h1"
      by (subst fifo_wait.simps) (simp add: case_prod_beta serial_err_check_bus h1_def)
    moreover have "\<forall>k<n. fst (serial_err_check hw port op (snd (rd hw ?st (fifo_turns hw port k h1)))) = 0"
      using Suc.prems(2) by (metis Suc_less_eq fifo_turns.simps(2) h1_def)
    then have "\<exists>m. fifo_wait hw port ok op h1 = Some (True, snd (rd hw ?st (fifo_turns hw port m h1)))"
      using Suc.IH Suc.prems(1) by (simp add: h1_def)
    then obtain m where "fifo_wait hw port ok op h1 = Some (True, snd (rd hw ?st (fifo_turns hw port (Suc m) h)))"
      by (auto simp: h1_def)
    ultimately show ?thesis by metis
  qed
qed

lemma fifo_wait_returns:
  assumes "fifo_comes hw port ok op"
  shows "\<exists>h'. fifo_wait hw port ok op h = Some (True, h') \<and> (\<forall>a. writes_to a h' = writes_to a h)"
proof -
  from assms obtain n where "ok (mmio hw (fifo_turns hw port n h) (UFSTAT (s5p_get_base_uart port)))"
    "\<forall>k<n. fst (serial_err_check hw port op (snd (rd hw (UFSTAT (s5p_get_base_uart port)) (fifo_turns hw port k h)))) = 0"
    by (auto simp: fifo_comes_def)
  from fifo_wait_turns [of ok hw port n h op, OF this] show ?thesis by auto
qed

abbreviation (input) tx_free :: "u32 \<Rightarrow> bool" where "tx_free v \<equiv> v AND TX_FIFO_FULL_MASK = 0"

lemma serial_putc_raw_sends:
  assumes "fifo_comes hw port tx_free True" "enabled s"
  shows "\<exists>h'. serial_putc_raw hw s port c h = Some (True, h') \<and>
    writes_to (UTXH (s5p_get_base_uart port)) h' = writes_to (UTXH (s5p_get_base_uart port)) h @ [ucast c]"
  using fifo_wait_returns [OF assms(1), of h] assms(2) by (auto simp: serial_putc_raw_def)

text \<open>What a character becomes on the line.\<close>

definition on_line :: "u8 \<Rightarrow> u8 list" where
  "on_line c = (if c = 0x0A then [0x0A, 0x0D] else [c])"

lemma serial_putc_sends:
  assumes "fifo_comes hw port tx_free True" "enabled s"
  shows "\<exists>h'. serial_putc_dev hw s c port h = Some h' \<and>
    writes_to (UTXH (s5p_get_base_uart port)) h' = writes_to (UTXH (s5p_get_base_uart port)) h @ map ucast (on_line c)"
proof -
  note sends = serial_putc_raw_sends [OF assms]
  from sends [of c h] obtain h1 where h1: "serial_putc_raw hw s port c h = Some (True, h1)"
    "writes_to (UTXH (s5p_get_base_uart port)) h1 = writes_to (UTXH (s5p_get_base_uart port)) h @ [ucast c]" by blast
  from sends [of "0x0D" h1] h1 show ?thesis by (auto simp: serial_putc_dev_def on_line_def)
qed

text \<open>
  C22. A string that goes out on an enabled port whose FIFO drains without a break condition is sent completely: the call returns, and
  the transmit register has received the characters in order, each newline followed by a carriage return.
\<close>

theorem serial_puts_sends:
  assumes "fifo_comes hw port tx_free True" "enabled s"
  shows "\<exists>h'. serial_puts_dev hw s cs port h = Some h' \<and>
    writes_to (UTXH (s5p_get_base_uart port)) h' =
      writes_to (UTXH (s5p_get_base_uart port)) h @ map ucast (concat (map on_line cs))"
proof (induction cs arbitrary: h)
  case (Cons c cs)
  from serial_putc_sends [OF assms, of c h] obtain h1 where
    h1: "serial_putc_dev hw s c port h = Some h1" "writes_to (UTXH (s5p_get_base_uart port)) h1 =
      writes_to (UTXH (s5p_get_base_uart port)) h @ map ucast (on_line c)" by blast
  from Cons.IH [of h1] h1 show ?case by auto
qed simp

theorem serial_puts_sends_witness:
  "\<exists>h'. serial_puts_dev (hw_fixed (\<lambda>a. 0)) \<lparr>enabled = True, baudrate = 115200\<rparr> (bytes_of ''ok'' @ [10]) 2 [] = Some h' \<and>
     writes_to 0xE2900820 h' = [0x6F, 0x6B, 0x0A, 0x0D]"
proof -
  have "fifo_comes (hw_fixed (\<lambda>a. 0)) 2 tx_free True"
    unfolding fifo_comes_def by (intro allI exI [of _ 0]) (simp add: hw_fixed_def)
  from serial_puts_sends [OF this, of "\<lparr>enabled = True, baudrate = 115200\<rparr>" "bytes_of ''ok'' @ [10]" "[]"]
  show ?thesis by (simp add: s5p_get_base_uart_def bytes_of_def on_line_def)
qed

end
