(* ===== verification/S5p_Timer.thy ===== *)
theory S5p_Timer
  imports S5p_Soc
begin

unbundle bit_operations_syntax

text \<open>
  Time in U-Boot: the PWM timers (\<^verbatim>\<open>s5p-common/pwm.c\<close>, \<^verbatim>\<open>arch-s5pc1xx/pwm.h\<close>), the system timer on timer 4 (\<^verbatim>\<open>s5p-common/timer.c\<close>) and
  the delays built on it (\<^verbatim>\<open>lib/time.c\<close>). Timer 4 counts down; the theorems assume a counter that never runs backwards
  and derive what the wrapping 32-bit arithmetic of the code measures.
\<close>

subsection \<open>PWM timers\<close>

abbreviation (input) PRESCALER_0 :: u32 where "PRESCALER_0 \<equiv> 8 - 1"
abbreviation (input) PRESCALER_1 :: u32 where "PRESCALER_1 \<equiv> 16 - 1"
abbreviation (input) MUX_DIV_4 :: u32 where "MUX_DIV_4 \<equiv> 2"
abbreviation (input) MUX_DIV_SHIFT :: "nat \<Rightarrow> nat" where "MUX_DIV_SHIFT x \<equiv> x * 4"
abbreviation TCNTB0 :: u32 where "TCNTB0 \<equiv> 0xE250000C"
abbreviation TCMPB0 :: u32 where "TCMPB0 \<equiv> 0xE2500010"
abbreviation TCNTO4 :: u32 where "TCNTO4 \<equiv> 0xE2500040"

definition TCON_OFFSET :: "nat \<Rightarrow> nat" where
  "TCON_OFFSET x = push_bit 2 ((x + 1) * of_bool (x \<noteq> 0))"

definition TCON_START :: "nat \<Rightarrow> u32" where "TCON_START x = push_bit (TCON_OFFSET x) 1"
definition TCON_UPDATE :: "nat \<Rightarrow> u32" where "TCON_UPDATE x = push_bit (TCON_OFFSET x + 1) 1"
definition TCON_INVERTER :: "nat \<Rightarrow> u32" where "TCON_INVERTER x = push_bit (TCON_OFFSET x + 2) 1"
definition TCON_AUTO_RELOAD :: "nat \<Rightarrow> u32" where "TCON_AUTO_RELOAD x = push_bit (TCON_OFFSET x + 3) 1"
definition TCON4_AUTO_RELOAD :: u32 where "TCON4_AUTO_RELOAD = push_bit 22 1"

definition pwm_enable :: "hw \<Rightarrow> nat \<Rightarrow> bus \<Rightarrow> int \<times> bus" where
  "pwm_enable hw pwm_id h = (0, rmw hw TCON (\<lambda>tcon. tcon OR TCON_START pwm_id) h)"

definition pwm_disable :: "hw \<Rightarrow> nat \<Rightarrow> bus \<Rightarrow> bus" where
  "pwm_disable hw pwm_id h = rmw hw TCON (\<lambda>tcon. tcon AND NOT (TCON_START pwm_id)) h"

fun pwm_tin_loop :: "u32 \<Rightarrow> u32 \<Rightarrow> u32 list \<Rightarrow> u32" where
  "pwm_tin_loop tin_parent_rate freq [] = tin_parent_rate div 16"
| "pwm_tin_loop tin_parent_rate freq (dv # dvs) =
     (if tin_parent_rate div push_bit 16 dv < freq then tin_parent_rate div dv
      else pwm_tin_loop tin_parent_rate freq dvs)"

definition pwm_calc_tin :: "hw \<Rightarrow> u32 \<Rightarrow> nat \<Rightarrow> u32 \<Rightarrow> bus \<Rightarrow> (u32 \<times> bus) option" where
  "pwm_calc_tin hw cpu pwm_id freq h = do {
     (tin_parent_rate, h) \<leftarrow> get_pwm_clk hw cpu h;
     Some (pwm_tin_loop tin_parent_rate freq [2, 4, 8, 16], h)
   }"

abbreviation (input) NS_IN_SEC :: u32 where "NS_IN_SEC \<equiv> 1000000000"
abbreviation (input) ERANGE :: int where "ERANGE \<equiv> 34"
abbreviation (input) EINVAL :: int where "EINVAL \<equiv> 22"

text \<open>The two times are \<open>int\<close>; the limits compare them as unsigned numbers.\<close>

definition pwm_config :: "hw \<Rightarrow> u32 \<Rightarrow> nat \<Rightarrow> u32 \<Rightarrow> u32 \<Rightarrow> bus \<Rightarrow> (int \<times> bus) option" where
  "pwm_config hw cpu pwm_id duty_ns period_ns h =
     (if period_ns > NS_IN_SEC \<or> duty_ns > NS_IN_SEC \<or> period_ns = 0 then Some (- ERANGE, h)
      else if sint duty_ns > sint period_ns then Some (- EINVAL, h)
      else do {
        frequency \<leftarrow> div_u32 NS_IN_SEC period_ns;
        (tin_rate, h) \<leftarrow> pwm_calc_tin hw cpu pwm_id frequency h;
        tin_ns \<leftarrow> div_u32 NS_IN_SEC tin_rate;
        tcnt \<leftarrow> div_u32 period_ns tin_ns;
        tcmp \<leftarrow> div_u32 duty_ns tin_ns;
        let tcmp = tcnt - tcmp;
        let offset = pwm_id * 3;
        let h = (if pwm_id < 4
                 then wr (TCMPB0 + of_nat (4 * offset)) tcmp (wr (TCNTB0 + of_nat (4 * offset)) tcnt h) else h);
        let (tcon, h) = rd hw TCON h;
        let tcon = tcon OR TCON_UPDATE pwm_id;
        let tcon = (if pwm_id < 4 then tcon OR TCON_AUTO_RELOAD pwm_id else tcon OR TCON4_AUTO_RELOAD);
        let h = wr TCON tcon h;
        let tcon = tcon AND NOT (TCON_UPDATE pwm_id);
        let h = wr TCON tcon h;
        Some (0, h)
      })"

definition pwm_init :: "hw \<Rightarrow> u32 \<Rightarrow> nat \<Rightarrow> u32 \<Rightarrow> bool \<Rightarrow> bus \<Rightarrow> (int \<times> bus) option" where
  "pwm_init hw cpu pwm_id dv invert h = do {
     let (val, h) = rd hw TCFG0 h;
     let prescaler = (if pwm_id < 2 then PRESCALER_0 else PRESCALER_1);
     let val = (if pwm_id < 2 then (val AND NOT 0xFF) OR (prescaler AND 0xFF)
                else (val AND NOT (push_bit 8 0xFF)) OR push_bit 8 (prescaler AND 0xFF));
     let h = wr TCFG0 val h;
     let (val, h) = rd hw TCFG1 h;
     let val = val AND NOT (push_bit (MUX_DIV_SHIFT pwm_id) 0xF);
     let val = val OR push_bit (MUX_DIV_SHIFT pwm_id) (dv AND 0xF);
     let h = wr TCFG1 val h;
     (ticks_per_period, h) \<leftarrow>
       (if pwm_id = 4 then Some (- 1, h)
        else do {
          (clk, h) \<leftarrow> get_pwm_clk hw cpu h;
          timer_rate_hz \<leftarrow> div_u32 clk ((prescaler + 1) * push_bit (unat dv) 1);
          Some (timer_rate_hz div 1000, h)
        });
     let offset = pwm_id * 3;
     let h = wr (TCNTB0 + of_nat (4 * offset)) ticks_per_period h;
     let (v, h) = rd hw TCON h;
     let val = v AND NOT (push_bit (TCON_OFFSET pwm_id) 0xF);
     let val = (if invert \<and> pwm_id < 4 then val OR TCON_INVERTER pwm_id else val);
     let h = wr TCON val h;
     let (_, h) = pwm_enable hw pwm_id h;
     Some (0, h)
   }"

subsection \<open>System timer\<close>

text \<open>The part of the global data that the timer uses.\<close>

record arch_gd =
  tbl :: u32
  lastinc :: u32
  timer_reset_value :: u64

definition timer_get_us_down :: "hw \<Rightarrow> bus \<Rightarrow> u32 \<times> bus" where
  "timer_get_us_down hw h = rd hw TCNTO4 h"

definition reset_timer_masked :: "hw \<Rightarrow> arch_gd \<Rightarrow> bus \<Rightarrow> arch_gd \<times> bus" where
  "reset_timer_masked hw gd h = (let (v, h) = rd hw TCNTO4 h in (gd\<lparr>lastinc := v, tbl := 0\<rparr>, h))"

definition timer_init :: "hw \<Rightarrow> u32 \<Rightarrow> arch_gd \<Rightarrow> bus \<Rightarrow> (int \<times> arch_gd \<times> bus) option" where
  "timer_init hw cpu gd h = do {
     (_, h) \<leftarrow> pwm_init hw cpu 4 MUX_DIV_4 False h;
     (_, h) \<leftarrow> pwm_config hw cpu 4 100000 100000 h;
     let (_, h) = pwm_enable hw 4 h;
     let gd = gd\<lparr>timer_reset_value := 0\<rparr>;
     let (v, h) = timer_get_us_down hw h;
     let gd = gd\<lparr>lastinc := v\<rparr>;
     let (gd, h) = reset_timer_masked hw gd h;
     Some (0, gd, h)
   }"

definition get_timer :: "hw \<Rightarrow> u32 \<Rightarrow> arch_gd \<Rightarrow> bus \<Rightarrow> u32 \<times> arch_gd \<times> bus" where
  "get_timer hw base gd h =
     (let (now, h) = timer_get_us_down hw h;
          gd = gd\<lparr>timer_reset_value := timer_reset_value gd + ucast (lastinc gd - now)\<rparr>;
          gd = gd\<lparr>lastinc := now\<rparr>;
          time_ms = timer_reset_value gd div 1000
      in (ucast (time_ms - ucast base), gd, h))"

text \<open>The static variable is passed and returned.\<close>

definition timer_get_us :: "hw \<Rightarrow> u32 \<Rightarrow> bus \<Rightarrow> u32 \<times> u32 \<times> bus" where
  "timer_get_us hw base_time_us h =
     (let (now_downward_us, h) = rd hw TCNTO4 h;
          base_time_us = (if base_time_us = 0 then now_downward_us else base_time_us)
      in (base_time_us - now_downward_us, base_time_us, h))"

definition get_ticks :: "hw \<Rightarrow> arch_gd \<Rightarrow> bus \<Rightarrow> u64 \<times> arch_gd \<times> bus" where
  "get_ticks hw gd h = (let (v, gd, h) = get_timer hw 0 gd h in (ucast v, gd, h))"

definition get_tbclk :: u32 where "get_tbclk = 1000"

partial_function (option) udelay_loop :: "hw \<Rightarrow> u32 \<Rightarrow> u32 \<Rightarrow> bus \<Rightarrow> bus option" where
  "udelay_loop hw count_value usec h =
     (let (v, h) = timer_get_us_down hw h in
      if sint (count_value - v) < sint usec then udelay_loop hw count_value usec h else Some h)"

text \<open>The function \<^verbatim>\<open>__udelay\<close> of the board.\<close>

definition board_udelay :: "hw \<Rightarrow> u32 \<Rightarrow> bus \<Rightarrow> bus option" where
  "board_udelay hw usec h = (let (count_value, h) = timer_get_us_down hw h in udelay_loop hw count_value usec h)"

subsection \<open>Delays\<close>

abbreviation (input) CONFIG_WD_PERIOD :: u32 where "CONFIG_WD_PERIOD \<equiv> 10 * 1000 * 1000"

function udelay :: "hw \<Rightarrow> u32 \<Rightarrow> bus \<Rightarrow> bus option" where
  "udelay hw usec h = do {
     let kv = (if usec > CONFIG_WD_PERIOD then CONFIG_WD_PERIOD else usec);
     h \<leftarrow> board_udelay hw kv h;
     let usec = usec - kv;
     if usec \<noteq> 0 then udelay hw usec h else Some h
   }"
  by pat_completeness auto
termination
proof (relation "measure (\<lambda>(hw, usec, h). unat usec)", goal_cases)
  case (2 hw usec h kv h' usec')
  then have "usec > CONFIG_WD_PERIOD" "kv = CONFIG_WD_PERIOD" by (auto split: if_splits)
  moreover then have "unat (usec - kv) = unat usec - 10000000" by (simp add: unat_sub less_imp_le)
  ultimately show ?case using 2 by (simp add: word_less_nat_alt)
qed simp

declare udelay.simps [simp del]

fun mdelay_loop :: "hw \<Rightarrow> nat \<Rightarrow> bus \<Rightarrow> bus option" where
  "mdelay_loop hw 0 h = Some h"
| "mdelay_loop hw (Suc msec) h = do { h \<leftarrow> udelay hw 1000 h; mdelay_loop hw msec h }"

definition mdelay :: "hw \<Rightarrow> u32 \<Rightarrow> bus \<Rightarrow> bus option" where
  "mdelay hw msec h = mdelay_loop hw (unat msec) h"

subsection \<open>Measured time\<close>

text \<open>
  What the code relies on: the counter register shows a time \<open>tick\<close> of the access history that never runs backwards, counted down from
  \<open>c\<close> modulo $2^{32}$; and for the delays, that the time passes, by at most \<open>g\<close> ticks from one read to the next.
\<close>

definition down_counter :: "hw \<Rightarrow> (bus \<Rightarrow> nat) \<Rightarrow> u32 \<Rightarrow> bool" where
  "down_counter hw tick c \<longleftrightarrow> (\<forall>h. mmio hw h TCNTO4 = c - of_nat (tick h)) \<and> (\<forall>x h. tick h \<le> tick (x # h))"

definition time_passes :: "hw \<Rightarrow> (bus \<Rightarrow> nat) \<Rightarrow> nat \<Rightarrow> bool" where
  "time_passes hw tick g \<longleftrightarrow> (\<forall>h N. \<exists>n. N \<le> tick (idle_reads hw TCNTO4 n h)) \<and>
     (\<forall>h. tick (snd (rd hw TCNTO4 h)) \<le> tick h + g)"

lemma down_counterD:
  assumes "down_counter hw tick c"
  shows "mmio hw h TCNTO4 = c - of_nat (tick h)" "tick h \<le> tick (xs @ h)" "tick h \<le> tick (snd (rd hw a h))"
proof -
  note law = assms [unfolded down_counter_def]
  show "mmio hw h TCNTO4 = c - of_nat (tick h)" using law by blast
  show "tick h \<le> tick (xs @ h)" using law by (induction xs) (auto intro: order_trans)
  show "tick h \<le> tick (snd (rd hw a h))" using law by (simp add: rd_def Let_def)
qed

lemma counter_difference:
  assumes "down_counter hw tick c" "t \<le> tick h"
  shows "c - of_nat t - mmio hw h TCNTO4 = of_nat (tick h - t)"
  using down_counterD(1) [OF assms(1), of h] assms(2) by simp

text \<open>The states that \<open>timer_init\<close> and the calls of \<open>get_timer\<close> reach: the time of the start, the state, the time of the last call, the history.\<close>

inductive timer_run :: "hw \<Rightarrow> (bus \<Rightarrow> nat) \<Rightarrow> nat \<Rightarrow> arch_gd \<Rightarrow> nat \<Rightarrow> bus \<Rightarrow> bool" for hw tick where
  timer_start: "timer_init hw cpu gd h = Some (r, gd', Rd TCNTO4 v # h') \<Longrightarrow> timer_run hw tick (tick h') gd' (tick h') (Rd TCNTO4 v # h')"
| timer_call: "timer_run hw tick t0 gd t h \<Longrightarrow> tick (xs @ h) < t + 2 ^ 32 \<Longrightarrow> get_timer hw base gd (xs @ h) = (r, gd', h') \<Longrightarrow>
    timer_run hw tick t0 gd' (tick (xs @ h)) h'"

definition timer_inv :: "(bus \<Rightarrow> nat) \<Rightarrow> u32 \<Rightarrow> nat \<Rightarrow> arch_gd \<Rightarrow> nat \<Rightarrow> bus \<Rightarrow> bool" where
  "timer_inv tick c t0 gd t h \<longleftrightarrow>
     t0 \<le> t \<and> t \<le> tick h \<and> timer_reset_value gd = of_nat (t - t0) \<and> lastinc gd = c - of_nat t"

lemma timer_init_resets:
  assumes "timer_init hw cpu gd h = Some (r, gd', Rd TCNTO4 v # h')"
  shows "timer_reset_value gd' = 0" "lastinc gd' = mmio hw h' TCNTO4"
  using assms by (auto simp: timer_init_def bind_Some_iff reset_timer_masked_def timer_get_us_down_def rd_def Let_def
      case_prod_beta)

lemma ucast_u64_down:
  "ucast (a - b :: u64) = (ucast a - ucast b :: u32)" "ucast (of_nat n :: u64) = (of_nat n :: u32)" "ucast (ucast (w :: u32) :: u64) = w"
proof -
  show "ucast (a - b :: u64) = (ucast a - ucast b :: u32)"
  proof -
    have "(k - l) mod 4294967296 = (k mod 18446744073709551616 - l mod 18446744073709551616) mod 4294967296" for k l :: int
      by (rule mod_diff_cong) (simp_all add: mod_mod_cancel)
    then show ?thesis by transfer (simp add: take_bit_eq_mod mod_mod_cancel)
  qed
  show "ucast (of_nat n :: u64) = (of_nat n :: u32)" by transfer (simp add: take_bit_eq_mod mod_mod_cancel)
  show "ucast (ucast (w :: u32) :: u64) = w" by transfer (simp add: take_bit_eq_mod mod_mod_cancel)
qed

lemma ucast_of_nat_u64: "n < 2 ^ 32 \<Longrightarrow> ucast (of_nat n :: u32) = (of_nat n :: u64)"
  by transfer (simp add: take_bit_eq_mod)

lemma get_timer_steps:
  assumes "down_counter hw tick c" "timer_inv tick c t0 gd t h" "tick (xs @ h) < t + 2 ^ 32"
    "get_timer hw base gd (xs @ h) = (r, gd', h')"
  shows "timer_inv tick c t0 gd' (tick (xs @ h)) h'" "r = ucast (of_nat (tick (xs @ h) - t0) div 1000 - ucast base :: u64)"
proof -
  define t' where "t' = tick (xs @ h)"
  have le: "t0 \<le> t" "t \<le> t'" "lastinc gd = c - of_nat t"
    using assms(2) down_counterD(2) [OF assms(1), of h xs] by (auto simp: timer_inv_def t'_def)
  then have "lastinc gd - mmio hw (xs @ h) TCNTO4 = of_nat (t' - t)"
    using counter_difference [OF assms(1)] by (simp add: t'_def)
  moreover have "ucast (of_nat (t' - t) :: u32) = (of_nat (t' - t) :: u64)"
    using assms(3) le(2) by (intro ucast_of_nat_u64) (simp add: t'_def)
  ultimately have "ucast (lastinc gd - mmio hw (xs @ h) TCNTO4) = (of_nat (t' - t) :: u64)" by metis
  moreover have "t' - t0 = (t - t0) + (t' - t)" using le by simp
  ultimately have "timer_reset_value gd + ucast (lastinc gd - mmio hw (xs @ h) TCNTO4) = of_nat (t' - t0)"
    using assms(2) by (metis of_nat_add timer_inv_def)
  moreover have "t' \<le> tick h'"
    using assms(4) down_counterD(3) [OF assms(1), of "xs @ h" TCNTO4]
    by (auto simp: get_timer_def timer_get_us_down_def case_prod_beta Let_def t'_def)
  ultimately show "timer_inv tick c t0 gd' t' h'" "r = ucast (of_nat (t' - t0) div 1000 - ucast base :: u64)"
    using assms(4) le down_counterD(1) [OF assms(1), of "xs @ h"]
    by (auto simp: timer_inv_def get_timer_def timer_get_us_down_def rd_def Let_def t'_def)
qed

lemma timer_run_inv:
  assumes "timer_run hw tick t0 gd t h" "down_counter hw tick c"
  shows "timer_inv tick c t0 gd t h"
  using assms(1)
proof induction
  case (timer_start cpu gd h r gd' v h')
  then show ?case using timer_init_resets [OF timer_start] down_counterD [OF assms(2), of h']
      down_counterD(2) [OF assms(2), of h' "[Rd TCNTO4 v]"] by (simp add: timer_inv_def)
next
  case (timer_call t0 gd t h xs base r gd' h')
  then show ?case using get_timer_steps(1) [OF assms(2)] by blast
qed

text \<open>
  C23. The millisecond clock is exact across any number of wraps of the 32-bit counter: after \<open>timer_init\<close> and any sequence of
  calls, a call of \<open>get_timer\<close> less than $2^{32}$ ticks after the last one returns the ticks since the start divided by
  1000, minus the base, modulo $2^{32}$. The elapsed time itself must fit in 64 bits.
\<close>

theorem get_timer_elapsed:
  assumes "down_counter hw tick c" "timer_run hw tick t0 gd t h" "tick (xs @ h) < t + 2 ^ 32" "tick (xs @ h) - t0 < 2 ^ 64"
  shows "fst (get_timer hw base gd (xs @ h)) = of_nat ((tick (xs @ h) - t0) div 1000) - base"
proof -
  define n where "n = tick (xs @ h) - t0"
  obtain r gd' h' where g: "get_timer hw base gd (xs @ h) = (r, gd', h')" by (metis prod_cases3)
  have "unat (of_nat n :: u64) = n" using assms(4) by (simp add: n_def unat_of_nat take_bit_nat_eq_self)
  then have "(of_nat n :: u64) div 1000 = of_nat (n div 1000)" by (simp add: word_unat_eq_iff unat_div unat_of_nat take_bit_nat_eq_self)
  then have "r = ucast (of_nat (n div 1000) - ucast base :: u64)"
    using get_timer_steps(2) [OF assms(1) timer_run_inv [OF assms(2,1)] assms(3) g] by (simp add: n_def)
  also have "\<dots> = of_nat (n div 1000) - base"
    by (simp add: ucast_u64_down)
  finally show ?thesis by (simp add: g n_def)
qed

text \<open>An example board whose counter advances by a million ticks with every access.\<close>

definition ex_timer :: hw where
  "ex_timer = \<lparr>mmio = (\<lambda>h a. if a = TCNTO4 then 5 - of_nat (1000000 * length h) else board_clock_regs a),
     irom = (\<lambda>h b p. (0, []))\<rparr>"

lemma ex_timer_counts: "down_counter ex_timer (\<lambda>h. 1000000 * length h) 5"
  by (simp add: down_counter_def ex_timer_def)

lemma timer_init_returns:
  assumes "board_clocks hw"
  shows "\<exists>gd' v h'. timer_init hw 0xC110 gd h = Some (0, gd', Rd TCNTO4 v # h')"
proof -
  have "\<exists>h'. pwm_init hw 0xC110 4 MUX_DIV_4 False h = Some (0, h')"
    by (simp add: pwm_init_def pwm_enable_def rd_def Let_def)
  then obtain h1 where h1: "pwm_init hw 0xC110 4 MUX_DIV_4 False h = Some (0, h1)" ..
  from board_uboot_clocks(3) [OF assms] obtain h2 where "get_pwm_clk hw 0xC110 h1 = Some (66700000, h2)" by blast
  then have "\<exists>h'. pwm_config hw 0xC110 4 100000 100000 h1 = Some (0, h')"
    by (simp add: pwm_config_def pwm_calc_tin_def div_u32_def rd_def Let_def)
  with h1 show ?thesis
    by (auto simp: timer_init_def pwm_enable_def timer_get_us_down_def reset_timer_masked_def rd_def Let_def)
qed

theorem get_timer_elapsed_witness:
  "\<exists>t0 gd h. timer_run ex_timer (\<lambda>h. 1000000 * length h) t0 gd t0 h \<and>
     fst (get_timer ex_timer 7 gd (replicate 4200 (Rd TCFG0 0) @ h)) = of_nat (4201000000 div 1000) - 7"
proof -
  have "board_clocks ex_timer" by (auto simp: board_clocks_def fixed_reg_def ex_timer_def)
  from timer_init_returns [OF this] obtain gd v h where
    "timer_init ex_timer 0xC110 \<lparr>tbl = 0, lastinc = 0, timer_reset_value = 0\<rparr> [] = Some (0, gd, Rd TCNTO4 v # h)" by blast
  note run = timer_start [OF this, of "\<lambda>h. 1000000 * length h"]
  have "fst (get_timer ex_timer 7 gd (replicate 4200 (Rd TCFG0 0) @ Rd TCNTO4 v # h)) = of_nat (4201000000 div 1000) - 7"
    using get_timer_elapsed [OF ex_timer_counts run, of "replicate 4200 (Rd TCFG0 0)" 7] by simp
  with run show ?thesis by blast
qed

subsection \<open>Waiting\<close>

lemma udelay_loop_returns:
  assumes "down_counter hw tick c" "time_passes hw tick g" "unat usec + g < 2 ^ 31"
    "t \<le> tick h" "tick h \<le> t + unat usec + g"
  shows "\<exists>h'. udelay_loop hw (c - of_nat t) usec h = Some h' \<and> t + unat usec \<le> tick h' \<and> tick h' \<le> t + unat usec + 2 * g"
proof -
  have u: "sint usec = int (unat usec)" using assms(3) by (intro sint_small) simp
  have step: "tick (snd (rd hw TCNTO4 h)) \<le> tick h + g" for h using assms(2) by (simp add: time_passes_def)
  have d: "sint (c - of_nat t - mmio hw h TCNTO4) < sint usec \<longleftrightarrow> tick h < t + unat usec"
    if "t \<le> tick h" "tick h \<le> t + unat usec + g" for h
  proof -
    have "tick h - t < 2 ^ 31" using that(2) assms(3) by linarith
    then have "sint (c - of_nat t - mmio hw h TCNTO4) = int (tick h - t)"
      unfolding counter_difference [OF assms(1) that(1)] by (rule sint_of_nat_small)
    then show ?thesis unfolding u using that(1) by linarith
  qed
  have ready: "udelay_loop hw (c - of_nat t) usec h = Some (snd (rd hw TCNTO4 h))"
    if "t + unat usec \<le> tick h" "tick h \<le> t + unat usec + g" for h
    using d [of h] that by (subst udelay_loop.simps) (simp add: timer_get_us_down_def rd_def Let_def)
  have mono: "tick h \<le> tick (snd (rd hw TCNTO4 h))" for h by (rule down_counterD(3) [OF assms(1)])
  from assms(2) obtain n where "t + unat usec \<le> tick (idle_reads hw TCNTO4 n h)"
    unfolding time_passes_def by blast
  then show ?thesis using assms(4,5)
  proof (induction n arbitrary: h)
    case 0
    then show ?case using ready [of h] step [of h] mono [of h] by auto
  next
    case (Suc n)
    define h1 where "h1 = snd (rd hw TCNTO4 h)"
    show ?case
    proof (cases "tick h < t + unat usec")
      case True
      then have "udelay_loop hw (c - of_nat t) usec h = udelay_loop hw (c - of_nat t) usec h1"
        using d [OF Suc.prems(2,3)] by (subst udelay_loop.simps) (simp add: timer_get_us_down_def rd_def Let_def h1_def)
      moreover have "t \<le> tick h1" "tick h1 \<le> t + unat usec + g"
        using True Suc.prems(2) step [of h] mono [of h] by (auto simp: h1_def)
      ultimately show ?thesis using Suc.IH [of h1] Suc.prems(1) by (simp add: h1_def)
    next
      case False
      then show ?thesis using ready [of h] step [of h] mono [of h] Suc.prems(3) by auto
    qed
  qed
qed

lemma board_udelay_waits:
  assumes "down_counter hw tick c" "time_passes hw tick g" "unat usec + g < 2 ^ 31"
  shows "\<exists>h'. board_udelay hw usec h = Some h' \<and> tick h + unat usec \<le> tick h' \<and> tick h' \<le> tick h + unat usec + 2 * g"
proof -
  have "tick (snd (rd hw TCNTO4 h)) \<le> tick h + g" using assms(2) by (simp add: time_passes_def)
  then show ?thesis
    using udelay_loop_returns [OF assms, of "tick h" "snd (rd hw TCNTO4 h)"] down_counterD(1) [OF assms(1), of h]
      down_counterD(3) [OF assms(1), of h TCNTO4]
    by (simp add: board_udelay_def timer_get_us_down_def rd_def Let_def)
qed

text \<open>
  C24. A delay of any 32-bit length ends, and not too early: \<open>udelay\<close> cuts the time into pieces that the signed comparison of the
  board's routine can handle, waits at least the requested number of ticks, and exceeds it by at most twice the
  longest time between two reads of the counter for each piece of ten million ticks.
\<close>

theorem udelay_waits:
  assumes "down_counter hw tick c" "time_passes hw tick g" "g < 2 ^ 31 - 10000000"
  shows "\<exists>h'. udelay hw usec h = Some h' \<and> tick h + unat usec \<le> tick h' \<and>
    tick h' \<le> tick h + unat usec + 2 * g * (unat usec div 10000000 + 1)"
proof (induction "unat usec" arbitrary: usec h rule: less_induct)
  case less
  note waits = board_udelay_waits [OF assms(1,2)]
  show ?case
  proof (cases "usec > 10000000")
    case False
    then have "unat usec \<le> 10000000" by (simp add: word_less_nat_alt)
    with waits [of usec h] assms(3) obtain h' where
      "board_udelay hw usec h = Some h'" "tick h + unat usec \<le> tick h'" "tick h' \<le> tick h + unat usec + 2 * g" by auto
    moreover have "2 * g \<le> 2 * g * (unat usec div 10000000 + 1)" by simp
    ultimately have "tick h' \<le> tick h + unat usec + 2 * g * (unat usec div 10000000 + 1)" by linarith
    then show ?thesis using False \<open>board_udelay hw usec h = Some h'\<close> \<open>tick h + unat usec \<le> tick h'\<close>
      by (subst udelay.simps) simp
  next
    case True
    define rest where "rest = usec - 10000000"
    have u: "unat usec = unat rest + 10000000" "rest \<noteq> 0" "unat rest < unat usec"
    proof -
      show "unat usec = unat rest + 10000000" using True by (simp add: rest_def unat_sub less_imp_le word_less_nat_alt)
      then show "unat rest < unat usec" "rest \<noteq> 0" using True by (auto simp: word_less_nat_alt)
    qed
    from waits [of 10000000 h] assms(3) obtain h1 where h1: "board_udelay hw 10000000 h = Some h1"
      "tick h + 10000000 \<le> tick h1" "tick h1 \<le> tick h + 10000000 + 2 * g" by auto
    from less [OF u(3), of h1] obtain h' where h': "udelay hw rest h1 = Some h'" "tick h1 + unat rest \<le> tick h'"
      "tick h' \<le> tick h1 + unat rest + 2 * g * (unat rest div 10000000 + 1)" by blast
    have "udelay hw usec h = Some h'"
      using True h1(1) h'(1) u(2) by (subst udelay.simps) (simp add: rest_def)
    moreover have "unat usec div 10000000 + 1 = (unat rest div 10000000 + 1) + 1" unfolding u(1) by simp
    then have "2 * g * (unat usec div 10000000 + 1) = 2 * g * (unat rest div 10000000 + 1) + 2 * g"
      by (simp only: distrib_left mult_1_right)
    ultimately show ?thesis using h1(2,3) h'(2,3) u(1) by (intro exI [of _ h'] conjI) linarith+
  qed
qed

theorem udelay_waits_witness:
  "\<exists>h'. udelay ex_timer 25000000 [] = Some h' \<and> 25000000 \<le> 1000000 * length h' \<and> length h' \<le> 31"
proof -
  have l: "length (idle_reads ex_timer TCNTO4 n h) = n + length h" for n h
    by (induction n arbitrary: h) (auto simp: rd_def Let_def)
  have "\<exists>n. N \<le> 1000000 * length (idle_reads ex_timer TCNTO4 n h)" for h N
    by (rule exI [of _ N]) (simp add: l)
  then have "time_passes ex_timer (\<lambda>h. 1000000 * length h) 1000000"
    by (auto simp: time_passes_def rd_def Let_def)
  from udelay_waits [OF ex_timer_counts this, of 25000000 "[]"] show ?thesis by auto
qed

text \<open>
  The routine of the board alone does not wait for $2^{31}$ microseconds or more: the request is negative in the signed comparison and the
  loop ends at its first test.
\<close>

lemma sint_negative: "2 ^ 31 \<le> unat w \<Longrightarrow> sint w < 0" for w :: u32
proof (rule ccontr)
  assume "2 ^ 31 \<le> unat w" "\<not> sint w < 0"
  moreover have "sint w < 2 ^ 31" using sint_lt [of w] by simp
  ultimately have "uint w = sint w" using uint_sint [of w] by (simp add: take_bit_eq_mod)
  then show False using \<open>2 ^ 31 \<le> unat w\<close> \<open>sint w < 2 ^ 31\<close> by (simp add: unat_eq_nat_uint)
qed

lemma board_udelay_negative:
  assumes "down_counter hw tick c" "2 ^ 31 \<le> unat usec" "tick (snd (rd hw TCNTO4 h)) < tick h + 2 ^ 31"
  shows "board_udelay hw usec h = Some (snd (rd hw TCNTO4 (snd (rd hw TCNTO4 h))))"
proof -
  define h1 where "h1 = snd (rd hw TCNTO4 h)"
  have "tick h \<le> tick h1" using down_counterD(3) [OF assms(1), of h TCNTO4] by (simp add: h1_def)
  then have "mmio hw h TCNTO4 - mmio hw h1 TCNTO4 = of_nat (tick h1 - tick h)"
    using counter_difference [OF assms(1), of "tick h" h1] down_counterD(1) [OF assms(1), of h] by simp
  moreover have "sint (of_nat (tick h1 - tick h) :: u32) = int (tick h1 - tick h)"
    using assms(3) by (intro sint_of_nat_small) (simp add: h1_def)
  moreover have "sint usec < 0" using assms(2) by (rule sint_negative)
  ultimately have "\<not> sint (mmio hw h TCNTO4 - mmio hw h1 TCNTO4) < sint usec" by simp
  then have "udelay_loop hw (mmio hw h TCNTO4) usec h1 = Some (snd (rd hw TCNTO4 h1))"
    by (subst udelay_loop.simps) (simp add: timer_get_us_down_def rd_def Let_def)
  then show ?thesis by (simp add: board_udelay_def timer_get_us_down_def h1_def rd_def Let_def)
qed

text \<open>
  What \<open>timer_init\<close> programs on registers that hold what is written: timer 4 runs freely over all 32 bits at a 64th of the
  peripheral clock. On the board that is 66.7 MHz / 64, about 1.042 MHz, not the 1 MHz of the comment: a delay is 4 per cent short.
\<close>

lemma plain_reg_last:
  assumes "plain_reg hw a"
  shows "mmio hw h a = (if writes_to a h = [] then mmio hw [] a else last (writes_to a h))"
proof (induction h)
  case (Cons x h)
  then show ?case using plain_reg_simps [OF assms] by (cases x) auto
qed simp

lemma timer_init_rate:
  assumes "board_clocks hw" "plain_reg hw TCFG0" "plain_reg hw TCFG1" "plain_reg hw TCNTB4"
    and "timer_init hw 0xC110 gd h = Some (r, gd', h')"
  shows "(unat (drop_bit 8 (mmio hw h' TCFG0) AND 0xFF) + 1) * 2 ^ unat (drop_bit 16 (mmio hw h' TCFG1) AND 0xF) = 64"
    and "mmio hw h' TCNTB4 = - 1"
proof -
  define h1 where "h1 = snd (the (pwm_init hw 0xC110 4 MUX_DIV_4 False h))"
  have h1: "pwm_init hw 0xC110 4 MUX_DIV_4 False h = Some (0, h1)"
    by (simp add: h1_def pwm_init_def pwm_enable_def rd_def Let_def)
  from board_uboot_clocks(3) [OF assms(1)] obtain h2 where
    h2: "get_pwm_clk hw 0xC110 h1 = Some (66700000, h2)" "\<And>a. writes_to a h2 = writes_to a h1" by blast
  have "writes_to a h' = writes_to a h1" if "a \<noteq> TCON" for a
    using assms(5) that h1 h2 by (auto simp: timer_init_def pwm_config_def pwm_calc_tin_def pwm_enable_def div_u32_def
        timer_get_us_down_def reset_timer_masked_def rd_def Let_def)
  then have regs: "mmio hw h' a = mmio hw h1 a" if "a \<in> {TCFG0, TCFG1, TCNTB4}" for a
    using that assms(2-4) plain_reg_last [of hw a h'] plain_reg_last [of hw a h1] by auto
  note plain = assms(2-4) [THEN plain_reg_ops(1)] assms(2-4) [THEN plain_reg_ops(2)] assms(2-4) [THEN plain_reg_ops(3)]
  note unf = h1_def pwm_init_def pwm_enable_def case_prod_beta Let_def
  have fst_rd: "fst (rd hw a h) = mmio hw h a" for a h by (simp add: rd_def Let_def)
  have m: "(0xFF :: u32) = mask 8" "(0xF :: u32) = mask 4" by (simp_all add: mask_eq_exp_minus_1)
  have "mmio hw h1 TCFG0 = set_field 8 8 15 (mmio hw h TCFG0)"
    unfolding set_field_def m [symmetric] by (simp add: unf plain fst_rd)
  moreover have "mmio hw h1 TCFG1 = set_field 16 4 2 (mmio hw h TCFG1)"
    unfolding set_field_def m [symmetric] by (simp add: unf plain fst_rd)
  moreover have "mmio hw h1 TCNTB4 = - 1" by (simp add: unf plain)
  ultimately show "(unat (drop_bit 8 (mmio hw h' TCFG0) AND 0xFF) + 1) * 2 ^ unat (drop_bit 16 (mmio hw h' TCFG1) AND 0xF) = 64"
    "mmio hw h' TCNTB4 = - 1"
    using regs set_field_get [of 8 8 "15 :: u32" "mmio hw h TCFG0"] set_field_get [of 16 4 "2 :: u32" "mmio hw h TCFG1"]
    by (simp_all add: mask_eq_exp_minus_1)
qed

end
