(* ===== verification/Ram_Size.thy ===== *)
theory Ram_Size
  imports Prelude
begin

unbundle bit_operations_syntax

text \<open>
  The memory detection of U-Boot, \<^verbatim>\<open>common/memsize.c\<close>, and its use on the board (\<open>dram_init\<close> of \<^verbatim>\<open>smdkv210.c\<close>). The window under test
  is addressed by word index; what a read returns and what a write does is the memory of the board, a record of two functions over
  its state. The array \<open>save\<close> is a stack: \<^verbatim>\<open>save[i++]\<close> pushes, \<^verbatim>\<open>save[--i]\<close> pops, and an index outside the 32 elements has no result.
\<close>

record 's ram =
  ram_get :: "'s \<Rightarrow> nat \<Rightarrow> u32"
  ram_put :: "nat \<Rightarrow> u32 \<Rightarrow> 's \<Rightarrow> 's"

function ram_save :: "'s ram \<Rightarrow> nat \<Rightarrow> u32 list \<Rightarrow> 's \<Rightarrow> (u32 list \<times> 's) option" where
  "ram_save R cnt save s =
     (if cnt > 0 then
        if length save < 32
        then ram_save R (cnt div 2) (ram_get R s cnt # save) (ram_put R cnt (NOT (of_nat cnt)) s)
        else None
      else Some (save, s))"
  by pat_completeness auto
termination by (relation "measure (\<lambda>(R, cnt, save, s). cnt)") auto

declare ram_save.simps [simp del]

fun ram_restore :: "'s ram \<Rightarrow> nat \<Rightarrow> nat \<Rightarrow> u32 list \<Rightarrow> 's \<Rightarrow> 's option" where
  "ram_restore R words cnt [] s = (if cnt < words then None else Some s)"
| "ram_restore R words cnt (v # save) s =
     (if cnt < words then ram_restore R words (cnt * 2) save (ram_put R cnt v s) else Some s)"

fun ram_check :: "'s ram \<Rightarrow> nat \<Rightarrow> nat \<Rightarrow> u32 list \<Rightarrow> 's \<Rightarrow> (nat option \<times> 's) option" where
  "ram_check R words cnt [] s = (if cnt < words then None else Some (None, s))"
| "ram_check R words cnt (v # save) s =
     (if cnt < words then
        let val = ram_get R s cnt;
            s = ram_put R cnt v s
        in if val \<noteq> NOT (of_nat cnt) then do {
             s \<leftarrow> ram_restore R words (cnt * 2) save s;
             Some (Some (cnt * 4), s)
           }
           else ram_check R words (cnt * 2) save s
      else Some (None, s))"

definition get_ram_size :: "'s ram \<Rightarrow> nat \<Rightarrow> 's \<Rightarrow> (nat \<times> 's) option" where
  "get_ram_size R maxsize s = do {
     let words = maxsize div 4;
     (save, s) \<leftarrow> ram_save R (words div 2) [] s;
     if length save \<ge> 32 then None
     else do {
       let save_i = ram_get R s 0;
       let s = ram_put R 0 0 s;
       if ram_get R s 0 \<noteq> 0 then do {
         let s = ram_put R 0 save_i s;
         s \<leftarrow> ram_restore R words 1 save s;
         Some (0, s)
       }
       else do {
         (sz, s) \<leftarrow> ram_check R words 1 save s;
         Some (case sz of Some n \<Rightarrow> n | None \<Rightarrow> maxsize, s)
       }
     }
   }"

abbreviation (input) PHYS_SDRAM_1_SIZE :: nat where "PHYS_SDRAM_1_SIZE \<equiv> 0x10000000"

text \<open>The return code and the new value of \<open>gd->ram_size\<close>.\<close>

definition dram_init :: "'s ram \<Rightarrow> 's \<Rightarrow> (int \<times> nat \<times> 's) option" where
  "dram_init R s = do { (n, s) \<leftarrow> get_ram_size R PHYS_SDRAM_1_SIZE s; Some (0, n, s) }"

subsection \<open>Memory that repeats in the window\<close>

text \<open>A memory of \<open>n\<close> words whose address lines above its size are not decoded.\<close>

definition mirrored :: "nat \<Rightarrow> (nat \<Rightarrow> u32) ram" where
  "mirrored n = \<lparr>ram_get = (\<lambda>s i. s (i mod n)), ram_put = (\<lambda>i v s. s(i mod n := v))\<rparr>"

lemma mirrored_simps [simp]: "ram_get (mirrored n) s i = s (i mod n)" "ram_put (mirrored n) i v s = s(i mod n := v)"
  by (simp_all add: mirrored_def)

text \<open>The cells of the probed words from \<open>2 ^ q\<close> to below \<open>2 ^ j\<close>, the effect of probing them and of writing saved values back.\<close>

definition probed :: "nat \<Rightarrow> nat \<Rightarrow> nat \<Rightarrow> nat set" where
  "probed n q j = (\<lambda>i. 2 ^ i mod n) ` {q..<j}"

fun marked :: "nat \<Rightarrow> nat \<Rightarrow> (nat \<Rightarrow> u32) \<Rightarrow> nat \<Rightarrow> u32" where
  "marked n 0 s = s"
| "marked n (Suc p) s = marked n p (s(2 ^ p mod n := NOT (of_nat (2 ^ p))))"

fun stacked :: "nat \<Rightarrow> nat \<Rightarrow> (nat \<Rightarrow> u32) \<Rightarrow> u32 list" where
  "stacked n 0 s = []"
| "stacked n (Suc p) s = stacked n p (s(2 ^ p mod n := NOT (of_nat (2 ^ p)))) @ [s (2 ^ p mod n)]"

lemma length_stacked [simp]: "length (stacked n p s) = p"
  by (induction p arbitrary: s) auto

lemma ram_save_mirrored:
  "p + length save \<le> 32 \<Longrightarrow> ram_save (mirrored n) (2 ^ p div 2) save s = Some (stacked n p s @ save, marked n p s)"
proof (induction p arbitrary: save s)
  case (Suc p)
  have "ram_save (mirrored n) (2 ^ p) save s =
      ram_save (mirrored n) (2 ^ p div 2) (s (2 ^ p mod n) # save) (s(2 ^ p mod n := NOT (of_nat (2 ^ p))))"
    using Suc.prems by (subst ram_save.simps) simp
  also have "\<dots> = Some (stacked n (Suc p) s @ save, marked n (Suc p) s)"
    using Suc.prems by (subst Suc.IH) auto
  finally show ?case by simp
qed (simp add: ram_save.simps)

fun write_back :: "nat \<Rightarrow> nat \<Rightarrow> u32 list \<Rightarrow> (nat \<Rightarrow> u32) \<Rightarrow> nat \<Rightarrow> u32" where
  "write_back n q [] s = s"
| "write_back n q (v # vs) s = write_back n (Suc q) vs (s(2 ^ q mod n := v))"

lemma write_back_snoc: "write_back n q (vs @ [v]) s = (write_back n q vs s)(2 ^ (q + length vs) mod n := v)"
  by (induction vs arbitrary: q s) auto

lemma write_back_cong: "s a = s' a \<Longrightarrow> write_back n q vs s a = write_back n q vs s' a"
proof (induction vs arbitrary: q s s')
  case (Cons v vs)
  then have "(s(2 ^ q mod n := v)) a = (s'(2 ^ q mod n := v)) a" by simp
  from Cons.IH [of "s(2 ^ q mod n := v)" "s'(2 ^ q mod n := v)" "Suc q", OF this] show ?case by (simp only: write_back.simps)
qed simp

lemma probed_simps: "probed n q q = {}" "q \<le> p \<Longrightarrow> probed n q (Suc p) = insert (2 ^ p mod n) (probed n q p)"
  by (auto simp: probed_def less_Suc_eq)

lemma probed_Suc: "q < p \<Longrightarrow> probed n q p = insert (2 ^ q mod n) (probed n (Suc q) p)"
  unfolding probed_def by (subst image_insert [symmetric], rule arg_cong [of _ _ "image _"]) auto

lemma write_back_other: "a \<notin> probed n q (q + length vs) \<Longrightarrow> write_back n q vs s a = s a"
proof (induction vs arbitrary: q s)
  case (Cons v vs)
  have "probed n q (q + length (v # vs)) = insert (2 ^ q mod n) (probed n (Suc q) (Suc q + length vs))"
    using probed_Suc [of q "q + length (v # vs)" n] by simp
  with Cons.prems have "a \<noteq> 2 ^ q mod n" "a \<notin> probed n (Suc q) (Suc q + length vs)" by simp_all
  with Cons.IH [of "Suc q"] show ?case by simp
qed simp

lemma ram_restore_mirrored:
  "ram_restore (mirrored n) (2 ^ (q + length vs)) (2 ^ q) vs s = Some (write_back n q vs s)"
proof (induction vs arbitrary: q s)
  case (Cons v vs)
  have "(2 :: nat) ^ q < 2 ^ (q + length (v # vs))" by (intro power_strict_increasing) auto
  then show ?case using Cons.IH [of "Suc q"] by (simp add: mult.commute del: fun_upd_apply)
qed simp

text \<open>The saved values undo the probing, whatever cells share: the last value that goes back is the first that was saved.\<close>

lemma write_back_undoes:
  assumes "q \<le> p" "\<And>a. a \<notin> probed n q p \<Longrightarrow> s2 a = s a"
  shows "write_back n q (drop q (stacked n p s)) s2 = s"
  using assms
proof (induction p arbitrary: s s2)
  case (Suc p)
  show ?case
  proof (cases "q = Suc p")
    case False
    define c s1 where "c = 2 ^ p mod n" and "s1 = s(c := NOT (of_nat (2 ^ p)))"
    from False Suc.prems(1) have q: "q \<le> p" by simp
    have "write_back n q (drop q (stacked n p s1)) (s2(c := s1 c)) = s1"
      using Suc.prems(2) q by (intro Suc.IH [OF q]) (auto simp: s1_def c_def probed_simps)
    then have "write_back n q (drop q (stacked n p s1)) s2 a = s1 a" if "a \<noteq> c" for a
      using write_back_cong [of s2 a "s2(c := s1 c)" n q] that by (metis fun_upd_other)
    moreover have "drop q (stacked n (Suc p) s) = drop q (stacked n p s1) @ [s c]" using q by (simp add: s1_def c_def)
    ultimately show ?thesis using q by (auto simp: write_back_snoc s1_def c_def [symmetric])
  qed (use Suc.prems in \<open>auto simp: probed_simps\<close>)
qed (auto simp: probed_simps)

lemma marked_other: "a \<notin> probed n 0 p \<Longrightarrow> marked n p s a = s a"
  by (induction p arbitrary: s) (auto simp: probed_simps)

lemma pow_mod_pow: "i < k \<Longrightarrow> 2 ^ i mod 2 ^ k = (2 ^ i :: nat)" "k \<le> i \<Longrightarrow> 2 ^ i mod 2 ^ k = (0 :: nat)"
  by (auto simp: le_imp_power_dvd)

lemma marked_at: "i < p \<Longrightarrow> i < k \<Longrightarrow> marked (2 ^ k) p s (2 ^ i) = NOT (of_nat (2 ^ i))"
proof (induction p arbitrary: s)
  case (Suc p)
  show ?case
  proof (cases "i = p")
    case True
    have "2 ^ i mod 2 ^ k \<notin> probed (2 ^ k) 0 i"
      using Suc.prems(2) by (auto simp: probed_def pow_mod_pow)
    then show ?thesis using True Suc.prems(2) by (simp add: marked_other pow_mod_pow)
  qed (use Suc in simp)
qed simp

lemma not_power_nonzero: "k < 32 \<Longrightarrow> NOT (of_nat (2 ^ k)) \<noteq> (0 :: u32)"
proof
  assume "k < 32" "NOT (of_nat (2 ^ k)) = (0 :: u32)"
  then have "bit (NOT (2 ^ k) :: u32) (if k = 0 then 1 else 0) = False" by simp
  with \<open>k < 32\<close> show False by (simp add: bit_simps split: if_splits)
qed

lemma ram_check_mirrored:
  assumes "i + length vs = j" "i \<le> k" "j < 32"
    "\<And>l. i \<le> l \<Longrightarrow> l < j \<Longrightarrow> l < k \<Longrightarrow> s (2 ^ l) = NOT (of_nat (2 ^ l))" "k < j \<Longrightarrow> s 0 = 0"
  shows "ram_check (mirrored (2 ^ k)) (2 ^ j) (2 ^ i) vs s =
    Some (if k < j then Some (4 * 2 ^ k) else None, write_back (2 ^ k) i vs s)"
  using assms
proof (induction vs arbitrary: i s)
  case (Cons v vs)
  have lt: "(2 :: nat) ^ i < 2 ^ j" using Cons.prems(1) by (intro power_strict_increasing) auto
  show ?case
  proof (cases "i < k")
    case True
    have "ram_check (mirrored (2 ^ k)) (2 ^ j) (2 ^ Suc i) vs (s(2 ^ i := v)) =
        Some (if k < j then Some (4 * 2 ^ k) else None, write_back (2 ^ k) (Suc i) vs (s(2 ^ i := v)))"
      using Cons.prems True by (intro Cons.IH) auto
    then show ?thesis using lt True Cons.prems by (simp add: pow_mod_pow mult.commute)
  next
    case False
    with Cons.prems have "i = k" "k < j" by auto
    then show ?thesis using lt Cons.prems ram_restore_mirrored [of "2 ^ k" "Suc k" vs "s(0 := v)"]
      by (simp add: not_power_nonzero [simplified] Let_def mult.commute)
  qed
qed simp

text \<open>
  C25. On a memory of \<open>2 ^ k\<close> words that repeats in a window of \<open>2 ^ j\<close> words the detection returns the size of the memory, or of the window
  if that is smaller. A memory smaller than the window gets all its contents back; one that fills the window
  loses its first word, which is left 0.
\<close>

theorem get_ram_size_measures:
  assumes "j < 32"
  shows "get_ram_size (mirrored (2 ^ k)) (4 * 2 ^ j) s = Some (4 * 2 ^ min k j, if k < j then s else s(0 := 0))"
proof -
  define n :: nat where "n = 2 ^ k"
  define s2 where "s2 = (marked n j s)(0 := 0)"
  have zero: "0 \<in> probed n 0 j \<longleftrightarrow> k < j"
  proof
    assume "0 \<in> probed n 0 j"
    then obtain i where "i < j" "2 ^ i mod 2 ^ k = (0 :: nat)" by (auto simp: probed_def n_def)
    then show "k < j" using pow_mod_pow(1) [of i k] by (metis not_less le_less_trans power_not_zero zero_neq_numeral)
  qed (auto simp: probed_def n_def intro!: image_eqI [of _ _ k])
  have "ram_check (mirrored n) (2 ^ j) 1 (stacked n j s) s2 =
      Some (if k < j then Some (4 * 2 ^ k) else None, write_back n 0 (stacked n j s) s2)"
    using ram_check_mirrored [of 0 "stacked n j s" j k s2] assms marked_at [of _ j k s] by (simp add: n_def s2_def)
  moreover have "write_back n 0 (stacked n j s) s2 = (if k < j then s else s(0 := 0))"
  proof (cases "k < j")
    case True
    have "s2 a = s a" if "a \<notin> probed n 0 j" for a using that zero True by (auto simp: s2_def marked_other)
    then show ?thesis using write_back_undoes [of 0 j n s2 s] True by simp
  next
    case False
    have "write_back n 0 (stacked n j s) s2 a = s a" if "a \<noteq> 0" for a
      using write_back_cong [of s2 a "marked n j s" n 0 "stacked n j s"] write_back_undoes [of 0 j n "marked n j s" s] that
      by (simp add: marked_other s2_def)
    moreover have "write_back n 0 (stacked n j s) s2 0 = 0"
      using write_back_other [of 0 n 0 "stacked n j s" s2] zero False by (simp add: s2_def)
    ultimately show ?thesis using False by auto
  qed
  ultimately show ?thesis
    using assms ram_save_mirrored [of j "[]" n s] by (simp add: get_ram_size_def Let_def n_def s2_def min_def)
qed

theorem get_ram_size_measures_witness:
  "get_ram_size (mirrored (2 ^ 25)) (4 * 2 ^ 26) (\<lambda>i. of_nat i + 7) = Some (0x8000000, \<lambda>i. of_nat i + 7) \<and>
   get_ram_size (mirrored (2 ^ 26)) (4 * 2 ^ 26) (\<lambda>i. of_nat i + 7) = Some (0x10000000, (\<lambda>i. of_nat i + 7)(0 := 0))"
  using get_ram_size_measures [of 26 25] get_ram_size_measures [of 26 26] by simp

end
