(* ===== verification/Spec2Isabelle.thy ===== *)
theory Spec2Isabelle
  imports Spl_Boot Lmb Nand_Ecc Clib_String Env_Number S5p_Timer Ram_Size
begin

text \<open>
  Verification of the boot software of the SMDKV210 board (Samsung S5PV210): U-Boot 2014.04 with the
  port of this repository under \<^verbatim>\<open>src/u-boot-2014.04\<close>. All paths below are relative to that directory.

  \<^bold>\<open>The program.\<close> The processor starts the first stage (SPL, \<^verbatim>\<open>board/samsung/smdkv210/spl\<close>) from the first
  16 KiB of the NAND flash. It shows a menu on the serial line, lets an XMODEM sender program a new
  image into the flash, and copies the second stage (BL2, U-Boot itself) from the flash to memory and
  jumps to it. U-Boot sets up its timer and console, measures the memory, loads its environment
  variables from the flash into a hash table, and works on them, on the flash and on the map of
  reserved memory with the routines of its library.

  \<^bold>\<open>Conventions.\<close> Registers and integers have their C width (\<open>u8\<close>, \<open>u32\<close>, \<open>u64\<close>, wrap-around included);
  \<open>int\<close> is used for return codes. \<open>None\<close> is the value of a computation without a defined C result: an
  access outside an object, a division by zero, or a loop that never ends. State is passed and
  returned explicitly. Loops over a counter are structural, other loops have a termination proof
  or are partial functions into \<open>option\<close>, and then their return is proved. Memory-mapped registers follow
  \<open>Hw_Bus\<close>: the state is the history of accesses and the hardware is a parameter that answers reads;
  theorems name what they need from it (\<open>tx_drains\<close>, \<open>nand_device\<close>, \<open>rom_reads\<close>, \<open>down_counter\<close>), and
  each such hypothesis has an instance in a witness. No fuel is used.

  \<^bold>\<open>Theories of the first stage\<close> (sources in \<^verbatim>\<open>board/samsung/smdkv210/spl\<close>).
  \<^item> \<open>Prelude\<close>, \<open>Hw_Bus\<close>: words, lists and options; the bus history, polling loops, plain registers.
  \<^item> \<open>Spl_Uart\<close> (\<^verbatim>\<open>uart.c\<close>, \<^verbatim>\<open>led.c\<close>): every output routine; \<open>uart_printf\<close> returns exactly when the
    arguments fit the format and then sends the rendered text.
  \<^item> \<open>Spl_Clock\<close> (\<^verbatim>\<open>clock.c\<close>, \<^verbatim>\<open>timer.c\<close>): the PLL arithmetic and the clock report.
  \<^item> \<open>Spl_Nand\<close> (\<^verbatim>\<open>nand.c\<close>): the driver, with the hardware ECC; the correction restores a sector.
    \<open>Nand_Chip\<close>: a state machine for the flash chip from its data sheet, and the proof that erase,
    program and read of the driver do on that chip what they say.
  \<^item> \<open>Crc_Code\<close>, \<open>Spl_Xmodem\<close> (\<^verbatim>\<open>xmodem.c\<close>): locales for checksums with linear steps and for the detection of
    bursts; the frame check is CRC-16, and no change within two adjacent bytes passes it.
  \<^item> \<open>Xm_Link\<close>, \<open>Spl_Main\<close>, \<open>Spl_Download\<close> (\<^verbatim>\<open>main.c\<close>): the receiver as a state machine over a port given by
    a locale; a download of correct packets ends and leaves the file on the flash, also when
    packets repeat; on a silent line it gives up; a late byte after a bad packet overruns the buffer.
  \<^item> \<open>Spl_Boot\<close> (\<^verbatim>\<open>main.c\<close>): the copy of BL2 and the menu with its countdown; the sent file is what runs.

  \<^bold>\<open>Theories of U-Boot.\<close>
  \<^item> \<open>S5p_Soc\<close> (\<^verbatim>\<open>arch/arm/cpu/armv7/s5pc1xx/clock.c\<close>, \<^verbatim>\<open>drivers/serial/serial_s5p.c\<close>): clock queries and
    the console; the programmed divisor is the best one below the requested rate, and a string is
    sent completely.
  \<^item> \<open>S5p_Timer\<close> (\<^verbatim>\<open>arch/arm/cpu/armv7/s5p-common/pwm.c\<close> and \<^verbatim>\<open>timer.c\<close>, \<^verbatim>\<open>lib/time.c\<close>): the clock is exact
    across wraps of the counter, and delays end and are long enough.
  \<^item> \<open>Ram_Size\<close> (\<^verbatim>\<open>common/memsize.c\<close>): the size of a memory that repeats in its window is measured.
  \<^item> \<open>Lmb\<close> (\<^verbatim>\<open>lib/lmb.c\<close>): tables of regions refine sets of addresses; reserve adds, free removes, an
    allocation is aligned, inside memory and disjoint from what is reserved.
  \<^item> \<open>Xor_Table\<close>, \<open>Nand_Ecc\<close> (\<^verbatim>\<open>drivers/mtd/nand/nand_ecc.c\<close>): single errors are corrected, double errors
    detected. \<open>Crc32\<close> (\<^verbatim>\<open>lib/crc32.c\<close>): the table-driven routine is the division of polynomials.
  \<^item> \<open>Clib_Ctype\<close>, \<open>Clib_String\<close>, \<open>Clib_Qsort\<close> (\<^verbatim>\<open>lib/ctype.c\<close>, \<^verbatim>\<open>lib/string.c\<close>, \<^verbatim>\<open>lib/qsort.c\<close>): memory and
    string routines over a byte memory with their overlap behaviour; sorting.
  \<^item> \<open>Vsprintf\<close>, \<open>Number_Text\<close> (\<^verbatim>\<open>lib/vsprintf.c\<close>): number formatting and parsing; the digit routines
    agree with division by ten, and a printed number reads back.
  \<^item> \<open>Hashtable\<close>, \<open>Hash_Map\<close> (\<^verbatim>\<open>lib/hashtable.c\<close>): the open-addressing table refines a finite map.
    \<open>Env_Text\<close>: export and import of the table as text are inverse to each other.
  \<^item> \<open>Nand_Util\<close>, \<open>Skip_Bad\<close> (\<^verbatim>\<open>drivers/mtd/nand/nand_util.c\<close>, \<^verbatim>\<open>drivers/mtd/mtdcore.c\<close>): transfers that skip bad
    blocks, over an MTD device whose operations are a parameter.
  \<^item> \<open>Environment\<close>, \<open>Env_Number\<close> (\<^verbatim>\<open>common/cmd_nvedit.c\<close>, \<^verbatim>\<open>common/env_common.c\<close>, \<^verbatim>\<open>common/env_nand.c\<close>): get, set, save
    and load; what \<open>saveenv\<close> stored the next start imports, and a damaged image is refused.
  This theory holds what spans the two stages.

  \<^bold>\<open>Bounds.\<close> Hypotheses on lengths keep numbers within their C width (a file below 1 GiB on the flash,
  the hash table below its size, text below the environment size); the menu counts down from its
  own constants. They follow from the board's configuration.

  \<^bold>\<open>Not modelled.\<close> Assembly start code and linker scripts (no C semantics); the command shell
  (\<^verbatim>\<open>hush\<close>) and the interactive commands, which format and print; \<^verbatim>\<open>dlmalloc\<close>, whose behaviour
  appears as allocations that may fail; the network stack, USB, MMC, LCD and every driver and board
  that this configuration does not build; file systems and compression; the host tools under
  \<^verbatim>\<open>tools\<close>; the loader of Linux images and the device tree. They are separate programs of the size
  of this one or depend on devices that the board does not use at boot.
\<close>

lemma page_div_mod:
  "(PAGE_SIZE * k + j) div PAGE_SIZE = k + j div PAGE_SIZE" "(PAGE_SIZE * k + j) mod PAGE_SIZE = j mod PAGE_SIZE"
  by simp_all

text \<open>
  C40. The second stage and the saved environment share flash: the boot copy takes 256 KiB from 16 KiB on
  (\<^verbatim>\<open>spl/myboot_cfg.h\<close>), the environment starts at 256 KiB (\<^verbatim>\<open>include/configs/smdkv210.h\<close>). Once an environment
  image is on the flash, the last 16 KiB of the copied program are the first 16 KiB of that image.
\<close>

theorem boot_copies_environment:
  assumes "tx_drains hw" "rom_reads hw c0" "length dat = ENV_SIZE"
    and "\<forall>j < CONFIG_ENV_SIZE. flash c0 b ((CONFIG_ENV_OFFSET + j) div PAGE_SIZE) ((CONFIG_ENV_OFFSET + j) mod PAGE_SIZE) =
      env_image dat ! j"
  shows "\<exists>m' b'. copybl2ToRamAndRun hw m b = Some (BL2_RAM_ADDR, m', b') \<and>
    (\<forall>j < 0x4000. m' (BL2_RAM_ADDR + of_nat (0x3C000 + j)) = env_image dat ! j)"
proof -
  from boot_copies [OF assms(1,2), of m b] obtain m' b' where
    c: "copybl2ToRamAndRun hw m b = Some (BL2_RAM_ADDR, m', b')"
      "\<And>i. i < 262144 \<Longrightarrow> m' (BL2_RAM_ADDR + of_nat i) = flash c0 b (8 + i div PAGE_SIZE) (i mod PAGE_SIZE)" by blast
  have "m' (BL2_RAM_ADDR + of_nat (0x3C000 + j)) = env_image dat ! j" if "j < 0x4000" for j
  proof -
    have a: "8 + (0x3C000 + j) div PAGE_SIZE = (CONFIG_ENV_OFFSET + j) div PAGE_SIZE"
      "(0x3C000 + j) mod PAGE_SIZE = (CONFIG_ENV_OFFSET + j) mod PAGE_SIZE"
      using page_div_mod [of 120 j] page_div_mod [of 128 j] by simp_all
    show ?thesis using c(2) [of "0x3C000 + j"] assms(4) that unfolding a by simp
  qed
  with c(1) show ?thesis by blast
qed

text \<open>A flash that holds an environment of zeros, on the hardware of the first stage.\<close>

definition no_vars :: "u8 list" where
  "no_vars = replicate ENV_SIZE 0"

definition env_chip :: chip where
  "env_chip = \<lparr>cells = (\<lambda>r c. if 128 \<le> r \<and> r < 192 then env_image no_vars ! ((r - 128) * PAGE_SIZE + c) else 0xFF),
    mode = CIdle, selected = False\<rparr>"

theorem boot_copies_environment_witness:
  "\<exists>m' b'. copybl2ToRamAndRun (spl_hw env_chip) (\<lambda>_. 0) (blank_board\<lparr>hist := []\<rparr>) = Some (BL2_RAM_ADDR, m', b') \<and>
    (\<forall>j < 0x4000. m' (BL2_RAM_ADDR + of_nat (0x3C000 + j)) = env_image no_vars ! j)"
proof (rule boot_copies_environment [OF spl_hw_drains spl_hw_rom])
  show "length no_vars = ENV_SIZE" unfolding no_vars_def by (rule length_replicate)
  have "(CONFIG_ENV_OFFSET + j) div PAGE_SIZE = 128 + j div PAGE_SIZE" "(CONFIG_ENV_OFFSET + j) mod PAGE_SIZE = j mod PAGE_SIZE"
    "j < CONFIG_ENV_SIZE \<Longrightarrow> j div PAGE_SIZE < 64" for j :: nat
    using page_div_mod [of 128 j] by (simp_all add: less_mult_imp_div_less)
  then show "\<forall>j < CONFIG_ENV_SIZE. flash env_chip (blank_board\<lparr>hist := []\<rparr>) ((CONFIG_ENV_OFFSET + j) div PAGE_SIZE)
      ((CONFIG_ENV_OFFSET + j) mod PAGE_SIZE) = env_image no_vars ! j"
    by (simp add: chip_of_def env_chip_def)
qed

end
